(* ===== verification/Xv6_Prelude.thy ===== *)
theory Xv6_Prelude
  imports Main "HOL-Library.Word"
begin

text \<open>
  The prelude of the development: the C integer types as words, the error values and the
  state-passing operations every component is written in, the weakest-precondition calculus the
  component proofs use, little-endian byte encodings and the list lemmas shared by the components.
\<close>

unbundle bit_operations_syntax

section \<open>Integer types\<close>

text \<open>\<^verbatim>\<open>include/xv6/types.h\<close>: the C compiler's LP64 model.\<close>

type_synonym uchar = "8 word"
type_synonym ushort = "16 word"
type_synonym uint = "32 word"
type_synonym ulong = "64 word"
type_synonym byte = "8 word"

lemmas unat_lt = unsigned_less [where ?'a = nat]

lemma unat_minus_1: "unat (- 1 :: 'a::len word) = 2 ^ LENGTH('a) - 1"
  by (simp add: unsigned_minus_1_eq_mask mask_eq_exp_minus_1)

lemma unat_diff_wrap:
  fixes a b :: "'a::len word"
  assumes "unat a < unat b"
  shows "unat (a - b) = 2 ^ LENGTH('a) + unat a - unat b"
  using assms by (simp add: unat_sub_if' word_le_nat_alt)

lemma unat_diff_le:
  fixes a b :: "'a::len word"
  assumes "unat b \<le> unat a"
  shows "unat (a - b) = unat a - unat b"
  using assms by (simp add: unat_sub word_le_nat_alt)

lemma unat_add_no_wrap:
  fixes a b :: "'a::len word"
  assumes "unat a + unat b < 2 ^ LENGTH('a)"
  shows "unat (a + b) = unat a + unat b"
  using assms unat_add_lem by blast

lemma unat_ucast_up:
  fixes x :: "'a::len word"
  assumes "LENGTH('a) \<le> LENGTH('b::len)"
  shows "unat (ucast x :: 'b word) = unat x"
proof -
  have "unat x < 2 ^ LENGTH('b)"
    using unat_lt [of x] assms by (meson less_le_trans one_le_numeral power_increasing)
  then show ?thesis by (simp add: unsigned_ucast_eq take_bit_eq_mod)
qed

section \<open>Errors and operations\<close>

text \<open>
  A kernel routine either returns or ends in one of these: \<open>Panic msg\<close> is a call of
  \<^verbatim>\<open>panic(msg)\<close>, \<open>Fault\<close> an access through a null pointer, \<open>Blocked\<close> a call of
  \<^verbatim>\<open>sleep\<close> (the process waits for somebody else), and \<open>Diverge\<close> a loop that used up its
  step budget.
\<close>

datatype error = Panic string | Fault | Blocked | Diverge

type_synonym ('s, 'a) kop = "'s \<Rightarrow> error + 'a \<times> 's"

definition ret :: "'a \<Rightarrow> ('s, 'a) kop" where
  "ret x = (\<lambda>s. Inr (x, s))"

definition bind :: "('s, 'a) kop \<Rightarrow> ('a \<Rightarrow> ('s, 'b) kop) \<Rightarrow> ('s, 'b) kop" where
  "bind f g = (\<lambda>s. case f s of Inl e \<Rightarrow> Inl e | Inr (x, t) \<Rightarrow> g x t)"

definition andthen :: "('s, 'a) kop \<Rightarrow> ('s, 'b) kop \<Rightarrow> ('s, 'b) kop" where
  "andthen f g = bind f (\<lambda>_. g)"

definition fail :: "error \<Rightarrow> ('s, 'a) kop" where
  "fail e = (\<lambda>s. Inl e)"

definition panic :: "string \<Rightarrow> ('s, 'a) kop" where
  "panic msg = fail (Panic msg)"

definition gets :: "('s \<Rightarrow> 'a) \<Rightarrow> ('s, 'a) kop" where
  "gets f = (\<lambda>s. Inr (f s, s))"

definition modify :: "('s \<Rightarrow> 's) \<Rightarrow> ('s, unit) kop" where
  "modify f = (\<lambda>s. Inr ((), f s))"

definition skip :: "('s, unit) kop" where
  "skip = ret ()"

text \<open>\<open>whenK c f\<close> is the C statement \<^verbatim>\<open>if (c) f;\<close>.\<close>

definition whenK :: "bool \<Rightarrow> ('s, unit) kop \<Rightarrow> ('s, unit) kop" where
  "whenK c f = (if c then f else skip)"

text \<open>\<open>forK f [i, \<dots>]\<close> is a \<^verbatim>\<open>for\<close> loop with no early exit.\<close>

fun forK :: "('i \<Rightarrow> ('s, unit) kop) \<Rightarrow> 'i list \<Rightarrow> ('s, unit) kop" where
  "forK f [] = skip"
| "forK f (i # is) = andthen (f i) (forK f is)"

section \<open>Weakest preconditions\<close>

text \<open>
  \<open>wp f Q s\<close>: started in \<open>s\<close>, \<open>f\<close> returns (no panic, no fault, no wait) and \<open>Q\<close> holds of
  the result and the final state. It is total correctness: an operation that ends in an error
  satisfies no postcondition.
\<close>

definition wp :: "('s, 'a) kop \<Rightarrow> ('a \<Rightarrow> 's \<Rightarrow> bool) \<Rightarrow> 's \<Rightarrow> bool" where
  "wp f Q s = (case f s of Inl e \<Rightarrow> False | Inr (x, t) \<Rightarrow> Q x t)"

named_theorems kop_defs \<open>definitions of the basic operations\<close>
named_theorems wp_simps \<open>weakest preconditions of the basic operations\<close>

lemmas [kop_defs] =
  ret_def bind_def andthen_def fail_def panic_def gets_def modify_def skip_def whenK_def

lemma wp_ret [wp_simps, simp]: "wp (ret x) Q = Q x"
  by (simp add: wp_def ret_def fun_eq_iff)

lemma wp_bind [wp_simps, simp]: "wp (bind f g) Q = wp f (\<lambda>x. wp (g x) Q)"
  by (simp add: wp_def bind_def fun_eq_iff split: sum.splits prod.splits)

lemma wp_andthen [wp_simps, simp]: "wp (andthen f g) Q = wp f (\<lambda>_. wp g Q)"
  by (simp add: andthen_def)

lemma wp_fail [wp_simps, simp]: "wp (fail e) Q = (\<lambda>s. False)"
  by (simp add: wp_def fail_def fun_eq_iff)

lemma wp_panic [wp_simps, simp]: "wp (panic m) Q = (\<lambda>s. False)"
  by (simp add: panic_def)

lemma wp_gets [wp_simps, simp]: "wp (gets f) Q = (\<lambda>s. Q (f s) s)"
  by (simp add: wp_def gets_def fun_eq_iff)

lemma wp_modify [wp_simps, simp]: "wp (modify f) Q = (\<lambda>s. Q () (f s))"
  by (simp add: wp_def modify_def fun_eq_iff)

lemma wp_skip [wp_simps, simp]: "wp skip Q = Q ()"
  by (simp add: skip_def)

lemma wp_whenK [wp_simps, simp]: "wp (whenK c f) Q = (if c then wp f Q else Q ())"
  by (simp add: whenK_def)

lemma wp_if [wp_simps, simp]: "wp (if c then f else g) Q = (if c then wp f Q else wp g Q)"
  by simp

lemma wp_mono:
  assumes "wp f P s" and "\<And>x t. P x t \<Longrightarrow> Q x t"
  shows "wp f Q s"
  using assms by (auto simp: wp_def split: sum.splits)

lemma wp_conj: "wp f P s \<Longrightarrow> wp f Q s \<Longrightarrow> wp f (\<lambda>x t. P x t \<and> Q x t) s"
  by (auto simp: wp_def split: sum.splits)

lemma wp_returns: "wp f Q s \<Longrightarrow> \<exists>x t. f s = Inr (x, t) \<and> Q x t"
  by (auto simp: wp_def split: sum.splits)

lemma wp_result: "wp f Q s \<Longrightarrow> f s = Inr (x, t) \<Longrightarrow> Q x t"
  by (simp add: wp_def)

lemma wpI: "f s = Inr (x, t) \<Longrightarrow> Q x t \<Longrightarrow> wp f Q s"
  by (simp add: wp_def)

lemma bind_Inr_iff:
  "bind f g s = Inr (y, u) \<longleftrightarrow> (\<exists>x t. f s = Inr (x, t) \<and> g x t = Inr (y, u))"
  by (auto simp: bind_def split: sum.splits)

lemma andthen_Inr_iff:
  "andthen f g s = Inr (y, u) \<longleftrightarrow> (\<exists>x t. f s = Inr (x, t) \<and> g t = Inr (y, u))"
  by (simp add: andthen_def bind_Inr_iff)

text \<open>The rule for a loop over a list: an invariant indexed by what has been done.\<close>

lemma wp_forK:
  assumes "I [] s"
    and "\<And>done i rest t. xs = done @ i # rest \<Longrightarrow> I done t \<Longrightarrow> wp (f i) (\<lambda>_. I (done @ [i])) t"
    and "\<And>t. I xs t \<Longrightarrow> Q () t"
  shows "wp (forK f xs) Q s"
proof -
  have "wp (forK f ys) (\<lambda>_. I xs) t" if "xs = zs @ ys" "I zs t" for zs ys t
    using that
  proof (induction ys arbitrary: zs t)
    case Nil
    then show ?case by simp
  next
    case (Cons y ys)
    have "wp (f y) (\<lambda>_. I (zs @ [y])) t"
      using Cons.prems by (intro assms(2)) auto
    moreover have "wp (forK f ys) (\<lambda>_. I xs) u" if "I (zs @ [y]) u" for u
      using Cons.IH [of "zs @ [y]" u] Cons.prems(1) that by simp
    ultimately show ?case by (auto intro: wp_mono)
  qed
  from this [of "[]" xs s] assms(1) have "wp (forK f xs) (\<lambda>_. I xs) s" by simp
  then show ?thesis by (rule wp_mono) (simp add: assms(3))
qed

text \<open>A loop \<^verbatim>\<open>for (i = 0; i < n; i++)\<close> runs over \<open>[0..<n]\<close>; at the turn \<open>i\<close> it has done \<open>[0..<i]\<close>.\<close>

lemma upt_eq_append:
  assumes "[0..<n] = xs @ i # ys"
  shows "i = length xs" "i < n" "xs = [0..<i]"
proof -
  have len: "length xs < n" using arg_cong [OF assms, of length] by simp
  have "[0..<n] ! length xs = i" unfolding assms by simp
  then show i: "i = length xs" and "i < n" using len by simp_all
  have "take (length xs) [0..<n] = xs" unfolding assms by simp
  then show "xs = [0..<i]" using i len by (simp add: take_upt)
qed

section \<open>Little-endian encodings\<close>

text \<open>
  x86 is little-endian and the C code reads structures straight out of byte buffers, so a
  multi-byte field at an offset of a buffer is the little-endian value of its bytes.
\<close>

fun le_word :: "byte list \<Rightarrow> 'a::len word" where
  "le_word [] = 0"
| "le_word (b # bs) = ucast b OR push_bit 8 (le_word bs)"

definition le_bytes :: "nat \<Rightarrow> 'a::len word \<Rightarrow> byte list" where
  "le_bytes k w = map (\<lambda>i. ucast (drop_bit (8 * i) w)) [0..<k]"

lemma length_le_bytes [simp]: "length (le_bytes k w) = k"
  by (simp add: le_bytes_def)

lemma bit_le_word:
  "bit (le_word bs :: 'a::len word) n \<longleftrightarrow>
     n < LENGTH('a) \<and> n div 8 < length bs \<and> bit (bs ! (n div 8)) (n mod 8)"
proof (induction bs arbitrary: n)
  case Nil
  then show ?case by simp
next
  case (Cons b bs)
  show ?case
  proof (cases "n < 8")
    case True
    then show ?thesis by (auto simp: bit_or_iff bit_push_bit_iff bit_ucast_iff)
  next
    case False
    then have "n div 8 = Suc ((n - 8) div 8)" "n mod 8 = (n - 8) mod 8"
      by (simp_all add: le_div_geq le_mod_geq)
    moreover have "\<not> bit b n"
      using False by (auto dest: bit_imp_le_length)
    ultimately show ?thesis
      using False Cons.IH [of "n - 8"]
      by (auto simp: bit_or_iff bit_push_bit_iff bit_ucast_iff)
  qed
qed

lemma le_word_le_bytes:
  assumes "LENGTH('a) \<le> 8 * k"
  shows "le_word (le_bytes k w) = (w :: 'a::len word)"
proof (rule bit_word_eqI)
  fix n
  assume n: "n < LENGTH('a)"
  then have k: "n div 8 < k"
    using assms by (auto intro: less_mult_imp_div_less simp: mult.commute)
  have eq: "8 * (n div 8) + n mod 8 = n" by simp
  show "bit (le_word (le_bytes k w) :: 'a word) n = bit w n"
    using n k
    by (simp add: bit_le_word le_bytes_def bit_ucast_iff bit_drop_bit_eq eq)
qed

lemma le_bytes_le_word:
  assumes "8 * k \<le> LENGTH('a)" and "length bs = k"
  shows "le_bytes k (le_word bs :: 'a::len word) = bs"
proof (rule nth_equalityI)
  show "length (le_bytes k (le_word bs :: 'a word)) = length bs"
    using assms by simp
next
  fix i
  assume "i < length (le_bytes k (le_word bs :: 'a word))"
  then have i: "i < k" by simp
  show "le_bytes k (le_word bs :: 'a word) ! i = bs ! i"
  proof (rule bit_word_eqI)
    fix n
    assume n: "n < LENGTH(8)"
    then have n8: "n < 8" by simp
    have "8 * i + n < LENGTH('a)" using i n8 assms(1) by linarith
    moreover have "(8 * i + n) div 8 = i" "(8 * i + n) mod 8 = n"
      using n8 by simp_all
    ultimately show "bit (le_bytes k (le_word bs :: 'a word) ! i) n = bit (bs ! i) n"
      using i n8 assms by (simp add: le_bytes_def bit_ucast_iff bit_drop_bit_eq bit_le_word)
  qed
qed

section \<open>Reading and writing a run of a list\<close>

text \<open>
  \<open>chunk off n xs\<close> is the run of \<open>n\<close> elements at offset \<open>off\<close>; \<open>patch off ys xs\<close> overwrites
  the run at \<open>off\<close> with \<open>ys\<close>, as a \<^verbatim>\<open>memmove\<close> into a buffer does.
\<close>

definition chunk :: "nat \<Rightarrow> nat \<Rightarrow> 'a list \<Rightarrow> 'a list" where
  "chunk off n xs = take n (drop off xs)"

definition patch :: "nat \<Rightarrow> 'a list \<Rightarrow> 'a list \<Rightarrow> 'a list" where
  "patch off ys xs = take off xs @ ys @ drop (off + length ys) xs"

lemma length_chunk [simp]: "length (chunk off n xs) = min n (length xs - off)"
  by (simp add: chunk_def)

lemma length_patch: "off + length ys \<le> length xs \<Longrightarrow> length (patch off ys xs) = length xs"
  by (simp add: patch_def)

lemma nth_chunk: "i < n \<Longrightarrow> off + i < length xs \<Longrightarrow> chunk off n xs ! i = xs ! (off + i)"
  by (simp add: chunk_def)

lemma nth_patch:
  assumes "off + length ys \<le> length xs" and "i < length xs"
  shows "patch off ys xs ! i =
    (if off \<le> i \<and> i < off + length ys then ys ! (i - off) else xs ! i)"
  using assms by (auto simp: patch_def nth_append min_def)

lemma chunk_patch_same [simp]:
  "off + length ys \<le> length xs \<Longrightarrow> n = length ys \<Longrightarrow> chunk off n (patch off ys xs) = ys"
  by (simp add: chunk_def patch_def)

lemma chunk_patch_other:
  assumes "off + length ys \<le> length xs" and "o' + n \<le> off \<or> off + length ys \<le> o'"
  shows "chunk o' n (patch off ys xs) = chunk o' n xs"
proof (rule nth_equalityI)
  show "length (chunk o' n (patch off ys xs)) = length (chunk o' n xs)"
    using assms(1) by (simp add: length_patch)
next
  fix i
  assume "i < length (chunk o' n (patch off ys xs))"
  then have "i < n" "o' + i < length xs"
    using assms(1) by (auto simp: length_patch)
  then show "chunk o' n (patch off ys xs) ! i = chunk o' n xs ! i"
    using assms by (auto simp: nth_chunk nth_patch length_patch)
qed

definition get_le :: "nat \<Rightarrow> nat \<Rightarrow> byte list \<Rightarrow> 'a::len word" where
  "get_le k off d = le_word (chunk off k d)"

definition put_le :: "nat \<Rightarrow> nat \<Rightarrow> 'a::len word \<Rightarrow> byte list \<Rightarrow> byte list" where
  "put_le k off v d = patch off (le_bytes k v) d"

lemma length_put_le: "off + k \<le> length d \<Longrightarrow> length (put_le k off v d) = length d"
  by (simp add: put_le_def length_patch)

lemma get_put_le_same:
  "off + k \<le> length d \<Longrightarrow> LENGTH('a) \<le> 8 * k \<Longrightarrow> get_le k off (put_le k off v d) = (v :: 'a::len word)"
  by (simp add: get_le_def put_le_def le_word_le_bytes)

lemma get_put_le_other:
  "off + k \<le> length d \<Longrightarrow> o' + k' \<le> off \<or> off + k \<le> o' \<Longrightarrow>
   get_le k' o' (put_le k off v d) = get_le k' o' d"
  by (simp add: get_le_def put_le_def chunk_patch_other)

end
