(* ===== verification/Cstring.thy ===== *)
theory Cstring
  imports Xv6_Prelude
begin

text \<open>
  \<^verbatim>\<open>kernel/string.c\<close>: memory and string routines. Memory is a function from 64-bit addresses to
  bytes; a pointer is an address, and pointer arithmetic wraps as the machine's does. The routines
  that only read a string take its bytes as a function of the index (\<open>view\<close>), so that they apply
  to memory and to byte buffers alike.
\<close>

type_synonym mem = "ulong \<Rightarrow> byte"

definition view :: "mem \<Rightarrow> ulong \<Rightarrow> nat \<Rightarrow> byte" where
  "view m p i = m (p + of_nat i)"

definition view_list :: "byte list \<Rightarrow> nat \<Rightarrow> byte" where
  "view_list xs i = (if i < length xs then xs ! i else 0)"

section \<open>Memory routines\<close>

text \<open>\<^verbatim>\<open>rep stosb\<close> and \<^verbatim>\<open>rep stosl\<close> of \<^verbatim>\<open>include/xv6/x86.h\<close>.\<close>

fun stosb :: "mem \<Rightarrow> ulong \<Rightarrow> byte \<Rightarrow> nat \<Rightarrow> mem" where
  "stosb m a b 0 = m"
| "stosb m a b (Suc n) = stosb (m(a := b)) (a + 1) b n"

definition store32 :: "mem \<Rightarrow> ulong \<Rightarrow> uint \<Rightarrow> mem" where
  "store32 m a w = m(a := ucast w, a + 1 := ucast (drop_bit 8 w),
     a + 2 := ucast (drop_bit 16 w), a + 3 := ucast (drop_bit 24 w))"

fun stosl :: "mem \<Rightarrow> ulong \<Rightarrow> uint \<Rightarrow> nat \<Rightarrow> mem" where
  "stosl m a w 0 = m"
| "stosl m a w (Suc n) = stosl (store32 m a w) (a + 4) w n"

definition memset :: "mem \<Rightarrow> ulong \<Rightarrow> uint \<Rightarrow> uint \<Rightarrow> mem" where
  "memset m dst c n =
     (if dst mod 4 = 0 \<and> n mod 4 = 0 then
        let c = c AND 0xFF in
        stosl m dst (push_bit 24 c OR push_bit 16 c OR push_bit 8 c OR c) (unat (n div 4))
      else stosb m dst (ucast c) (unat n))"

fun memcmp_loop :: "(nat \<Rightarrow> byte) \<Rightarrow> (nat \<Rightarrow> byte) \<Rightarrow> nat \<Rightarrow> int" where
  "memcmp_loop s1 s2 0 = 0"
| "memcmp_loop s1 s2 (Suc n) =
     (if s1 0 \<noteq> s2 0 then Word.uint (s1 0) - Word.uint (s2 0)
      else memcmp_loop (\<lambda>i. s1 (Suc i)) (\<lambda>i. s2 (Suc i)) n)"

definition memcmp :: "mem \<Rightarrow> ulong \<Rightarrow> ulong \<Rightarrow> uint \<Rightarrow> int" where
  "memcmp m v1 v2 n = memcmp_loop (view m v1) (view m v2) (unat n)"

fun copy_fwd :: "mem \<Rightarrow> ulong \<Rightarrow> ulong \<Rightarrow> nat \<Rightarrow> mem" where
  "copy_fwd m d s 0 = m"
| "copy_fwd m d s (Suc n) = copy_fwd (m(d := m s)) (d + 1) (s + 1) n"

fun copy_bwd :: "mem \<Rightarrow> ulong \<Rightarrow> ulong \<Rightarrow> nat \<Rightarrow> mem" where
  "copy_bwd m d s 0 = m"
| "copy_bwd m d s (Suc n) = copy_bwd (m(d - 1 := m (s - 1))) (d - 1) (s - 1) n"

definition memmove :: "mem \<Rightarrow> ulong \<Rightarrow> ulong \<Rightarrow> uint \<Rightarrow> mem" where
  "memmove m dst src n =
     (if src < dst \<and> dst < src + ucast n
      then copy_bwd m (dst + ucast n) (src + ucast n) (unat n)
      else copy_fwd m dst src (unat n))"

definition memcpy :: "mem \<Rightarrow> ulong \<Rightarrow> ulong \<Rightarrow> uint \<Rightarrow> mem" where
  "memcpy m dst src n = memmove m dst src n"

text \<open>
  \<^verbatim>\<open>rep movsd\<close> moves four bytes per step. The count is the 64-bit register the C expression
  \<^verbatim>\<open>(end - s) >> 2\<close> is loaded into: a signed difference, shifted arithmetically.
\<close>

definition move32 :: "mem \<Rightarrow> ulong \<Rightarrow> ulong \<Rightarrow> mem" where
  "move32 m d s = m(d := m s, d + 1 := m (s + 1), d + 2 := m (s + 2), d + 3 := m (s + 3))"

fun rep_movsd :: "mem \<Rightarrow> ulong \<Rightarrow> ulong \<Rightarrow> nat \<Rightarrow> mem" where
  "rep_movsd m d s 0 = m"
| "rep_movsd m d s (Suc k) = rep_movsd (move32 m d s) (d + 4) (s + 4) k"

definition ALIGNUP :: "ulong \<Rightarrow> ulong \<Rightarrow> ulong" where
  "ALIGNUP x a = (x + a - 1) AND NOT (a - 1)"

definition memcpy_fast :: "mem \<Rightarrow> ulong \<Rightarrow> ulong \<Rightarrow> uint \<Rightarrow> mem" where
  "memcpy_fast m dst src n =
     (let aligned_start = ALIGNUP src 4;
          e = src + ucast n;
          k1 = unat (aligned_start - src);
          m1 = (if src < aligned_start then copy_fwd m dst src k1 else m);
          s1 = (if src < aligned_start then aligned_start else src);
          d1 = dst + (s1 - src);
          cnt = unat (signed_drop_bit 2 (e - s1));
          m2 = rep_movsd m1 d1 s1 cnt;
          s2 = s1 + of_nat (4 * cnt);
          d2 = d1 + of_nat (4 * cnt)
      in if s2 < e then copy_fwd m2 d2 s2 (unat (e - s2)) else m2)"

section \<open>String routines\<close>

fun strncmp :: "(nat \<Rightarrow> byte) \<Rightarrow> (nat \<Rightarrow> byte) \<Rightarrow> nat \<Rightarrow> int" where
  "strncmp p q 0 = 0"
| "strncmp p q (Suc n) =
     (if p 0 \<noteq> 0 \<and> p 0 = q 0 then strncmp (\<lambda>i. p (Suc i)) (\<lambda>i. q (Suc i)) n
      else Word.uint (p 0) - Word.uint (q 0))"

text \<open>
  The bytes \<^verbatim>\<open>strncpy\<close> and \<^verbatim>\<open>safestrcpy\<close> store: the string up to its NUL, then the padding.
\<close>

fun strncpy :: "(nat \<Rightarrow> byte) \<Rightarrow> nat \<Rightarrow> byte list" where
  "strncpy t 0 = []"
| "strncpy t (Suc n) =
     (if t 0 \<noteq> 0 then t 0 # strncpy (\<lambda>i. t (Suc i)) n else replicate (Suc n) 0)"

fun safestrcpy_loop :: "(nat \<Rightarrow> byte) \<Rightarrow> nat \<Rightarrow> byte list" where
  "safestrcpy_loop t 0 = [0]"
| "safestrcpy_loop t (Suc n) =
     (if t 0 \<noteq> 0 then t 0 # safestrcpy_loop (\<lambda>i. t (Suc i)) n else [0, 0])"

definition safestrcpy :: "(nat \<Rightarrow> byte) \<Rightarrow> int \<Rightarrow> byte list" where
  "safestrcpy t n = (if n \<le> 0 then [] else safestrcpy_loop t (nat (n - 1)))"

text \<open>\<^verbatim>\<open>strlen\<close> runs until it meets a NUL; \<open>None\<close> is the run that never does.\<close>

partial_function (option) strlen_from :: "(nat \<Rightarrow> byte) \<Rightarrow> nat \<Rightarrow> nat option" where
  "strlen_from s n = (if s n = 0 then Some n else strlen_from s (Suc n))"

definition strlen :: "(nat \<Rightarrow> byte) \<Rightarrow> nat option" where
  "strlen s = strlen_from s 0"

section \<open>Filling memory\<close>

text \<open>The region of \<open>n\<close> bytes at \<open>a\<close>, as address arithmetic sees it (it may wrap).\<close>

definition in_region :: "ulong \<Rightarrow> nat \<Rightarrow> ulong \<Rightarrow> bool" where
  "in_region a n x \<longleftrightarrow> unat (x - a) < n"

lemma in_region_0 [simp]: "\<not> in_region a 0 x"
  by (simp add: in_region_def)

lemma in_region_Suc:
  assumes "n < 2 ^ 64"
  shows "in_region a (Suc n) x \<longleftrightarrow> x = a \<or> in_region (a + 1) n x"
proof (cases "x = a")
  case True
  then show ?thesis by (simp add: in_region_def)
next
  case False
  then have nz: "x - a \<noteq> 0" by simp
  have "unat (x - a - 1) = unat (x - a) - 1"
    by (rule unat_minus_one) (rule nz)
  moreover have "0 < unat (x - a)"
    using nz by (simp only: unat_gt_0 not_False_eq_True)
  moreover have "x - (a + 1) = x - a - 1"
    by (rule diff_diff_eq [symmetric])
  ultimately have "unat (x - a) < Suc n \<longleftrightarrow> unat (x - (a + 1)) < n"
    by (simp only:) linarith
  then show ?thesis
    unfolding in_region_def using False by blast
qed

lemma in_region_start: "n < 2 ^ 64 \<Longrightarrow> \<not> in_region (a + 1) n a"
proof -
  assume "n < 2 ^ 64"
  have "a - (a + 1) = (- 1 :: ulong)" by simp
  then have "unat (a - (a + 1)) = 2 ^ 64 - 1"
    by (simp only: unat_minus_1) simp
  with \<open>n < 2 ^ 64\<close> show ?thesis by (simp add: in_region_def)
qed

lemma stosb_fills:
  "n \<le> 2 ^ 64 \<Longrightarrow> stosb m a b n = (\<lambda>x. if in_region a n x then b else m x)"
proof (induction n arbitrary: m a)
  case 0
  then show ?case by simp
next
  case (Suc n)
  then have n: "n < 2 ^ 64" "n \<le> 2 ^ 64" by simp_all
  show ?case
    by (simp add: Suc.IH [OF n(2)] in_region_Suc [OF n(1)] fun_eq_iff)
qed

lemma stosb_add: "stosb m a b (k + n) = stosb (stosb m a b k) (a + of_nat k) b n"
  by (induction k arbitrary: m a) (simp_all add: ac_simps)

lemma store32_stosb:
  assumes "ucast w = b" "ucast (drop_bit 8 w) = b" "ucast (drop_bit 16 w) = b" "ucast (drop_bit 24 w) = b"
  shows "store32 m a w = stosb m a b 4"
  using assms by (simp add: store32_def eval_nat_numeral ac_simps)

lemma stosl_stosb:
  assumes "ucast w = b" "ucast (drop_bit 8 w) = b" "ucast (drop_bit 16 w) = b" "ucast (drop_bit 24 w) = b"
  shows "stosl m a w n = stosb m a b (4 * n)"
proof (induction n arbitrary: m a)
  case 0
  then show ?case by simp
next
  case (Suc n)
  have "stosb m a b (4 + 4 * n) = stosb (stosb m a b 4) (a + 4) b (4 * n)"
    using stosb_add [of m a b 4 "4 * n"] by simp
  with Suc show ?case by (simp add: store32_stosb [OF assms])
qed

lemma quad_bytes:
  fixes c :: uint
  defines "w \<equiv> push_bit 24 (c AND 0xFF) OR push_bit 16 (c AND 0xFF) OR push_bit 8 (c AND 0xFF) OR (c AND 0xFF)"
  shows "(ucast w :: byte) = ucast c" "(ucast (drop_bit 8 w) :: byte) = ucast c"
    "(ucast (drop_bit 16 w) :: byte) = ucast c" "(ucast (drop_bit 24 w) :: byte) = ucast c"
proof -
  have m: "c AND 0xFF = take_bit 8 c"
    by (simp add: take_bit_eq_mask mask_eq_exp_minus_1)
  show "(ucast w :: byte) = ucast c" "(ucast (drop_bit 8 w) :: byte) = ucast c"
    "(ucast (drop_bit 16 w) :: byte) = ucast c" "(ucast (drop_bit 24 w) :: byte) = ucast c"
    unfolding w_def m
    by (rule bit_word_eqI,
        simp add: bit_or_iff bit_push_bit_iff bit_ucast_iff bit_drop_bit_eq bit_take_bit_iff)+
qed

lemma memset_fills:
  "memset m dst c n = (\<lambda>x. if in_region dst (unat n) x then ucast c else m x)"
proof -
  have n: "unat n \<le> 2 ^ 64"
    using unat_lt [of n] by simp
  show ?thesis
  proof (cases "dst mod 4 = 0 \<and> n mod 4 = 0")
    case True
    then have "unat n mod 4 = 0"
      by (simp add: word_unat_eq_iff unat_mod)
    then have "4 * unat (n div 4) = unat n"
      by (simp add: unat_div mult.commute flip: dvd_eq_mod_eq_0)
    moreover have "memset m dst c n = stosb m dst (ucast c) (4 * unat (n div 4))"
      unfolding memset_def Let_def
      by (rule trans [OF if_P [OF True] stosl_stosb [OF quad_bytes]])
    ultimately show ?thesis using n by (simp add: stosb_fills)
  next
    case False
    have "memset m dst c n = stosb m dst (ucast c) (unat n)"
      unfolding memset_def by (rule if_not_P [OF False])
    then show ?thesis using n by (simp add: stosb_fills)
  qed
qed

text \<open>C11: \<^verbatim>\<open>memset\<close> stores the low byte of \<open>c\<close> at every address of the \<open>n\<close> bytes from \<open>dst\<close> and
  nowhere else, on the word-wise path as on the byte-wise one.\<close>

theorem memset_correct:
  "memset m dst c n = (\<lambda>x. if in_region dst (unat n) x then ucast c else m x)"
  by (rule memset_fills)

section \<open>Copying memory\<close>

text \<open>What a copy of \<open>n\<close> bytes promises: the destination holds what the source held before.\<close>

definition copied :: "mem \<Rightarrow> ulong \<Rightarrow> ulong \<Rightarrow> nat \<Rightarrow> mem" where
  "copied m d s n = (\<lambda>x. if in_region d n x then m (s + (x - d)) else m x)"

lemma copied_0 [simp]: "copied m d s 0 = m"
  by (simp add: copied_def)

text \<open>A forward copy is right unless the destination starts inside the source's tail.\<close>

lemma copy_fwd_copied:
  assumes "n \<le> 2 ^ 64" and "d = s \<or> n \<le> unat (d - s)"
  shows "copy_fwd m d s n = copied m d s n"
  using assms
proof (induction n arbitrary: m d s)
  case 0
  then show ?case by simp
next
  case (Suc n)
  let ?m = "m(d := m s)"
  have n: "n < 2 ^ 64" "n \<le> 2 ^ 64" using Suc.prems by simp_all
  have gap: "(d + 1) - (s + 1) = d - s" by simp
  have "copy_fwd ?m (d + 1) (s + 1) n = copied ?m (d + 1) (s + 1) n"
    using Suc.prems n by (intro Suc.IH) (auto simp: gap)
  moreover have "copied ?m (d + 1) (s + 1) n x = copied m d s (Suc n) x" for x
  proof (cases "in_region (d + 1) n x")
    case True
    have "x \<noteq> d" using True in_region_start [OF n(1)] by auto
    have idx: "s + 1 + (x - (d + 1)) = s + (x - d)" by simp
    have "in_region d (Suc n) x" using True by (simp add: in_region_Suc [OF n(1)])
    then have lt: "unat (x - d) < Suc n" by (simp add: in_region_def)
    have "s + (x - d) \<noteq> d"
    proof
      assume "s + (x - d) = d"
      then have "x - d = d - s" by (simp add: algebra_simps)
      with lt Suc.prems(2) have "d = s" by auto
      with \<open>s + (x - d) = d\<close> \<open>x \<noteq> d\<close> show False by simp
    qed
    with True \<open>in_region d (Suc n) x\<close> show ?thesis
      by (simp add: copied_def idx)
  next
    case False
    then show ?thesis by (auto simp: copied_def in_region_Suc [OF n(1)])
  qed
  ultimately show ?case by (simp add: fun_eq_iff)
qed

text \<open>A backward copy, given by the regions' ends, is right unless the source starts inside the
  destination's tail.\<close>

lemma copy_bwd_copied:
  assumes "n \<le> 2 ^ 64" and "d = s \<or> n \<le> unat (s - d)"
  shows "copy_bwd m (d + of_nat n) (s + of_nat n) n = copied m d s n"
  using assms
proof (induction n arbitrary: m)
  case 0
  then show ?case by simp
next
  case (Suc n)
  have n: "n < 2 ^ 64" "n \<le> 2 ^ 64" using Suc.prems by simp_all
  have un: "unat (of_nat n :: ulong) = n"
    using n by (simp add: unat_of_nat)
  let ?e = "d + of_nat n" and ?f = "s + of_nat n"
  let ?m = "m(?e := m ?f)"
  have e: "d + of_nat (Suc n) - 1 = ?e" "s + of_nat (Suc n) - 1 = ?f" by simp_all
  have "copy_bwd m (d + of_nat (Suc n)) (s + of_nat (Suc n)) (Suc n) = copy_bwd ?m ?e ?f n"
    by (simp only: copy_bwd.simps e)
  also have "\<dots> = copied ?m d s n"
    using Suc.prems n by (intro Suc.IH) auto
  also have "\<dots> = copied m d s (Suc n)"
  proof
    fix x
    have last: "in_region d (Suc n) x \<longleftrightarrow> in_region d n x \<or> x = ?e"
    proof -
      have "x = ?e \<longleftrightarrow> unat (x - d) = n"
        using un by (metis add_diff_cancel_left' diff_add_cancel add.commute word_unat_eq_iff)
      then show ?thesis by (auto simp: in_region_def)
    qed
    show "copied ?m d s n x = copied m d s (Suc n) x"
    proof (cases "in_region d n x")
      case True
      have "s + (x - d) \<noteq> ?e"
      proof
        assume "s + (x - d) = ?e"
        then have "s - d = of_nat n - (x - d)" by (simp add: algebra_simps)
        moreover have "unat (of_nat n - (x - d) :: ulong) = n - unat (x - d)"
          using True un by (simp add: in_region_def unat_sub word_le_nat_alt)
        ultimately have "unat (s - d) = n - unat (x - d)" by (simp only:)
        with Suc.prems(2) have "d = s" by auto
        with \<open>s + (x - d) = ?e\<close> have "x = ?e" by simp
        with True un show False by (simp add: in_region_def)
      qed
      with True show ?thesis by (simp add: copied_def last)
    next
      case False
      then show ?thesis by (simp add: copied_def last)
    qed
  qed
  finally show ?case .
qed

text \<open>C12: \<^verbatim>\<open>memmove\<close> copies \<open>n\<close> bytes correctly whatever the overlap of source and destination: the
  destination ends up with the bytes the source held before the call, and no other byte changes.\<close>

theorem memmove_correct:
  assumes "unat src + unat n < 2 ^ 64"
  shows "memmove m dst src n = copied m dst src (unat n)"
proof -
  have n: "unat n < 2 ^ 32" using unat_lt [of n] by simp
  then have n64: "unat n \<le> 2 ^ 64" by simp
  have ucn: "unat (ucast n :: ulong) = unat n" by (rule unat_ucast_up) simp
  have cn: "(ucast n :: ulong) = of_nat (unat n)" by simp
  have sum: "unat (src + ucast n) = unat src + unat n"
    using assms ucn unat_add_no_wrap [of src "ucast n"] by simp
  show ?thesis
  proof (cases "src < dst \<and> dst < src + ucast n")
    case True
    then have lt: "unat src < unat dst" "unat dst < unat src + unat n"
      unfolding word_less_nat_alt sum by simp_all
    have "unat n \<le> unat (src - dst)"
      using unat_diff_wrap [OF lt(1)] lt(2) n by simp
    then have "copy_bwd m (dst + ucast n) (src + ucast n) (unat n) = copied m dst src (unat n)"
      unfolding cn by (intro copy_bwd_copied n64) simp
    then show ?thesis using True by (simp only: memmove_def if_True simp_thms)
  next
    case False
    have "dst = src \<or> unat n \<le> unat (dst - src)"
    proof (cases "unat src < unat dst")
      case True
      then have "unat src + unat n \<le> unat dst"
        using False unfolding word_less_nat_alt sum by simp
      then show ?thesis
        using unat_diff_le [of src dst] by linarith
    next
      case False
      then consider "unat dst = unat src" | "unat dst < unat src" by linarith
      then show ?thesis
      proof cases
        case 1
        then show ?thesis by (simp only: word_unat_eq_iff simp_thms)
      next
        case 2
        then have "unat (dst - src) = 2 ^ 64 + unat dst - unat src"
          using unat_diff_wrap [OF 2] by simp
        then show ?thesis using assms by linarith
      qed
    qed
    then have "copy_fwd m dst src (unat n) = copied m dst src (unat n)"
      by (intro copy_fwd_copied n64)
    then show ?thesis using False by (simp only: memmove_def if_False simp_thms)
  qed
qed

theorem memmove_correct_witness:
  "unat (16 :: ulong) + unat (8 :: uint) < 2 ^ 64 \<and>
   memmove (\<lambda>a. ucast a) 20 16 8 27 = (23 :: byte)"
  using memmove_correct [of 16 8 "\<lambda>a. ucast a" 20] by (simp add: copied_def in_region_def)

section \<open>Comparing and copying strings\<close>

text \<open>
  The length of a string in a field of \<open>n\<close> bytes: up to its NUL, or all \<open>n\<close> bytes. Directory entry
  names are such fields.
\<close>

fun cstr :: "nat \<Rightarrow> (nat \<Rightarrow> byte) \<Rightarrow> byte list" where
  "cstr 0 s = []"
| "cstr (Suc n) s = (if s 0 = 0 then [] else s 0 # cstr n (\<lambda>i. s (Suc i)))"

lemma length_cstr: "length (cstr n s) \<le> n"
  by (induction n s rule: cstr.induct) auto

lemma nul_notin_cstr: "0 \<notin> set (cstr n s)"
  by (induction n s rule: cstr.induct) auto

lemma uint_diff_eq_0: "Word.uint a - Word.uint (b :: byte) = 0 \<longleftrightarrow> a = b"
  by (simp add: word_uint_eq_iff)

text \<open>C13: \<^verbatim>\<open>strncmp\<close> returns 0 exactly when the two strings, cut at \<open>n\<close> bytes, are equal.\<close>

theorem strncmp_eq_0_iff: "strncmp p q n = 0 \<longleftrightarrow> cstr n p = cstr n q"
proof (induction p q n rule: strncmp.induct)
  case (1 p q)
  then show ?case by simp
next
  case (2 p q n)
  show ?case
  proof (cases "p 0 \<noteq> 0 \<and> p 0 = q 0")
    case True
    with 2 show ?thesis by simp
  next
    case False
    then show ?thesis
      by (auto simp only: strncmp.simps uint_diff_eq_0 if_False cstr.simps list.inject split: if_splits)
  qed
qed

lemma length_strncpy [simp]: "length (strncpy t n) = n"
  by (induction t n rule: strncpy.induct) auto

lemma cstr_replicate_0 [simp]: "cstr n (view_list (replicate k 0)) = []"
  by (cases n) (simp_all add: view_list_def)

lemma view_list_Cons: "view_list (x # xs) 0 = x" "(\<lambda>i. view_list (x # xs) (Suc i)) = view_list xs"
  by (auto simp: view_list_def fun_eq_iff)

text \<open>\<^verbatim>\<open>strncpy\<close> fills the whole field, and the field reads back as the string cut at \<open>n\<close> bytes.\<close>

lemma cstr_strncpy: "cstr n (view_list (strncpy t n)) = cstr n t"
proof (induction t n rule: strncpy.induct)
  case (1 t)
  then show ?case by simp
next
  case (2 t n)
  show ?case
  proof (cases "t 0 = 0")
    case True
    then show ?thesis by (simp add: view_list_Cons)
  next
    case False
    with 2 show ?thesis by (simp add: view_list_Cons)
  qed
qed

lemma safestrcpy_loop_bounds:
  "length (safestrcpy_loop t n) \<le> Suc n \<and> last (safestrcpy_loop t n) = 0 \<and> safestrcpy_loop t n \<noteq> []"
  by (induction t n rule: safestrcpy_loop.induct) auto

lemma cstr_safestrcpy_loop:
  "n \<le> k \<Longrightarrow> cstr (Suc k) (view_list (safestrcpy_loop t n)) = cstr n t"
proof (induction t n arbitrary: k rule: safestrcpy_loop.induct)
  case (1 t)
  then show ?case by (simp add: view_list_Cons)
next
  case (2 t n)
  then obtain k' where k: "k = Suc k'" "n \<le> k'" by (cases k) auto
  show ?case
  proof (cases "t 0 = 0")
    case True
    then show ?thesis by (simp add: view_list_Cons)
  next
    case False
    with 2 k show ?thesis by (simp add: view_list_Cons)
  qed
qed

text \<open>C14: \<^verbatim>\<open>safestrcpy\<close> never writes past the \<open>n\<close> bytes of the destination, always leaves it
  NUL-terminated, and copies the string cut at \<open>n - 1\<close> bytes.\<close>

theorem safestrcpy_correct:
  assumes "0 < n"
  shows "length (safestrcpy t n) \<le> nat n \<and> last (safestrcpy t n) = 0 \<and>
    cstr (nat n) (view_list (safestrcpy t n)) = cstr (nat (n - 1)) t"
proof -
  obtain k where k: "n = int (Suc k)"
    using assms by (metis Suc_pred zero_less_nat_eq int_nat_eq nat_eq_iff2 not_less_iff_gr_or_eq)
  then have "nat n = Suc k" "nat (n - 1) = k" by simp_all
  then show ?thesis
    using assms safestrcpy_loop_bounds [of t k] cstr_safestrcpy_loop [of k k t]
    unfolding safestrcpy_def by simp
qed

theorem safestrcpy_correct_witness:
  "safestrcpy (view_list [104, 105]) 16 = [104, 105, 0, 0] \<and> last (safestrcpy (view_list [104, 105]) 16) = 0"
proof
  show "safestrcpy (view_list [104, 105]) 16 = [104, 105, 0, 0]" by code_simp
  show "last (safestrcpy (view_list [104, 105]) 16) = 0"
    using safestrcpy_correct [of 16 "view_list [104, 105]"] by simp
qed

lemma strlen_from_Some:
  assumes "s k = 0" and "\<And>i. n \<le> i \<Longrightarrow> i < k \<Longrightarrow> s i \<noteq> 0" and "n \<le> k"
  shows "strlen_from s n = Some k"
  using assms(3) assms(1,2)
proof (induction "k - n" arbitrary: n)
  case 0
  then show ?case by (simp add: strlen_from.simps)
next
  case (Suc d)
  then have "s n \<noteq> 0" "n < k" by auto
  moreover have "strlen_from s (Suc n) = Some k"
    using Suc \<open>n < k\<close> by (intro Suc.hyps(1)) auto
  ultimately show ?case by (simp add: strlen_from.simps [of s n])
qed

lemma strlen_Some: "s k = 0 \<Longrightarrow> (\<And>i. i < k \<Longrightarrow> s i \<noteq> 0) \<Longrightarrow> strlen s = Some k"
  unfolding strlen_def by (rule strlen_from_Some) auto

section \<open>Words in memory\<close>

text \<open>The 64-bit loads and stores the compiler makes of \<^verbatim>\<open>*p\<close> and \<^verbatim>\<open>*p = v\<close> on a
  \<^verbatim>\<open>ulong *\<close> (or pointer to pointer).\<close>

definition load64 :: "mem \<Rightarrow> ulong \<Rightarrow> ulong" where
  "load64 m a = le_word (map (\<lambda>i. m (a + of_nat i)) [0..<8])"

definition store64 :: "mem \<Rightarrow> ulong \<Rightarrow> ulong \<Rightarrow> mem" where
  "store64 m a v = (\<lambda>x. if in_region a 8 x then le_bytes 8 v ! unat (x - a) else m x)"

lemma load64_cong: "(\<And>x. in_region a 8 x \<Longrightarrow> m x = m' x) \<Longrightarrow> load64 m a = load64 m' a"
proof -
  assume eq: "\<And>x. in_region a 8 x \<Longrightarrow> m x = m' x"
  have "m (a + of_nat i) = m' (a + of_nat i)" if "i < 8" for i
    using that by (intro eq) (simp add: in_region_def unat_of_nat)
  then have "map (\<lambda>i. m (a + of_nat i)) [0..<8] = map (\<lambda>i. m' (a + of_nat i)) [0..<8]"
    by (intro map_cong) simp_all
  then show ?thesis by (simp only: load64_def)
qed

lemma load64_store64_same [simp]: "load64 (store64 m a v) a = v"
proof -
  have "store64 m a v (a + of_nat i) = le_bytes 8 v ! i" if "i < 8" for i
    using that by (simp add: store64_def in_region_def unat_of_nat)
  then have "map (\<lambda>i. store64 m a v (a + of_nat i)) [0..<8] = le_bytes 8 v"
    by (intro nth_equalityI) simp_all
  then show ?thesis by (simp only: load64_def) (simp add: le_word_le_bytes)
qed

lemma load64_store64_other:
  assumes "\<And>x. in_region b 8 x \<Longrightarrow> \<not> in_region a 8 x"
  shows "load64 (store64 m a v) b = load64 m b"
  by (rule load64_cong) (use assms in \<open>simp add: store64_def\<close>)

end
