(* ===== verification/Spinlock.thy ===== *)
theory Spinlock
  imports Xv6_Prelude Cstring
begin

text \<open>
  \<^verbatim>\<open>kernel/spinlock.c\<close> and \<^verbatim>\<open>mycpu\<close> of \<^verbatim>\<open>kernel/proc.c\<close>. The first half models the machine:
  several CPUs with their interrupt flags and nesting counts, the locks as memory words exchanged
  atomically, and a step relation in which the CPUs interleave between the memory accesses of
  \<^verbatim>\<open>acquire\<close> and \<^verbatim>\<open>release\<close>. The second half gives the view the rest of the kernel has of its
  locks: the set of the locks the running CPU holds.
\<close>

section \<open>Machine state\<close>

record cpu =
  apicid :: uchar
  ncli :: int
  intena :: bool
  rflags_IF :: bool

record spinlock =
  locked :: uint
  lk_cpu :: "nat option"

text \<open>\<open>lapic c\<close> is the id the local APIC of the CPU \<open>c\<close> answers \<^verbatim>\<open>lapicid()\<close> with.\<close>

record smp =
  cpus :: "nat \<Rightarrow> cpu"
  ncpu :: nat
  locks :: "string \<Rightarrow> spinlock"
  lapic :: "nat \<Rightarrow> uchar"

definition upd_cpu :: "nat \<Rightarrow> (cpu \<Rightarrow> cpu) \<Rightarrow> smp \<Rightarrow> smp" where
  "upd_cpu c f s = s\<lparr>cpus := (cpus s)(c := f (cpus s c))\<rparr>"

definition upd_lock :: "string \<Rightarrow> (spinlock \<Rightarrow> spinlock) \<Rightarrow> smp \<Rightarrow> smp" where
  "upd_lock l f s = s\<lparr>locks := (locks s)(l := f (locks s l))\<rparr>"

section \<open>Operations\<close>

definition smp_initlock :: "string \<Rightarrow> (smp, unit) kop" where
  "smp_initlock l = modify (upd_lock l (\<lambda>_. \<lparr>locked = 0, lk_cpu = None\<rparr>))"

definition mycpu :: "nat \<Rightarrow> (smp, nat) kop" where
  "mycpu c =
     bind (gets (\<lambda>s. rflags_IF (cpus s c))) (\<lambda>i.
     if i then panic (''mycpu called with interrupts enabled'' @ [CHR 0x0A])
     else bind (gets (\<lambda>s. find (\<lambda>i. apicid (cpus s i) = lapic s c) [0..<ncpu s])) (\<lambda>r.
          case r of Some i \<Rightarrow> ret i | None \<Rightarrow> panic (''unknown apicid'' @ [CHR 0x0A])))"

definition pushcli :: "nat \<Rightarrow> (smp, unit) kop" where
  "pushcli c =
     bind (gets (\<lambda>s. rflags_IF (cpus s c))) (\<lambda>rflags.
     andthen (modify (upd_cpu c (\<lambda>x. x\<lparr>rflags_IF := False\<rparr>)))
       (bind (mycpu c) (\<lambda>k.
        bind (gets (\<lambda>s. ncli (cpus s k))) (\<lambda>n.
        andthen (whenK (n = 0) (modify (upd_cpu k (\<lambda>x. x\<lparr>intena := rflags\<rparr>))))
                (modify (upd_cpu k (\<lambda>x. x\<lparr>ncli := ncli x + 1\<rparr>)))))))"

definition popcli :: "nat \<Rightarrow> (smp, unit) kop" where
  "popcli c =
     bind (gets (\<lambda>s. rflags_IF (cpus s c))) (\<lambda>rflags.
     if rflags then panic ''popcli - interruptible''
     else bind (mycpu c) (\<lambda>k.
       andthen (modify (upd_cpu k (\<lambda>x. x\<lparr>ncli := ncli x - 1\<rparr>)))
         (bind (gets (\<lambda>s. ncli (cpus s k))) (\<lambda>n.
          if n < 0 then panic ''popcli''
          else bind (gets (\<lambda>s. intena (cpus s k))) (\<lambda>e.
            whenK (n = 0 \<and> e) (modify (upd_cpu c (\<lambda>x. x\<lparr>rflags_IF := True\<rparr>))))))))"

definition holding :: "nat \<Rightarrow> string \<Rightarrow> (smp, bool) kop" where
  "holding c l =
     andthen (pushcli c)
       (bind (mycpu c) (\<lambda>k.
        bind (gets (\<lambda>s. locked (locks s l) \<noteq> 0 \<and> lk_cpu (locks s l) = Some k)) (\<lambda>r.
        andthen (popcli c) (ret r))))"

text \<open>\<^verbatim>\<open>lock; xchgl\<close>: one indivisible step that stores the new value and returns the old one.\<close>

definition xchg :: "string \<Rightarrow> uint \<Rightarrow> (smp, uint) kop" where
  "xchg l v = bind (gets (\<lambda>s. locked (locks s l))) (\<lambda>old.
     andthen (modify (upd_lock l (\<lambda>x. x\<lparr>locked := v\<rparr>))) (ret old))"

text \<open>\<^verbatim>\<open>acquire\<close> and \<^verbatim>\<open>release\<close>, cut at their accesses to the shared words.\<close>

definition acquire_enter :: "nat \<Rightarrow> string \<Rightarrow> (smp, unit) kop" where
  "acquire_enter c l =
     andthen (pushcli c) (bind (holding c l) (\<lambda>h. if h then panic ''acquire'' else skip))"

definition acquire_mark :: "nat \<Rightarrow> string \<Rightarrow> (smp, unit) kop" where
  "acquire_mark c l = bind (mycpu c) (\<lambda>k. modify (upd_lock l (\<lambda>x. x\<lparr>lk_cpu := Some k\<rparr>)))"

definition release_clear :: "nat \<Rightarrow> string \<Rightarrow> (smp, unit) kop" where
  "release_clear c l =
     bind (holding c l) (\<lambda>h.
     if \<not> h then panic ''release'' else modify (upd_lock l (\<lambda>x. x\<lparr>lk_cpu := None\<rparr>)))"

definition release_store :: "string \<Rightarrow> (smp, unit) kop" where
  "release_store l = modify (upd_lock l (\<lambda>x. x\<lparr>locked := 0\<rparr>))"

text \<open>
  The whole calls, run by one CPU while the others stand still: an \<^verbatim>\<open>xchg\<close> that finds the lock
  taken then spins forever.
\<close>

definition smp_acquire :: "nat \<Rightarrow> string \<Rightarrow> (smp, unit) kop" where
  "smp_acquire c l =
     andthen (acquire_enter c l)
       (bind (xchg l 1) (\<lambda>old. if old \<noteq> 0 then fail Diverge else acquire_mark c l))"

definition smp_release :: "nat \<Rightarrow> string \<Rightarrow> (smp, unit) kop" where
  "smp_release c l = andthen (release_clear c l) (andthen (release_store l) (popcli c))"

text \<open>
  \<^verbatim>\<open>getcallerpcs\<close> follows the chain of saved frame pointers, at most ten of them, while they stay
  in the kernel's half of the address space; the rest of the array is cleared.
\<close>

fun getcallerpcs_loop :: "mem \<Rightarrow> ulong \<Rightarrow> nat \<Rightarrow> ulong list" where
  "getcallerpcs_loop m rbp 0 = []"
| "getcallerpcs_loop m rbp (Suc n) =
     (if rbp = 0 \<or> rbp < 0xffff800000000000 \<or> rbp = - 1 then []
      else load64 m (rbp + 8) # getcallerpcs_loop m (load64 m rbp) n)"

definition getcallerpcs :: "mem \<Rightarrow> ulong \<Rightarrow> ulong list" where
  "getcallerpcs m rbp =
     (let pcs = getcallerpcs_loop m (load64 m rbp) 10 in pcs @ replicate (10 - length pcs) 0)"

lemma length_getcallerpcs: "length (getcallerpcs m rbp) = 10"
proof -
  have "length (getcallerpcs_loop m r n) \<le> n" for r n
    by (induction n arbitrary: r) simp_all
  then show ?thesis by (simp add: getcallerpcs_def Let_def)
qed

section \<open>One CPU at a time\<close>

text \<open>The APIC ids name the CPUs uniquely, as the MP tables report them.\<close>

definition apic_ok :: "smp \<Rightarrow> bool" where
  "apic_ok s \<longleftrightarrow> (\<forall>c < ncpu s. lapic s c = apicid (cpus s c)) \<and>
     inj_on (\<lambda>i. apicid (cpus s i)) {..<ncpu s}"

lemma mycpu_eq:
  assumes "apic_ok s" "c < ncpu s" "\<not> rflags_IF (cpus s c)"
  shows "mycpu c s = Inr (c, s)"
proof -
  have "apicid (cpus s i) \<noteq> lapic s c" if "i < c" for i
    using that assms(1,2) unfolding apic_ok_def inj_on_def
    by (metis lessThan_iff less_trans less_irrefl)
  then have "find (\<lambda>i. apicid (cpus s i) = lapic s c) [0..<ncpu s] = Some c"
    using assms(1,2) unfolding find_Some_iff apic_ok_def by (intro exI [of _ c]) simp
  then show ?thesis using assms(3) by (simp add: mycpu_def kop_defs)
qed

lemma apic_ok_upd_cpu [simp]:
  assumes "\<And>x. apicid (f x) = apicid x"
  shows "apic_ok (upd_cpu c f s) = apic_ok s"
proof -
  have "apicid (((cpus s)(c := f (cpus s c))) i) = apicid (cpus s i)" for i
    by (simp add: assms)
  then show ?thesis by (simp add: apic_ok_def upd_cpu_def del: fun_upd_apply)
qed

lemma apic_ok_upd_lock [simp]: "apic_ok (upd_lock l f s) = apic_ok s"
  by (simp add: apic_ok_def upd_lock_def)

lemma upd_cpu_simps [simp]:
  "cpus (upd_cpu c f s) = (cpus s)(c := f (cpus s c))" "ncpu (upd_cpu c f s) = ncpu s"
  "locks (upd_cpu c f s) = locks s" "upd_cpu c f (upd_cpu c g s) = upd_cpu c (\<lambda>x. f (g x)) s"
  by (simp_all add: upd_cpu_def)

lemma upd_lock_simps [simp]:
  "cpus (upd_lock l f s) = cpus s" "ncpu (upd_lock l f s) = ncpu s"
  "locks (upd_lock l f s) = (locks s)(l := f (locks s l))"
  by (simp_all add: upd_lock_def)

text \<open>What the nesting of \<^verbatim>\<open>cli\<close> does to a CPU.\<close>

definition push_cli :: "cpu \<Rightarrow> cpu" where
  "push_cli x = x\<lparr>rflags_IF := False, intena := (if ncli x = 0 then rflags_IF x else intena x),
     ncli := ncli x + 1\<rparr>"

definition pop_cli :: "cpu \<Rightarrow> cpu" where
  "pop_cli x = (if ncli x = 1 \<and> intena x then x\<lparr>ncli := ncli x - 1, rflags_IF := True\<rparr>
     else x\<lparr>ncli := ncli x - 1\<rparr>)"

lemma push_pop_apicid [simp]: "apicid (push_cli x) = apicid x" "apicid (pop_cli x) = apicid x"
  by (simp_all add: push_cli_def pop_cli_def)

lemma pushcli_eq:
  assumes "apic_ok s" "c < ncpu s"
  shows "pushcli c s = Inr ((), upd_cpu c push_cli s)"
proof -
  let ?t = "upd_cpu c (\<lambda>x. x\<lparr>rflags_IF := False\<rparr>) s"
  have "mycpu c ?t = Inr (c, ?t)" using assms by (intro mycpu_eq) simp_all
  then show ?thesis by (simp add: pushcli_def kop_defs push_cli_def [abs_def] upd_cpu_def)
qed

lemma popcli_eq:
  assumes "apic_ok s" "c < ncpu s" "\<not> rflags_IF (cpus s c)" "0 < ncli (cpus s c)"
  shows "popcli c s = Inr ((), upd_cpu c pop_cli s)"
  using assms mycpu_eq [OF assms(1-3)]
  by (simp add: popcli_def kop_defs pop_cli_def [abs_def] upd_cpu_def)

lemma pop_push_cli: "0 < ncli x \<Longrightarrow> \<not> rflags_IF x \<Longrightarrow> pop_cli (push_cli x) = x"
  by (simp add: push_cli_def pop_cli_def)

lemma upd_cpu_same: "f (cpus s c) = cpus s c \<Longrightarrow> upd_cpu c f s = s"
  by (simp add: upd_cpu_def)

text \<open>A CPU that has interrupts off and one \<^verbatim>\<open>cli\<close> pending: \<^verbatim>\<open>holding\<close> only looks.\<close>

lemma holding_eq:
  assumes "apic_ok s" "c < ncpu s" "\<not> rflags_IF (cpus s c)" "0 < ncli (cpus s c)"
  shows "holding c l s = Inr (locked (locks s l) \<noteq> 0 \<and> lk_cpu (locks s l) = Some c, s)"
proof -
  let ?t = "upd_cpu c push_cli s"
  have t: "apic_ok ?t" "c < ncpu ?t" "\<not> rflags_IF (cpus ?t c)" "0 < ncli (cpus ?t c)"
    using assms by (simp_all add: push_cli_def)
  have "upd_cpu c (\<lambda>x. pop_cli (push_cli x)) s = s"
    using assms by (intro upd_cpu_same pop_push_cli)
  then show ?thesis
    using mycpu_eq [OF t(1-3)] popcli_eq [OF t]
    by (simp add: holding_def kop_defs pushcli_eq [OF assms(1,2)])
qed

text \<open>With no \<^verbatim>\<open>cli\<close> pending, \<^verbatim>\<open>holding\<close> puts the interrupt flag back.\<close>

lemma holding_ret:
  assumes "apic_ok s" "c < ncpu s" "0 \<le> ncli (cpus s c)"
    "0 < ncli (cpus s c) \<Longrightarrow> \<not> rflags_IF (cpus s c)"
  shows "\<exists>t. holding c l s = Inr (locked (locks s l) \<noteq> 0 \<and> lk_cpu (locks s l) = Some c, t)"
proof (cases "ncli (cpus s c) = 0")
  case True
  let ?t = "upd_cpu c push_cli s"
  have t: "apic_ok ?t" "c < ncpu ?t" "\<not> rflags_IF (cpus ?t c)" "0 < ncli (cpus ?t c)"
    using assms True by (simp_all add: push_cli_def)
  show ?thesis
    using mycpu_eq [OF t(1-3)] popcli_eq [OF t]
    by (simp add: holding_def kop_defs pushcli_eq [OF assms(1,2)])
next
  case False
  with assms holding_eq [of s c l] show ?thesis by auto
qed

lemma acquire_enter_eq:
  assumes "apic_ok s" "c < ncpu s" "0 \<le> ncli (cpus s c)"
  shows "acquire_enter c l s =
    (if locked (locks s l) \<noteq> 0 \<and> lk_cpu (locks s l) = Some c then Inl (Panic ''acquire'')
     else Inr ((), upd_cpu c push_cli s))"
proof -
  let ?t = "upd_cpu c push_cli s"
  have "holding c l ?t = Inr (locked (locks ?t l) \<noteq> 0 \<and> lk_cpu (locks ?t l) = Some c, ?t)"
    using assms by (intro holding_eq) (simp_all add: push_cli_def)
  then show ?thesis by (simp add: acquire_enter_def kop_defs pushcli_eq [OF assms(1,2)])
qed

lemma xchg_eq: "xchg l v s = Inr (locked (locks s l), upd_lock l (\<lambda>x. x\<lparr>locked := v\<rparr>) s)"
  by (simp add: xchg_def kop_defs)

section \<open>CPUs interleaving\<close>

text \<open>
  Where a CPU stands: outside \<^verbatim>\<open>acquire\<close> and \<^verbatim>\<open>release\<close>, spinning on a lock, having just taken
  the word of a lock, about to store 0 into it, or about to undo its \<^verbatim>\<open>cli\<close>.
\<close>

datatype pc = Run | Spin string | Taken string | Storing string | Exiting

text \<open>
  \<open>owned c\<close> are the locks the program on CPU \<open>c\<close> has acquired and not begun to release; \<open>ifl c\<close> is
  the interrupt flag it runs with when it holds no lock. Both only observe the machine.
\<close>

record sys =
  mach :: smp
  pc :: "nat \<Rightarrow> pc"
  owned :: "nat \<Rightarrow> string set"
  ifl :: "nat \<Rightarrow> bool"

inductive cpu_step :: "sys \<Rightarrow> sys \<Rightarrow> bool" where
  enter: "c < ncpu (mach x) \<Longrightarrow> pc x c = Run \<Longrightarrow> acquire_enter c l (mach x) = Inr ((), m) \<Longrightarrow>
     cpu_step x (x\<lparr>mach := m, pc := (pc x)(c := Spin l)\<rparr>)"
| spin: "c < ncpu (mach x) \<Longrightarrow> pc x c = Spin l \<Longrightarrow> xchg l 1 (mach x) = Inr (old, m) \<Longrightarrow> old \<noteq> 0 \<Longrightarrow>
     cpu_step x (x\<lparr>mach := m\<rparr>)"
| take: "c < ncpu (mach x) \<Longrightarrow> pc x c = Spin l \<Longrightarrow> xchg l 1 (mach x) = Inr (0, m) \<Longrightarrow>
     cpu_step x (x\<lparr>mach := m, pc := (pc x)(c := Taken l)\<rparr>)"
| mark: "c < ncpu (mach x) \<Longrightarrow> pc x c = Taken l \<Longrightarrow> acquire_mark c l (mach x) = Inr ((), m) \<Longrightarrow>
     cpu_step x (x\<lparr>mach := m, pc := (pc x)(c := Run), owned := (owned x)(c := insert l (owned x c))\<rparr>)"
| clear: "c < ncpu (mach x) \<Longrightarrow> pc x c = Run \<Longrightarrow> release_clear c l (mach x) = Inr ((), m) \<Longrightarrow>
     cpu_step x (x\<lparr>mach := m, pc := (pc x)(c := Storing l), owned := (owned x)(c := owned x c - {l})\<rparr>)"
| store: "c < ncpu (mach x) \<Longrightarrow> pc x c = Storing l \<Longrightarrow> release_store l (mach x) = Inr ((), m) \<Longrightarrow>
     cpu_step x (x\<lparr>mach := m, pc := (pc x)(c := Exiting)\<rparr>)"
| exit: "c < ncpu (mach x) \<Longrightarrow> pc x c = Exiting \<Longrightarrow> popcli c (mach x) = Inr ((), m) \<Longrightarrow>
     cpu_step x (x\<lparr>mach := m, pc := (pc x)(c := Run)\<rparr>)"
| sticli: "c < ncpu (mach x) \<Longrightarrow> pc x c = Run \<Longrightarrow> ncli (cpus (mach x) c) = 0 \<Longrightarrow>
     cpu_step x (x\<lparr>mach := upd_cpu c (\<lambda>k. k\<lparr>rflags_IF := b\<rparr>) (mach x), ifl := (ifl x)(c := b)\<rparr>)"

text \<open>The machine at boot: no lock taken, no \<^verbatim>\<open>cli\<close> pending.\<close>

definition sys_init :: "sys \<Rightarrow> bool" where
  "sys_init x \<longleftrightarrow> apic_ok (mach x) \<and>
     (\<forall>l. locked (locks (mach x) l) = 0 \<and> lk_cpu (locks (mach x) l) = None) \<and>
     (\<forall>c. pc x c = Run \<and> owned x c = {} \<and> ncli (cpus (mach x) c) = 0 \<and>
          rflags_IF (cpus (mach x) c) = ifl x c)"

inductive cpu_reachable :: "sys \<Rightarrow> bool" where
  init: "sys_init x \<Longrightarrow> cpu_reachable x"
| step: "cpu_reachable x \<Longrightarrow> cpu_step x y \<Longrightarrow> cpu_reachable y"

text \<open>The CPU has the lock's word: it took it with an \<^verbatim>\<open>xchg\<close> and has not stored 0 since.\<close>

definition has_word :: "sys \<Rightarrow> nat \<Rightarrow> string \<Rightarrow> bool" where
  "has_word x c l \<longleftrightarrow> l \<in> owned x c \<or> pc x c = Taken l \<or> pc x c = Storing l"

definition cpu_inv :: "sys \<Rightarrow> nat \<Rightarrow> bool" where
  "cpu_inv x c \<longleftrightarrow> finite (owned x c) \<and>
     ncli (cpus (mach x) c) = int (card (owned x c)) + (if pc x c = Run then 0 else 1) \<and>
     (if ncli (cpus (mach x) c) = 0 then rflags_IF (cpus (mach x) c) = ifl x c
      else \<not> rflags_IF (cpus (mach x) c) \<and> intena (cpus (mach x) c) = ifl x c)"

definition lock_inv :: "sys \<Rightarrow> string \<Rightarrow> bool" where
  "lock_inv x l \<longleftrightarrow>
     (locked (locks (mach x) l) \<noteq> 0 \<longleftrightarrow> (\<exists>c. has_word x c l)) \<and>
     (\<forall>c d. has_word x c l \<longrightarrow> has_word x d l \<longrightarrow> c = d) \<and>
     (\<forall>c. lk_cpu (locks (mach x) l) = Some c \<longleftrightarrow> l \<in> owned x c) \<and>
     (\<forall>c. pc x c = Taken l \<or> pc x c = Storing l \<longrightarrow> l \<notin> owned x c)"

definition sys_inv :: "sys \<Rightarrow> bool" where
  "sys_inv x \<longleftrightarrow> apic_ok (mach x) \<and> (\<forall>c. cpu_inv x c) \<and> (\<forall>l. lock_inv x l)"

lemma sys_init_inv: "sys_init x \<Longrightarrow> sys_inv x"
  by (simp add: sys_init_def sys_inv_def cpu_inv_def lock_inv_def has_word_def)

text \<open>The operations a CPU performs, under the invariant.\<close>

lemma cpu_inv_nonneg: "cpu_inv x c \<Longrightarrow> 0 \<le> ncli (cpus (mach x) c)"
  by (simp add: cpu_inv_def)

lemma cpu_inv_busy:
  assumes "cpu_inv x c" and "pc x c \<noteq> Run \<or> owned x c \<noteq> {}"
  shows "0 < ncli (cpus (mach x) c)" and "\<not> rflags_IF (cpus (mach x) c)"
proof -
  show "0 < ncli (cpus (mach x) c)" using assms by (auto simp: cpu_inv_def card_gt_0_iff)
  then show "\<not> rflags_IF (cpus (mach x) c)" using assms(1) by (simp add: cpu_inv_def)
qed

lemma lock_inv_holding:
  "lock_inv x l \<Longrightarrow> (locked (locks (mach x) l) \<noteq> 0 \<and> lk_cpu (locks (mach x) l) = Some c) = (l \<in> owned x c)"
  by (auto simp: lock_inv_def has_word_def)

lemma inv_acquire_enter:
  assumes "sys_inv x" "c < ncpu (mach x)"
  shows "acquire_enter c l (mach x) =
    (if l \<in> owned x c then Inl (Panic ''acquire'') else Inr ((), upd_cpu c push_cli (mach x)))"
  using assms acquire_enter_eq [of "mach x" c l] lock_inv_holding [of x l c] cpu_inv_nonneg [of x c]
  by (simp add: sys_inv_def)

lemma inv_release_clear:
  assumes "sys_inv x" "c < ncpu (mach x)" "l \<in> owned x c"
  shows "release_clear c l (mach x) = Inr ((), upd_lock l (\<lambda>k. k\<lparr>lk_cpu := None\<rparr>) (mach x))"
proof -
  have h: "holding c l (mach x) = Inr (l \<in> owned x c, mach x)"
    using assms holding_eq [of "mach x" c l] cpu_inv_busy [of x c] lock_inv_holding [of x l c]
    by (auto simp: sys_inv_def)
  with assms(3) show ?thesis by (simp add: release_clear_def kop_defs)
qed

lemma inv_release_clear_panic:
  assumes "sys_inv x" "c < ncpu (mach x)" "l \<notin> owned x c"
  shows "release_clear c l (mach x) = Inl (Panic ''release'')"
proof -
  have c: "cpu_inv x c" "lock_inv x l" "apic_ok (mach x)" using assms(1) by (auto simp: sys_inv_def)
  then have "\<exists>t. holding c l (mach x) = Inr (l \<in> owned x c, t)"
    unfolding lock_inv_holding [OF c(2), symmetric]
    using assms(2) by (intro holding_ret cpu_inv_nonneg) (auto simp: cpu_inv_def)
  with assms(3) show ?thesis by (auto simp: release_clear_def kop_defs)
qed

text \<open>Every step keeps the invariant.\<close>

lemma sys_invI: "apic_ok (mach x) \<Longrightarrow> (\<And>k. cpu_inv x k) \<Longrightarrow> (\<And>l. lock_inv x l) \<Longrightarrow> sys_inv x"
  by (simp add: sys_inv_def)

lemma sys_invD: "sys_inv x \<Longrightarrow> apic_ok (mach x)" "sys_inv x \<Longrightarrow> cpu_inv x k" "sys_inv x \<Longrightarrow> lock_inv x l"
  by (simp_all add: sys_inv_def)

lemma lock_inv_frame:
  assumes "lock_inv x l" and "locks (mach y) l = locks (mach x) l"
    and "\<And>c. (l \<in> owned y c) = (l \<in> owned x c)"
    and "\<And>c. (pc y c = Taken l) = (pc x c = Taken l)" "\<And>c. (pc y c = Storing l) = (pc x c = Storing l)"
  shows "lock_inv y l"
  using assms by (simp add: lock_inv_def has_word_def)

lemma inv_enter:
  assumes "sys_inv x" "c < ncpu (mach x)" "pc x c = Run" "acquire_enter c l (mach x) = Inr ((), m)"
  shows "sys_inv (x\<lparr>mach := m, pc := (pc x)(c := Spin l)\<rparr>)" (is "sys_inv ?y")
proof (rule sys_invI)
  note inv = sys_invD [OF assms(1)]
  have m: "m = upd_cpu c push_cli (mach x)"
    using assms inv_acquire_enter [of x c l] by (auto split: if_splits)
  show "apic_ok (mach ?y)" using inv(1) by (simp add: m)
  show "cpu_inv ?y k" for k
    using inv(2) [of k] assms(3) by (auto simp: cpu_inv_def m push_cli_def split: if_splits)
  show "lock_inv ?y j" for j
    using assms(3) by (intro lock_inv_frame [OF inv(3)]) (auto simp: m)
qed

lemma inv_take:
  assumes "sys_inv x" "c < ncpu (mach x)" "pc x c = Spin l" "xchg l 1 (mach x) = Inr (0, m)"
  shows "sys_inv (x\<lparr>mach := m, pc := (pc x)(c := Taken l)\<rparr>)" (is "sys_inv ?y")
proof (rule sys_invI)
  note inv = sys_invD [OF assms(1)]
  have m: "m = upd_lock l (\<lambda>k. k\<lparr>locked := 1\<rparr>) (mach x)" and free: "locked (locks (mach x) l) = 0"
    using assms(4) by (simp_all add: xchg_eq)
  have none: "\<not> has_word x k l" for k
    using inv(3) [of l] free by (auto simp: lock_inv_def)
  show "apic_ok (mach ?y)" using inv(1) by (simp add: m)
  show "cpu_inv ?y k" for k
    using inv(2) [of k] assms(3) by (auto simp: cpu_inv_def m)
  show "lock_inv ?y j" for j
  proof (cases "j = l")
    case True
    with inv(3) [of l] none show ?thesis by (auto simp: lock_inv_def has_word_def m)
  next
    case False
    with assms(3) show ?thesis by (intro lock_inv_frame [OF inv(3)]) (auto simp: m)
  qed
qed

lemma inv_spin:
  assumes "sys_inv x" "xchg l 1 (mach x) = Inr (old, m)" "old \<noteq> 0"
  shows "sys_inv (x\<lparr>mach := m\<rparr>)" (is "sys_inv ?y")
proof (rule sys_invI)
  note inv = sys_invD [OF assms(1)]
  have m: "m = upd_lock l (\<lambda>k. k\<lparr>locked := 1\<rparr>) (mach x)" and taken: "locked (locks (mach x) l) \<noteq> 0"
    using assms(2,3) by (simp_all add: xchg_eq)
  show "apic_ok (mach ?y)" using inv(1) by (simp add: m)
  show "cpu_inv ?y k" for k using inv(2) [of k] by (simp add: cpu_inv_def m)
  show "lock_inv ?y j" for j using inv(3) [of j] taken by (auto simp: lock_inv_def has_word_def m)
qed

lemma inv_mark:
  assumes "sys_inv x" "c < ncpu (mach x)" "pc x c = Taken l" "acquire_mark c l (mach x) = Inr ((), m)"
  shows "sys_inv (x\<lparr>mach := m, pc := (pc x)(c := Run),
    owned := (owned x)(c := insert l (owned x c))\<rparr>)" (is "sys_inv ?y")
proof (rule sys_invI)
  note inv = sys_invD [OF assms(1)]
  have "mycpu c (mach x) = Inr (c, mach x)"
    using assms(2,3) inv(1) cpu_inv_busy [OF inv(2)] by (intro mycpu_eq) auto
  then have m: "m = upd_lock l (\<lambda>k. k\<lparr>lk_cpu := Some c\<rparr>) (mach x)"
    using assms(4) by (simp add: acquire_mark_def kop_defs)
  have only: "k = c" if "has_word x k l" for k
    using that inv(3) [of l] assms(3) by (auto simp: lock_inv_def has_word_def)
  have fresh: "l \<notin> owned x k" for k
    using inv(3) [of l] assms(3) only [of k] by (auto simp: lock_inv_def has_word_def)
  have pcs: "pc x k = Taken l \<longleftrightarrow> k = c" "pc x k \<noteq> Storing l" for k
    using only [of k] assms(3) by (auto simp: has_word_def)
  have lk: "locked (locks (mach x) l) \<noteq> 0"
    using inv(3) [of l] assms(3) by (auto simp: lock_inv_def has_word_def)
  show "apic_ok (mach ?y)" using inv(1) by (simp add: m)
  show "cpu_inv ?y k" for k
    using inv(2) [of k] assms(3) fresh [of c] by (auto simp: cpu_inv_def m)
  show "lock_inv ?y j" for j
  proof (cases "j = l")
    case True
    with lk fresh pcs show ?thesis by (auto simp: lock_inv_def has_word_def m)
  next
    case False
    with assms(3) show ?thesis by (intro lock_inv_frame [OF inv(3)]) (auto simp: m)
  qed
qed

lemma inv_clear:
  assumes "sys_inv x" "c < ncpu (mach x)" "pc x c = Run" "release_clear c l (mach x) = Inr ((), m)"
  shows "sys_inv (x\<lparr>mach := m, pc := (pc x)(c := Storing l),
    owned := (owned x)(c := owned x c - {l})\<rparr>)" (is "sys_inv ?y")
proof (rule sys_invI)
  note inv = sys_invD [OF assms(1)]
  have own: "l \<in> owned x c"
    using assms inv_release_clear_panic [of x c l] by fastforce
  then have m: "m = upd_lock l (\<lambda>k. k\<lparr>lk_cpu := None\<rparr>) (mach x)"
    using assms inv_release_clear [of x c l] by simp
  have only: "k = c" if "has_word x k l" for k
    using that inv(3) [of l] own by (auto simp: lock_inv_def has_word_def)
  have owner: "l \<in> owned x k \<longleftrightarrow> k = c" for k
    using own only [of k] by (auto simp: has_word_def)
  have pcs: "pc x k \<noteq> Taken l" "pc x k \<noteq> Storing l" for k
    using only [of k] assms(3) by (auto simp: has_word_def)
  have lk: "locked (locks (mach x) l) \<noteq> 0"
    using inv(3) [of l] own by (auto simp: lock_inv_def has_word_def)
  have "card (owned x c) = Suc (card (owned x c - {l}))"
    using inv(2) [of c] own by (intro card.remove) (auto simp: cpu_inv_def)
  then show "cpu_inv ?y k" for k
    using inv(2) [of k] assms(3) by (auto simp: cpu_inv_def m)
  show "apic_ok (mach ?y)" using inv(1) by (simp add: m)
  show "lock_inv ?y j" for j
  proof (cases "j = l")
    case True
    with lk owner pcs show ?thesis by (auto simp: lock_inv_def has_word_def m)
  next
    case False
    with assms(3) show ?thesis by (intro lock_inv_frame [OF inv(3)]) (auto simp: m)
  qed
qed

lemma inv_store:
  assumes "sys_inv x" "pc x c = Storing l" "release_store l (mach x) = Inr ((), m)"
  shows "sys_inv (x\<lparr>mach := m, pc := (pc x)(c := Exiting)\<rparr>)" (is "sys_inv ?y")
proof (rule sys_invI)
  note inv = sys_invD [OF assms(1)]
  have m: "m = upd_lock l (\<lambda>k. k\<lparr>locked := 0\<rparr>) (mach x)"
    using assms(3) by (simp add: release_store_def kop_defs)
  have only: "k = c" if "has_word x k l" for k
    using that inv(3) [of l] assms(2) by (auto simp: lock_inv_def has_word_def)
  have fresh: "l \<notin> owned x k" for k
    using inv(3) [of l] assms(2) only [of k] by (auto simp: lock_inv_def has_word_def)
  have pcs: "pc x k \<noteq> Taken l" "pc x k = Storing l \<longleftrightarrow> k = c" for k
    using only [of k] assms(2) by (auto simp: has_word_def)
  have "lk_cpu (locks (mach x) l) \<noteq> Some k" for k
    using inv(3) [of l] fresh [of k] by (auto simp: lock_inv_def)
  note lk = fresh pcs this
  show "apic_ok (mach ?y)" using inv(1) by (simp add: m)
  show "cpu_inv ?y k" for k
    using inv(2) [of k] assms(2) by (auto simp: cpu_inv_def m)
  show "lock_inv ?y j" for j
  proof (cases "j = l")
    case True
    with lk show ?thesis by (auto simp: lock_inv_def has_word_def m)
  next
    case False
    with assms(2) show ?thesis by (intro lock_inv_frame [OF inv(3)]) (auto simp: m)
  qed
qed

lemma inv_exit:
  assumes "sys_inv x" "c < ncpu (mach x)" "pc x c = Exiting" "popcli c (mach x) = Inr ((), m)"
  shows "sys_inv (x\<lparr>mach := m, pc := (pc x)(c := Run)\<rparr>)" (is "sys_inv ?y")
proof (rule sys_invI)
  note inv = sys_invD [OF assms(1)]
  have m: "m = upd_cpu c pop_cli (mach x)"
    using assms cpu_inv_busy [OF inv(2)] popcli_eq [of "mach x" c] inv(1) by simp
  show "apic_ok (mach ?y)" using inv(1) by (simp add: m)
  show "cpu_inv ?y k" for k
    using inv(2) [of k] assms(3) by (auto simp: cpu_inv_def m pop_cli_def split: if_splits)
  show "lock_inv ?y j" for j
    using assms(3) by (intro lock_inv_frame [OF inv(3)]) (auto simp: m)
qed

lemma inv_sticli:
  assumes "sys_inv x" "pc x c = Run" "ncli (cpus (mach x) c) = 0"
  shows "sys_inv (x\<lparr>mach := upd_cpu c (\<lambda>k. k\<lparr>rflags_IF := b\<rparr>) (mach x),
    ifl := (ifl x)(c := b)\<rparr>)" (is "sys_inv ?y")
proof (rule sys_invI)
  note inv = sys_invD [OF assms(1)]
  show "apic_ok (mach ?y)" using inv(1) by simp
  show "cpu_inv ?y k" for k
    using inv(2) [of k] assms(2,3) by (auto simp: cpu_inv_def)
  show "lock_inv ?y j" for j
    by (intro lock_inv_frame [OF inv(3)]) auto
qed

lemma sys_inv_step: "cpu_step x y \<Longrightarrow> sys_inv x \<Longrightarrow> sys_inv y"
  by (induction rule: cpu_step.induct)
    (blast intro: inv_enter inv_spin inv_take inv_mark inv_clear inv_store inv_exit inv_sticli)+

lemma reachable_inv: "cpu_reachable x \<Longrightarrow> sys_inv x"
  by (induction rule: cpu_reachable.induct) (blast intro: sys_init_inv sys_inv_step)+

text \<open>C1: Mutual exclusion: whatever the interleaving of the CPUs, at most one of them holds a lock at a
  time; while a CPU holds one, the lock's word is set and interrupts are off on that CPU.\<close>

theorem spinlock_mutual_exclusion:
  assumes "cpu_reachable x" and "l \<in> owned x c"
  shows "(\<forall>d. l \<in> owned x d \<longrightarrow> d = c) \<and> locked (locks (mach x) l) \<noteq> 0 \<and>
    \<not> rflags_IF (cpus (mach x) c)"
proof -
  note inv = sys_invD [OF reachable_inv [OF assms(1)]]
  have "owned x c \<noteq> {}" using assms(2) by auto
  then have "\<not> rflags_IF (cpus (mach x) c)" using cpu_inv_busy [OF inv(2)] by blast
  with inv(3) [of l] assms(2) show ?thesis by (auto simp: lock_inv_def has_word_def)
qed

text \<open>Two CPUs with interrupts on, and the first one after its call of \<^verbatim>\<open>acquire\<close>.\<close>

definition smp_demo :: smp where
  "smp_demo = \<lparr>cpus = (\<lambda>i. \<lparr>apicid = of_nat i, ncli = 0, intena = False, rflags_IF = True\<rparr>), ncpu = 2,
     locks = (\<lambda>_. \<lparr>locked = 0, lk_cpu = None\<rparr>), lapic = of_nat\<rparr>"

definition sys_demo :: sys where
  "sys_demo = \<lparr>mach = smp_demo, pc = (\<lambda>_. Run), owned = (\<lambda>_. {}), ifl = (\<lambda>_. True)\<rparr>"

definition sys_demo_locked :: sys where
  "sys_demo_locked = \<lparr>mach = upd_lock ''kmem'' (\<lambda>_. \<lparr>locked = 1, lk_cpu = Some 0\<rparr>) (upd_cpu 0 push_cli smp_demo),
     pc = (\<lambda>_. Run), owned = (\<lambda>_. {})(0 := {''kmem''}), ifl = (\<lambda>_. True)\<rparr>"

lemma smp_demo_apic: "apic_ok smp_demo"
proof -
  have "inj_on (\<lambda>i. of_nat i :: uchar) {..<2}"
    by (rule inj_onI) (auto simp: less_2_cases_iff)
  then show ?thesis by (simp add: apic_ok_def smp_demo_def)
qed

lemma sys_demo_init: "sys_init sys_demo"
  using smp_demo_apic by (simp add: sys_init_def sys_demo_def) (simp add: smp_demo_def)

lemma sys_demo_reachable: "cpu_reachable sys_demo"
  by (rule cpu_reachable.init) (rule sys_demo_init)

lemma sys_demo_locked_reachable: "cpu_reachable sys_demo_locked"
proof -
  let ?m1 = "upd_cpu 0 push_cli smp_demo"
  let ?x1 = "sys_demo\<lparr>mach := ?m1, pc := (pc sys_demo)(0 := Spin ''kmem'')\<rparr>"
  let ?m2 = "upd_lock ''kmem'' (\<lambda>k. k\<lparr>locked := 1\<rparr>) ?m1"
  let ?x2 = "?x1\<lparr>mach := ?m2, pc := (pc ?x1)(0 := Taken ''kmem'')\<rparr>"
  let ?m3 = "upd_lock ''kmem'' (\<lambda>k. k\<lparr>lk_cpu := Some 0\<rparr>) ?m2"
  let ?x3 = "?x2\<lparr>mach := ?m3, pc := (pc ?x2)(0 := Run), owned := (owned ?x2)(0 := insert ''kmem'' (owned ?x2 0))\<rparr>"
  have "acquire_enter 0 ''kmem'' smp_demo = Inr ((), ?m1)"
    using acquire_enter_eq [OF smp_demo_apic, of 0] by (simp add: smp_demo_def)
  then have 1: "cpu_step sys_demo ?x1"
    by (intro cpu_step.enter) (simp_all add: sys_demo_def smp_demo_def)
  have "cpu_reachable ?x1" by (rule cpu_reachable.step [OF sys_demo_reachable 1])
  moreover have "cpu_step ?x1 ?x2"
    by (intro cpu_step.take) (simp_all add: xchg_eq, simp_all add: smp_demo_def)
  ultimately have 2: "cpu_reachable ?x2" by (rule cpu_reachable.step)
  have "mycpu 0 ?m2 = Inr (0, ?m2)"
    by (rule mycpu_eq) (simp_all add: smp_demo_apic, simp_all add: push_cli_def smp_demo_def)
  then have "cpu_step ?x2 ?x3"
    by (intro cpu_step.mark) (simp_all add: acquire_mark_def kop_defs, simp add: smp_demo_def)
  with 2 have "cpu_reachable ?x3" by (rule cpu_reachable.step)
  moreover have "?x3 = sys_demo_locked"
    by (simp add: sys_demo_def sys_demo_locked_def upd_lock_def)
      (simp add: smp_demo_def upd_cpu_def fun_eq_iff)
  ultimately show ?thesis by simp
qed

theorem spinlock_mutual_exclusion_witness:
  "''kmem'' \<in> owned sys_demo_locked 0 \<and> \<not> rflags_IF (cpus (mach sys_demo_locked) 0) \<and>
   rflags_IF (cpus (mach sys_demo) 0)"
  using spinlock_mutual_exclusion [OF sys_demo_locked_reachable, of "''kmem''" 0]
  by (simp add: sys_demo_locked_def sys_demo_def smp_demo_def)

text \<open>C2: A CPU outside \<^verbatim>\<open>acquire\<close> and \<^verbatim>\<open>release\<close> runs with exactly the interrupt flag it had before its
  outermost \<^verbatim>\<open>acquire\<close> once it holds no lock; \<^verbatim>\<open>acquire\<close> panics exactly on a lock the CPU
  already holds, and \<^verbatim>\<open>release\<close> exactly on one it does not hold.\<close>

theorem spinlock_discipline:
  assumes "cpu_reachable x" and "c < ncpu (mach x)" and "pc x c = Run"
  shows "rflags_IF (cpus (mach x) c) = (ifl x c \<and> owned x c = {}) \<and>
    (acquire_enter c l (mach x) = Inl (Panic ''acquire'') \<longleftrightarrow> l \<in> owned x c) \<and>
    (release_clear c l (mach x) = Inl (Panic ''release'') \<longleftrightarrow> l \<notin> owned x c)"
proof -
  note inv = reachable_inv [OF assms(1)]
  have "rflags_IF (cpus (mach x) c) = (ifl x c \<and> owned x c = {})"
    using sys_invD(2) [OF inv, of c] assms(3) by (auto simp: cpu_inv_def card_eq_0_iff split: if_splits)
  moreover have "acquire_enter c l (mach x) = Inl (Panic ''acquire'') \<longleftrightarrow> l \<in> owned x c"
    by (simp add: inv_acquire_enter [OF inv assms(2)])
  moreover have "release_clear c l (mach x) = Inl (Panic ''release'') \<longleftrightarrow> l \<notin> owned x c"
    by (cases "l \<in> owned x c")
      (simp_all add: inv_release_clear [OF inv assms(2)] inv_release_clear_panic [OF inv assms(2)])
  ultimately show ?thesis by blast
qed

theorem spinlock_discipline_witness:
  "acquire_enter 0 ''kmem'' (mach sys_demo_locked) = Inl (Panic ''acquire'') \<and>
   release_clear 0 ''log'' (mach sys_demo_locked) = Inl (Panic ''release'') \<and>
   rflags_IF (cpus (mach sys_demo) 0)"
  using spinlock_discipline [OF sys_demo_locked_reachable, of 0]
    spinlock_discipline [OF sys_demo_reachable, of 0]
  by (simp add: sys_demo_locked_def sys_demo_def) (simp add: smp_demo_def)

section \<open>The lock contract\<close>

text \<open>
  What kernel code relies on, for the CPU it runs on: \<open>owns s\<close> are the locks it holds, \<open>free s l\<close>
  that no other CPU has the lock (otherwise \<^verbatim>\<open>acquire\<close> spins until it is so).
\<close>

locale spin_lock =
  fixes good :: "'s \<Rightarrow> bool"
    and owns :: "'s \<Rightarrow> string set"
    and free :: "'s \<Rightarrow> string \<Rightarrow> bool"
    and acq :: "string \<Rightarrow> ('s, unit) kop"
    and rel :: "string \<Rightarrow> ('s, unit) kop"
  assumes acq_free: "good s \<Longrightarrow> l \<notin> owns s \<Longrightarrow> free s l \<Longrightarrow>
      wp (acq l) (\<lambda>_ t. good t \<and> owns t = insert l (owns s)) s"
    and acq_again: "good s \<Longrightarrow> l \<in> owns s \<Longrightarrow> acq l s = Inl (Panic ''acquire'')"
    and rel_owned: "good s \<Longrightarrow> l \<in> owns s \<Longrightarrow>
      wp (rel l) (\<lambda>_ t. good t \<and> owns t = owns s - {l} \<and> free t l) s"
    and rel_other: "good s \<Longrightarrow> l \<notin> owns s \<Longrightarrow> rel l s = Inl (Panic ''release'')"
begin

text \<open>A critical section whose body neither takes nor drops locks on balance leaves the CPU with the
  locks it had, and the lock free again.\<close>

lemma critical_section:
  assumes "good s" "l \<notin> owns s" "free s l"
    and body: "\<And>t. good t \<Longrightarrow> owns t = insert l (owns s) \<Longrightarrow>
      wp body (\<lambda>_ u. good u \<and> owns u = owns t) t"
  shows "wp (andthen (acq l) (andthen body (rel l))) (\<lambda>_ u. good u \<and> owns u = owns s \<and> free u l) s"
proof -
  have "wp (rel l) (\<lambda>_ v. good v \<and> owns v = owns s \<and> free v l) u"
    if "good u" "owns u = insert l (owns s)" for u
    using that assms(2) by (auto intro: wp_mono [OF rel_owned])
  then have "wp (andthen body (rel l)) (\<lambda>_ v. good v \<and> owns v = owns s \<and> free v l) t"
    if "good t" "owns t = insert l (owns s)" for t
    using that body [OF that] by (auto intro: wp_mono)
  then show ?thesis
    using acq_free [OF assms(1-3)] by (auto intro: wp_mono)
qed

end

text \<open>The machine's operations, run by CPU \<open>c\<close> in a state the system can be in.\<close>

definition smp_good :: "nat \<Rightarrow> smp \<Rightarrow> bool" where
  "smp_good c s \<longleftrightarrow> c < ncpu s \<and> (\<exists>x. sys_inv x \<and> mach x = s \<and> pc x c = Run)"

definition smp_owns :: "nat \<Rightarrow> smp \<Rightarrow> string set" where
  "smp_owns c s = {l. locked (locks s l) \<noteq> 0 \<and> lk_cpu (locks s l) = Some c}"

definition smp_free :: "smp \<Rightarrow> string \<Rightarrow> bool" where
  "smp_free s l \<longleftrightarrow> locked (locks s l) = 0"

lemma smp_owns_eq: "sys_inv x \<Longrightarrow> smp_owns c (mach x) = owned x c"
  unfolding smp_owns_def by (rule set_eqI) (simp add: lock_inv_holding sys_invD)

lemma smp_acquire_ok:
  assumes "smp_good c s" "l \<notin> smp_owns c s" "smp_free s l"
  shows "wp (smp_acquire c l) (\<lambda>_ t. smp_good c t \<and> smp_owns c t = insert l (smp_owns c s)) s"
proof -
  obtain x where c: "c < ncpu s" and x: "sys_inv x" "mach x = s" "pc x c = Run"
    using assms(1) by (auto simp: smp_good_def)
  have own: "l \<notin> owned x c" using assms(2) smp_owns_eq [OF x(1)] x(2) by simp
  let ?m1 = "upd_cpu c push_cli s" let ?x1 = "x\<lparr>mach := ?m1, pc := (pc x)(c := Spin l)\<rparr>"
  let ?m2 = "upd_lock l (\<lambda>k. k\<lparr>locked := 1\<rparr>) ?m1"
  let ?x2 = "?x1\<lparr>mach := ?m2, pc := (pc ?x1)(c := Taken l)\<rparr>"
  let ?m3 = "upd_lock l (\<lambda>k. k\<lparr>lk_cpu := Some c\<rparr>) ?m2"
  let ?x3 = "?x2\<lparr>mach := ?m3, pc := (pc ?x2)(c := Run), owned := (owned ?x2)(c := insert l (owned ?x2 c))\<rparr>"
  have e: "acquire_enter c l s = Inr ((), ?m1)"
    using inv_acquire_enter [OF x(1)] c own x(2) by simp
  then have x1: "sys_inv ?x1" using x c by (intro inv_enter) simp_all
  have t: "xchg l 1 ?m1 = Inr (0, ?m2)" using assms(3) by (simp add: xchg_eq smp_free_def)
  then have x2: "sys_inv ?x2" using c by (intro inv_take [OF x1]) simp_all
  have "mycpu c (mach ?x2) = Inr (c, mach ?x2)"
    using sys_invD(1) [OF x2] cpu_inv_busy [OF sys_invD(2) [OF x2], of c] c by (intro mycpu_eq) simp_all
  then have m: "acquire_mark c l ?m2 = Inr ((), ?m3)" by (simp add: acquire_mark_def kop_defs)
  then have x3: "sys_inv ?x3" using c by (intro inv_mark [OF x2]) simp_all
  then have "smp_good c ?m3" unfolding smp_good_def using c by (auto intro!: exI [of _ ?x3])
  moreover have "smp_owns c ?m3 = insert l (smp_owns c s)"
    using smp_owns_eq [OF x3, of c] smp_owns_eq [OF x(1), of c] x(2) by simp
  moreover have "smp_acquire c l s = Inr ((), ?m3)"
    by (simp add: smp_acquire_def andthen_def bind_def e t m)
  ultimately show ?thesis by (simp add: wp_def)
qed

lemma smp_release_ok:
  assumes "smp_good c s" "l \<in> smp_owns c s"
  shows "wp (smp_release c l)
    (\<lambda>_ t. smp_good c t \<and> smp_owns c t = smp_owns c s - {l} \<and> smp_free t l) s"
proof -
  obtain x where c: "c < ncpu s" and x: "sys_inv x" "mach x = s" "pc x c = Run"
    using assms(1) by (auto simp: smp_good_def)
  have own: "l \<in> owned x c" using assms(2) smp_owns_eq [OF x(1)] x(2) by simp
  let ?m1 = "upd_lock l (\<lambda>k. k\<lparr>lk_cpu := None\<rparr>) s"
  let ?x1 = "x\<lparr>mach := ?m1, pc := (pc x)(c := Storing l), owned := (owned x)(c := owned x c - {l})\<rparr>"
  let ?m2 = "upd_lock l (\<lambda>k. k\<lparr>locked := 0\<rparr>) ?m1"
  let ?x2 = "?x1\<lparr>mach := ?m2, pc := (pc ?x1)(c := Exiting)\<rparr>"
  let ?m3 = "upd_cpu c pop_cli ?m2" let ?x3 = "?x2\<lparr>mach := ?m3, pc := (pc ?x2)(c := Run)\<rparr>"
  have e: "release_clear c l s = Inr ((), ?m1)"
    using inv_release_clear [OF x(1)] c own x(2) by simp
  then have x1: "sys_inv ?x1" using x c by (intro inv_clear) simp_all
  have t: "release_store l ?m1 = Inr ((), ?m2)" by (simp add: release_store_def kop_defs)
  then have x2: "sys_inv ?x2" by (intro inv_store [OF x1]) simp_all
  have m: "popcli c ?m2 = Inr ((), ?m3)"
    using sys_invD(1) [OF x2] cpu_inv_busy [OF sys_invD(2) [OF x2], of c] c by (intro popcli_eq) simp_all
  then have x3: "sys_inv ?x3" using c by (intro inv_exit [OF x2]) simp_all
  then have "smp_good c ?m3" unfolding smp_good_def using c by (auto intro!: exI [of _ ?x3])
  moreover have "smp_owns c ?m3 = smp_owns c s - {l}"
    using smp_owns_eq [OF x3, of c] smp_owns_eq [OF x(1), of c] x(2) by simp
  moreover have "smp_release c l s = Inr ((), ?m3)"
    by (simp add: smp_release_def andthen_def bind_def e t m)
  ultimately show ?thesis by (simp add: wp_def smp_free_def)
qed

lemma smp_acquire_again:
  assumes "smp_good c s" "l \<in> smp_owns c s"
  shows "smp_acquire c l s = Inl (Panic ''acquire'')"
proof -
  obtain x where "c < ncpu s" "sys_inv x" "mach x = s" using assms(1) by (auto simp: smp_good_def)
  moreover from this have "l \<in> owned x c" using assms(2) smp_owns_eq [of x c] by simp
  ultimately have "acquire_enter c l s = Inl (Panic ''acquire'')" using inv_acquire_enter [of x c l] by simp
  then show ?thesis by (simp add: smp_acquire_def andthen_def bind_def)
qed

lemma smp_release_other:
  assumes "smp_good c s" "l \<notin> smp_owns c s"
  shows "smp_release c l s = Inl (Panic ''release'')"
proof -
  obtain x where "c < ncpu s" "sys_inv x" "mach x = s" using assms(1) by (auto simp: smp_good_def)
  moreover from this have "l \<notin> owned x c" using assms(2) smp_owns_eq [of x c] by simp
  ultimately have "release_clear c l s = Inl (Panic ''release'')"
    using inv_release_clear_panic [of x c l] by simp
  then show ?thesis by (simp add: smp_release_def andthen_def bind_def)
qed

interpretation smp_locks: spin_lock "smp_good c" "smp_owns c" smp_free "smp_acquire c" "smp_release c" for c
  by unfold_locales
    (simp_all add: smp_acquire_ok smp_acquire_again smp_release_ok smp_release_other)

section \<open>Locks as the rest of the kernel sees them\<close>

text \<open>
  The components below run on one CPU at a time, and what \<^verbatim>\<open>acquire\<close> and \<^verbatim>\<open>release\<close> mean for
  them is the contract above: the state carries the set of the locks the CPU holds. Each lock is
  named by the string given to \<^verbatim>\<open>initlock\<close>.
\<close>

record klk_st =
  held :: "string set"

definition initlock :: "string \<Rightarrow> ('a klk_st_scheme, unit) kop" where
  "initlock l = modify (\<lambda>s. s\<lparr>held := held s - {l}\<rparr>)"

definition acquire :: "string \<Rightarrow> ('a klk_st_scheme, unit) kop" where
  "acquire l = bind (gets held) (\<lambda>H.
     if l \<in> H then panic ''acquire'' else modify (\<lambda>s. s\<lparr>held := insert l (held s)\<rparr>))"

definition release :: "string \<Rightarrow> ('a klk_st_scheme, unit) kop" where
  "release l = bind (gets held) (\<lambda>H.
     if l \<notin> H then panic ''release'' else modify (\<lambda>s. s\<lparr>held := held s - {l}\<rparr>))"

lemma wp_acquire [wp_simps, simp]:
  "wp (acquire l) Q = (\<lambda>s. l \<notin> held s \<and> Q () (s\<lparr>held := insert l (held s)\<rparr>))"
  by (auto simp: acquire_def fun_eq_iff)

lemma wp_release [wp_simps, simp]:
  "wp (release l) Q = (\<lambda>s. l \<in> held s \<and> Q () (s\<lparr>held := held s - {l}\<rparr>))"
  by (auto simp: release_def fun_eq_iff)

interpretation klocks: spin_lock "\<lambda>_. True" held "\<lambda>_ _. True" acquire release
  by unfold_locales (simp_all add: acquire_def release_def kop_defs wp_def)

text \<open>C3: On the machine, a CPU that acquires a free lock, runs a body that leaves its locks balanced, and
  releases the lock returns with the locks it held before, and the lock is free again.\<close>

theorem smp_critical_section:
  assumes "smp_good c s" "l \<notin> smp_owns c s" "smp_free s l"
    and "\<And>t. smp_good c t \<Longrightarrow> smp_owns c t = insert l (smp_owns c s) \<Longrightarrow>
      wp body (\<lambda>_ u. smp_good c u \<and> smp_owns c u = smp_owns c t) t"
  shows "wp (andthen (smp_acquire c l) (andthen body (smp_release c l)))
    (\<lambda>_ u. smp_good c u \<and> smp_owns c u = smp_owns c s \<and> smp_free u l) s"
  by (rule smp_locks.critical_section [OF assms(1-3)]) (rule assms(4))

lemma smp_demo_good: "smp_good 0 smp_demo"
proof -
  have "ncpu smp_demo = 2" "mach sys_demo = smp_demo" "pc sys_demo 0 = Run"
    by (simp_all add: smp_demo_def sys_demo_def)
  then show ?thesis
    using reachable_inv [OF sys_demo_reachable] by (auto simp: smp_good_def)
qed

theorem smp_critical_section_witness:
  "wp (andthen (smp_acquire 0 ''kmem'') (andthen skip (smp_release 0 ''kmem'')))
    (\<lambda>_ u. smp_good 0 u \<and> smp_owns 0 u = smp_owns 0 smp_demo \<and> smp_free u ''kmem'') smp_demo"
  by (rule smp_critical_section) (simp_all add: smp_demo_good, simp_all add: smp_owns_def smp_free_def smp_demo_def)

end
