(* ===== verification/Kalloc.thy ===== *)
theory Kalloc
  imports Spinlock
begin

text \<open>
  \<^verbatim>\<open>kernel/kalloc.c\<close>: the physical page allocator. Its free list is threaded through the free
  pages themselves (\<^verbatim>\<open>struct run\<close>), so the state holds the memory the pages live in. The
  kernel symbol \<^verbatim>\<open>end\<close>, set by the linker, is the field \<open>km_end\<close>. The lock
  \<^verbatim>\<open>kmem.lock\<close> is taken once \<^verbatim>\<open>use_lock\<close> is set.
\<close>

section \<open>Pages\<close>

definition PGSIZE :: ulong where
  "PGSIZE = 4096"

definition PGROUNDUP :: "ulong \<Rightarrow> ulong" where
  "PGROUNDUP sz = (sz + PGSIZE - 1) AND NOT (PGSIZE - 1)"

definition PGROUNDDOWN :: "ulong \<Rightarrow> ulong" where
  "PGROUNDDOWN a = a AND NOT (PGSIZE - 1)"

definition PGALIGNED :: "ulong \<Rightarrow> bool" where
  "PGALIGNED a \<longleftrightarrow> a AND (PGSIZE - 1) = 0"

definition KERNBASE :: ulong where
  "KERNBASE = 0xffff800000000000"

definition V2P :: "ulong \<Rightarrow> ulong" where
  "V2P a = a - KERNBASE"

definition P2V :: "ulong \<Rightarrow> ulong" where
  "P2V a = a + KERNBASE"

section \<open>State and operations\<close>

record kmap =
  phys_start :: ulong
  phys_end :: ulong
  perm :: ulong
  heap :: bool

definition KMAP_MAX_SIZE :: nat where
  "KMAP_MAX_SIZE = 32"

record kmem_st = klk_st +
  km_use_lock :: bool
  km_freelist :: ulong
  km_mem :: mem
  km_end :: ulong
  km_kmap :: "kmap list"
  km_cur :: nat

definition kmap_add :: "ulong \<Rightarrow> ulong \<Rightarrow> ulong \<Rightarrow> bool \<Rightarrow> ('a kmem_st_scheme, unit) kop" where
  "kmap_add pa_start pa_end p h =
     bind (gets km_cur) (\<lambda>cur.
     if cur \<ge> KMAP_MAX_SIZE then panic ''Too many kmap entries''
     else modify (\<lambda>s. s\<lparr>km_cur := cur + 1,
       km_kmap := (km_kmap s)[cur := \<lparr>phys_start = pa_start, phys_end = pa_end, perm = p, heap = h\<rparr>]\<rparr>))"

definition kfree :: "ulong \<Rightarrow> ('a kmem_st_scheme, unit) kop" where
  "kfree v =
     bind (gets km_end) (\<lambda>e.
     if \<not> PGALIGNED v \<or> v < e then panic ''kfree''
     else
       andthen (modify (\<lambda>s. s\<lparr>km_mem := memset (km_mem s) v 1 (ucast PGSIZE)\<rparr>))
      (andthen (bind (gets km_use_lock) (\<lambda>use_lock. whenK use_lock (acquire ''kmem'')))
      (andthen (modify (\<lambda>s. s\<lparr>km_mem := store64 (km_mem s) v (km_freelist s)\<rparr>))
      (andthen (modify (\<lambda>s. s\<lparr>km_freelist := v\<rparr>))
               (bind (gets km_use_lock) (\<lambda>use_lock. whenK use_lock (release ''kmem'')))))))"

definition kalloc :: "('a kmem_st_scheme, ulong) kop" where
  "kalloc =
     andthen (bind (gets km_use_lock) (\<lambda>use_lock. whenK use_lock (acquire ''kmem'')))
    (bind (gets km_freelist) (\<lambda>r.
     andthen (whenK (r \<noteq> 0) (modify (\<lambda>s. s\<lparr>km_freelist := load64 (km_mem s) r\<rparr>)))
    (andthen (bind (gets km_use_lock) (\<lambda>use_lock. whenK use_lock (release ''kmem'')))
             (ret r))))"

text \<open>
  The loop of \<^verbatim>\<open>freerange\<close> advances \<open>p\<close> by a page while a whole page fits below \<open>vend\<close>. There
  are \<open>2 ^ 52\<close> pages in the address space, so that many steps are enough for a loop that ends.
\<close>

fun freerange_loop :: "nat \<Rightarrow> ulong \<Rightarrow> ulong \<Rightarrow> ('a kmem_st_scheme, unit) kop" where
  "freerange_loop 0 p vend = fail Diverge"
| "freerange_loop (Suc fuel) p vend =
     (if p + PGSIZE \<le> vend
      then andthen (kfree p) (freerange_loop fuel (p + PGSIZE) vend)
      else skip)"

definition freerange :: "ulong \<Rightarrow> ulong \<Rightarrow> ('a kmem_st_scheme, unit) kop" where
  "freerange vstart vend = freerange_loop (2 ^ 52 + 1) (PGROUNDUP vstart) vend"

text \<open>The loop over \<^verbatim>\<open>kmap\<close> stops at the first empty entry; past the array it faults.\<close>

fun kinit1_loop :: "kmap list \<Rightarrow> ('a kmem_st_scheme, unit) kop" where
  "kinit1_loop [] = fail Fault"
| "kinit1_loop (km # kms) =
     (if phys_start km \<noteq> 0 \<or> phys_end km \<noteq> 0
      then andthen (whenK (heap km) (freerange (P2V (phys_start km)) (P2V (phys_end km))))
             (kinit1_loop kms)
      else skip)"

definition kinit1 :: "('a kmem_st_scheme, unit) kop" where
  "kinit1 =
     andthen (initlock ''kmem'')
    (andthen (modify (\<lambda>s. s\<lparr>km_use_lock := False\<rparr>))
       (bind (gets km_kmap) kinit1_loop))"

definition kinit2 :: "('a kmem_st_scheme, unit) kop" where
  "kinit2 = modify (\<lambda>s. s\<lparr>km_use_lock := True\<rparr>)"

section \<open>Page arithmetic\<close>

lemma PGSIZE_mask: "PGSIZE - 1 = mask 12"
  by (simp add: PGSIZE_def mask_eq_exp_minus_1)

lemma PGALIGNED_iff: "PGALIGNED a \<longleftrightarrow> unat a mod 4096 = 0"
proof -
  have "a AND (PGSIZE - 1) = take_bit 12 a"
    by (simp only: PGSIZE_mask take_bit_eq_mask)
  moreover have "unat (take_bit 12 a) = unat a mod 4096"
    by (simp add: take_bit_eq_mod unat_mod)
  ultimately show ?thesis
    unfolding PGALIGNED_def by (metis unat_0_iff)
qed

lemma unat_PGROUNDDOWN: "unat (PGROUNDDOWN a) = unat a div 4096 * 4096"
proof -
  have "PGROUNDDOWN a = push_bit 12 (drop_bit 12 a)"
    unfolding PGROUNDDOWN_def PGSIZE_mask
    by (rule bit_word_eqI) (auto simp: bit_simps)
  moreover have "unat (drop_bit 12 a) = unat a div 4096"
    by (simp add: drop_bit_eq_div unat_div)
  moreover have "unat a div 4096 * 4096 < 2 ^ 64"
    using unat_lt [of a] by simp
  ultimately show ?thesis
    by (simp add: push_bit_eq_mult unat_word_ariths)
qed

lemma page_region:
  assumes "PGALIGNED a"
  shows "in_region a 4096 x \<longleftrightarrow> PGROUNDDOWN x = a"
proof -
  obtain k where k: "unat a = 4096 * k"
    using assms by (auto simp: PGALIGNED_iff)
  have "unat a < 2 ^ 64" using unat_lt [of a] by simp
  with k have ub: "unat a + 4096 \<le> 2 ^ 64" by simp
  have "PGROUNDDOWN x = a \<longleftrightarrow> unat x div 4096 = k"
    unfolding word_unat_eq_iff unat_PGROUNDDOWN k by simp
  moreover have "unat (x - a) < 4096 \<longleftrightarrow> unat x div 4096 = k"
  proof (cases "unat a \<le> unat x")
    case True
    define d where "d = unat x - unat a"
    have x: "unat x = 4096 * k + d" using True k by (simp add: d_def)
    have "unat x div 4096 = k + d div 4096" unfolding x by simp
    then show ?thesis
      unfolding unat_diff_le [OF True] d_def [symmetric] by (simp add: div_eq_0_iff)
  next
    case False
    then have lt: "unat x < unat a" by simp
    then have "unat (x - a) = 2 ^ 64 + unat x - unat a"
      using unat_diff_wrap [OF lt] by simp
    with ub lt have "\<not> unat (x - a) < 4096" by linarith
    moreover have "unat x div 4096 \<noteq> k" using lt k by auto
    ultimately show ?thesis by simp
  qed
  ultimately show ?thesis by (simp add: in_region_def)
qed

lemma page_prefix: "in_region a 8 x \<Longrightarrow> in_region a 4096 x"
  by (simp add: in_region_def)

text \<open>Two different pages have no byte in common.\<close>

lemma pages_disjoint:
  "PGALIGNED a \<Longrightarrow> PGALIGNED b \<Longrightarrow> a \<noteq> b \<Longrightarrow> in_region a 4096 x \<Longrightarrow> \<not> in_region b 4096 x"
  by (simp add: page_region)

section \<open>The free list\<close>

text \<open>
  \<open>flist m p xs\<close>: the list threaded through memory from \<open>p\<close> visits exactly the pages \<open>xs\<close>, in
  order. Like the relational list abstraction for linked lists on a heap, it determines \<open>xs\<close> and
  rules cycles out.
\<close>

fun flist :: "mem \<Rightarrow> ulong \<Rightarrow> ulong list \<Rightarrow> bool" where
  "flist m p [] \<longleftrightarrow> p = 0"
| "flist m p (x # xs) \<longleftrightarrow> p = x \<and> x \<noteq> 0 \<and> flist m (load64 m x) xs"

lemma flist_cong:
  "(\<And>x. x \<in> set xs \<Longrightarrow> load64 m x = load64 m' x) \<Longrightarrow> flist m p xs = flist m' p xs"
  by (induction xs arbitrary: p) auto

lemma flist_unique: "flist m p xs \<Longrightarrow> flist m p ys \<Longrightarrow> xs = ys"
proof (induction xs arbitrary: p ys)
  case Nil
  then show ?case by (cases ys) auto
next
  case (Cons x xs)
  then show ?case by (cases ys) auto
qed

lemma flist_append: "flist m p (xs @ y # ys) \<Longrightarrow> flist m y (y # ys)"
  by (induction xs arbitrary: p) auto

lemma flist_distinct: "flist m p xs \<Longrightarrow> distinct xs"
proof (induction xs arbitrary: p)
  case Nil
  then show ?case by simp
next
  case (Cons x xs)
  have "x \<notin> set xs"
  proof
    assume "x \<in> set xs"
    then obtain us vs where "xs = us @ x # vs" by (auto dest: split_list)
    with Cons.prems have "flist m x (x # vs)" by (auto dest: flist_append)
    moreover from Cons.prems have "flist m x (x # xs)" by simp
    ultimately have "x # vs = x # xs" by (rule flist_unique)
    with \<open>xs = us @ x # vs\<close> show False by simp
  qed
  with Cons show ?case by auto
qed

text \<open>The allocator's invariant, and what it owns: the pages of its free list.\<close>

definition kpage :: "'a kmem_st_scheme \<Rightarrow> ulong \<Rightarrow> bool" where
  "kpage s p \<longleftrightarrow> PGALIGNED p \<and> km_end s \<le> p \<and> p \<noteq> 0"

definition kfreelist :: "ulong list \<Rightarrow> 'a kmem_st_scheme \<Rightarrow> bool" where
  "kfreelist xs s \<longleftrightarrow> ''kmem'' \<notin> held s \<and> flist (km_mem s) (km_freelist s) xs \<and> (\<forall>x \<in> set xs. kpage s x)"

text \<open>Outside the given page, nothing of memory changes.\<close>

definition same_outside :: "ulong \<Rightarrow> mem \<Rightarrow> mem \<Rightarrow> bool" where
  "same_outside p m m' \<longleftrightarrow> (\<forall>x. \<not> in_region p 4096 x \<longrightarrow> m' x = m x)"

lemma load64_same_outside:
  assumes "same_outside p m m'" "PGALIGNED p" "PGALIGNED q" "p \<noteq> q"
  shows "load64 m' q = load64 m q"
proof (rule load64_cong)
  fix x
  assume "in_region q 8 x"
  then have "\<not> in_region p 4096 x"
    using assms(2-4) pages_disjoint page_prefix by blast
  then show "m' x = m x"
    using assms(1) by (simp add: same_outside_def)
qed

text \<open>The memory after \<^verbatim>\<open>kfree\<close>: the page filled with 1s and the link stored over them.\<close>

lemma kfree_mem:
  "same_outside v m (store64 (memset m v 1 (ucast PGSIZE)) v q)"
proof -
  have "unat (ucast PGSIZE :: uint) = 4096" by (simp add: PGSIZE_def)
  then show ?thesis
    by (auto simp: same_outside_def store64_def memset_fills dest: page_prefix)
qed

lemma wp_kfree:
  assumes "kfreelist xs s" and "kpage s v" and "v \<notin> set xs"
  shows "wp (kfree v) (\<lambda>_ t. kfreelist (v # xs) t \<and> 
    (\<exists>m. same_outside v (km_mem s) m \<and> t = s\<lparr>km_mem := m, km_freelist := v\<rparr>)) s"
proof -
  let ?m = "store64 (memset (km_mem s) v 1 (ucast PGSIZE)) v (km_freelist s)"
  have same: "same_outside v (km_mem s) ?m" by (rule kfree_mem)
  have "load64 ?m x = load64 (km_mem s) x" if "x \<in> set xs" for x
    using that assms
    by (intro load64_same_outside [OF same]) (auto simp: kfreelist_def kpage_def)
  then have "flist ?m (km_freelist s) xs"
    using assms(1) flist_cong [of xs ?m "km_mem s"] by (simp add: kfreelist_def)
  then show ?thesis
    using assms same
    by (auto simp: kfree_def kfreelist_def kpage_def not_less [symmetric] intro: exI [of _ ?m])
qed

lemma wp_kalloc_Cons:
  assumes "kfreelist (x # xs) s"
  shows "wp kalloc (\<lambda>p t. p = x \<and> kfreelist xs t \<and> (\<exists>q. t = s\<lparr>km_freelist := q\<rparr>)) s"
  using assms by (auto simp: kalloc_def kfreelist_def kpage_def)

lemma wp_kalloc_Nil: "kfreelist [] s \<Longrightarrow> wp kalloc (\<lambda>p t. p = 0 \<and> t = s) s"
  by (simp add: kalloc_def kfreelist_def)

section \<open>The allocator's contract\<close>

text \<open>
  What the users of the allocator (page tables, kernel stacks, pipes) rely on: \<open>owns P s\<close> says
  that the free pages of state \<open>s\<close> are \<open>P\<close>, an allocation takes one of them out and a free puts one
  back. The clients' lemmas are proved from these laws alone.
\<close>

locale page_allocator =
  fixes owns :: "ulong set \<Rightarrow> 's \<Rightarrow> bool"
    and page :: "'s \<Rightarrow> ulong \<Rightarrow> bool"
    and alloc :: "('s, ulong) kop"
    and free :: "ulong \<Rightarrow> ('s, unit) kop"
  assumes alloc_page:
    "owns P s \<Longrightarrow> P \<noteq> {} \<Longrightarrow> wp alloc (\<lambda>p t. p \<in> P \<and> p \<noteq> 0 \<and> page t p \<and> owns (P - {p}) t) s"
    and alloc_empty: "owns {} s \<Longrightarrow> wp alloc (\<lambda>p t. p = 0 \<and> t = s) s"
    and free_page: "owns P s \<Longrightarrow> page s p \<Longrightarrow> p \<notin> P \<Longrightarrow> wp (free p) (\<lambda>_ t. owns (insert p P) t) s"
begin

lemma alloc_null_iff: "owns P s \<Longrightarrow> wp alloc (\<lambda>p t. p = 0 \<longleftrightarrow> P = {}) s"
  by (cases "P = {}") (auto intro: wp_mono [OF alloc_page] wp_mono [OF alloc_empty])

text \<open>A page that is allocated and freed again leaves the allocator owning what it owned.\<close>

lemma alloc_free:
  assumes "owns P s" and "P \<noteq> {}"
  shows "wp (bind alloc free) (\<lambda>_ t. owns P t) s"
proof -
  have "wp (free p) (\<lambda>_ t. owns P t) t" if "p \<in> P" "page t p" "owns (P - {p}) t" for p t
  proof -
    have "insert p (P - {p}) = P" using that(1) by auto
    with free_page [OF that(3,2)] show ?thesis by simp
  qed
  then show ?thesis
    using wp_mono [OF alloc_page [OF assms]] by (simp add: wp_mono)
qed

text \<open>Two allocations in a row never return the same page.\<close>

lemma allocs_distinct:
  assumes "owns P s" and "P \<noteq> {}"
  shows "wp (bind alloc (\<lambda>p. bind alloc (\<lambda>q. ret (p, q)))) (\<lambda>(p, q) t. p \<noteq> 0 \<and> p \<noteq> q) s"
proof -
  have "wp alloc (\<lambda>q _. p \<noteq> 0 \<and> p \<noteq> q) t" if "p \<noteq> 0" "owns (P - {p}) t" for p t
  proof (cases "P - {p} = {}")
    case True
    with that show ?thesis by (auto intro: wp_mono [OF alloc_empty])
  next
    case False
    with that show ?thesis by (auto intro: wp_mono [OF alloc_page])
  qed
  then show ?thesis
    using wp_mono [OF alloc_page [OF assms]] by (simp add: wp_mono)
qed

end

definition kowns :: "ulong set \<Rightarrow> 'a kmem_st_scheme \<Rightarrow> bool" where
  "kowns P s \<longleftrightarrow> (\<exists>xs. kfreelist xs s \<and> set xs = P)"

lemma kfreelist_distinct: "kfreelist xs s \<Longrightarrow> distinct xs"
  by (auto simp: kfreelist_def dest: flist_distinct)

lemma kowns_alloc:
  assumes "kowns P s" and "P \<noteq> {}"
  shows "wp kalloc (\<lambda>p t. p \<in> P \<and> p \<noteq> 0 \<and> kpage t p \<and> kowns (P - {p}) t) s"
proof -
  obtain ys where ys: "kfreelist ys s" "set ys = P"
    using assms(1) by (auto simp: kowns_def)
  with assms(2) obtain x xs where xs: "kfreelist (x # xs) s" "P = set (x # xs)"
    by (cases ys) auto
  then have "x \<notin> set xs" using kfreelist_distinct by fastforce
  then have P: "x \<in> P" "P - {x} = set xs" using xs(2) by auto
  have x: "kpage s x" using xs(1) by (simp add: kfreelist_def)
  then have "x \<noteq> 0" by (simp add: kpage_def)
  show ?thesis
  proof (rule wp_mono [OF wp_kalloc_Cons [OF xs(1)]])
    fix p t
    assume h: "p = x \<and> kfreelist xs t \<and> (\<exists>q. t = s\<lparr>km_freelist := q\<rparr>)"
    then have "kowns (P - {x}) t" unfolding kowns_def P(2) by blast
    moreover have "kpage t x" using h x by (auto simp: kpage_def)
    ultimately show "p \<in> P \<and> p \<noteq> 0 \<and> kpage t p \<and> kowns (P - {p}) t"
      using h P(1) \<open>x \<noteq> 0\<close> by blast
  qed
qed

lemma kowns_free:
  assumes "kowns P s" "kpage s p" "p \<notin> P"
  shows "wp (kfree p) (\<lambda>_ t. kowns (insert p P) t) s"
proof -
  obtain xs where "kfreelist xs s" "set xs = P"
    using assms(1) by (auto simp: kowns_def)
  with assms(2,3) have "wp (kfree p) (\<lambda>_ t. kfreelist (p # xs) t) s"
    by (intro wp_mono [OF wp_kfree]) auto
  then show ?thesis
    by (rule wp_mono) (use \<open>set xs = P\<close> in \<open>auto simp: kowns_def intro!: exI [of _ "p # xs"]\<close>)
qed

interpretation kpages: page_allocator kowns kpage kalloc kfree
proof unfold_locales
  fix P :: "ulong set" and s :: "'a kmem_st_scheme" and p
  show "kowns P s \<Longrightarrow> P \<noteq> {} \<Longrightarrow>
      wp kalloc (\<lambda>p t. p \<in> P \<and> p \<noteq> 0 \<and> kpage t p \<and> kowns (P - {p}) t) s"
    by (rule kowns_alloc)
  show "kowns {} s \<Longrightarrow> wp kalloc (\<lambda>p t. p = 0 \<and> t = s) s"
    by (auto simp: kowns_def intro: wp_kalloc_Nil)
  show "kowns P s \<Longrightarrow> kpage s p \<Longrightarrow> p \<notin> P \<Longrightarrow> wp (kfree p) (\<lambda>_ t. kowns (insert p P) t) s"
    by (rule kowns_free)
qed

section \<open>Filling the free list\<close>

text \<open>The pages \<open>p, p + PGSIZE, \<dots>\<close>, \<open>n\<close> of them.\<close>

definition page_run :: "ulong \<Rightarrow> nat \<Rightarrow> ulong list" where
  "page_run p n = map (\<lambda>i. p + of_nat (4096 * i)) [0..<n]"

lemma page_run_Suc: "page_run p (Suc n) = p # page_run (p + PGSIZE) n"
proof -
  have "[0..<Suc n] = 0 # map Suc [0..<n]"
    by (simp add: upt_conv_Cons map_Suc_upt del: upt_Suc)
  then show ?thesis
    by (simp add: page_run_def PGSIZE_def comp_def algebra_simps)
qed

lemma unat_next_page: "unat p + 4096 < 2 ^ 64 \<Longrightarrow> unat (p + PGSIZE) = unat p + 4096"
  using unat_add_no_wrap [of p PGSIZE] by (simp add: PGSIZE_def)

lemma PGALIGNED_next: "PGALIGNED p \<Longrightarrow> unat p + 4096 < 2 ^ 64 \<Longrightarrow> PGALIGNED (p + PGSIZE)"
  by (simp add: PGALIGNED_iff unat_next_page)

lemma page_run_later:
  assumes "q \<in> set (page_run p n)" and "unat p + 4096 * n < 2 ^ 64"
  shows "unat p \<le> unat q"
proof -
  obtain i where i: "i < n" "q = p + of_nat (4096 * i)"
    using assms(1) by (auto simp: page_run_def)
  then have "unat (of_nat (4096 * i) :: ulong) = 4096 * i"
    using assms(2) by (simp add: unat_of_nat del: of_nat_mult)
  moreover have "unat p + 4096 * i < 2 ^ 64"
    using i assms(2) by (meson add_left_mono le_less_trans less_imp_le mult_le_mono2)
  ultimately have "unat q = unat p + 4096 * i"
    using i unat_add_no_wrap [of p "of_nat (4096 * i)"] by (simp del: of_nat_mult)
  then show ?thesis by simp
qed

lemma wp_freerange_loop:
  assumes "kfreelist xs s" and "PGALIGNED p" and "km_end s \<le> p" and "p \<noteq> 0"
    and "n = (unat vend - unat p) div 4096" and "unat vend + 4096 < 2 ^ 64" and "unat p + 4096 < 2 ^ 64"
    and "set xs \<inter> set (page_run p n) = {}" and "n < fuel"
  shows "wp (freerange_loop fuel p vend) (\<lambda>_ t. kfreelist (rev (page_run p n) @ xs) t) s"
  using assms
proof (induction n arbitrary: p xs s fuel)
  case 0
  obtain f where "fuel = Suc f" using "0.prems"(9) by (cases fuel) auto
  moreover have "\<not> p + PGSIZE \<le> vend"
    using "0.prems"(5) unat_next_page [OF "0.prems"(7)]
    by (simp add: word_le_nat_alt div_eq_0_iff)
  ultimately show ?case using "0.prems"(1) by (simp add: page_run_def)
next
  case (Suc n)
  let ?q = "p + PGSIZE"
  obtain f where f: "fuel = Suc f" "n < f" using Suc.prems(9) by (cases fuel) auto
  have q: "unat ?q = unat p + 4096" by (rule unat_next_page [OF Suc.prems(7)])
  have "0 < (unat vend - unat p) div 4096" unfolding Suc.prems(5) [symmetric] by simp
  then have le: "unat p + 4096 \<le> unat vend" by (simp add: div_greater_zero_iff)
  have n: "n = (unat vend - unat ?q) div 4096"
    using Suc.prems(5) le unfolding q by (simp add: le_div_geq diff_diff_eq)
  have run: "page_run p (Suc n) = p # page_run ?q n" by (rule page_run_Suc)
  have "4096 * n \<le> unat vend - unat ?q" unfolding n by simp
  then have bound: "unat ?q + 4096 * n < 2 ^ 64" using Suc.prems(6) le q by linarith
  have fresh: "p \<notin> set (page_run ?q n)"
    using page_run_later [OF _ bound] q by fastforce
  have "wp (kfree p) (\<lambda>_ t. wp (freerange_loop f ?q vend)
      (\<lambda>_ u. kfreelist (rev (page_run ?q n) @ p # xs) u) t) s"
  proof (rule wp_mono [OF wp_kfree])
    show "kfreelist xs s" "kpage s p" "p \<notin> set xs"
      using Suc.prems run by (auto simp: kpage_def)
  next
    fix r t
    assume t: "kfreelist (p # xs) t \<and>
      (\<exists>m. same_outside p (km_mem s) m \<and> t = s\<lparr>km_mem := m, km_freelist := p\<rparr>)"
    have "?q \<noteq> 0" using q by auto
    moreover have "km_end t \<le> ?q" using t Suc.prems(3) q by (auto simp: word_le_nat_alt)
    moreover have "PGALIGNED ?q" using Suc.prems by (intro PGALIGNED_next)
    moreover have "unat ?q + 4096 < 2 ^ 64" using q le Suc.prems(6) by linarith
    moreover have "set (p # xs) \<inter> set (page_run ?q n) = {}"
      using Suc.prems(8) fresh run by auto
    ultimately show "wp (freerange_loop f ?q vend)
        (\<lambda>_ u. kfreelist (rev (page_run ?q n) @ p # xs) u) t"
      using t n Suc.prems(6) f(2) by (intro Suc.IH) auto
  qed
  then show ?case
    using f(1) le q run by (simp add: word_le_nat_alt)
qed

lemma unat_page_run_nth:
  fixes p :: ulong
  assumes "unat p + 4096 * i < 2 ^ 64"
  shows "unat (p + of_nat (4096 * i)) = unat p + 4096 * i"
proof -
  have "unat (of_nat (4096 * i) :: ulong) = 4096 * i"
    using assms by (simp add: unat_of_nat del: of_nat_mult)
  then show ?thesis
    using assms unat_add_no_wrap [of p "of_nat (4096 * i)"] by (simp del: of_nat_mult)
qed

lemma set_page_run:
  assumes "PGALIGNED p" and "n = (unat vend - unat p) div 4096" and "unat vend + 4096 < 2 ^ 64"
    and "unat p + 4096 < 2 ^ 64"
  shows "set (page_run p n) = {q. PGALIGNED q \<and> p \<le> q \<and> unat q + 4096 \<le> unat vend}"
proof (rule set_eqI)
  fix q
  have n: "4096 * n \<le> unat vend - unat p" unfolding assms(2) by simp
  show "q \<in> set (page_run p n) \<longleftrightarrow> q \<in> {q. PGALIGNED q \<and> p \<le> q \<and> unat q + 4096 \<le> unat vend}"
  proof
    assume "q \<in> set (page_run p n)"
    then obtain i where i: "i < n" "q = p + of_nat (4096 * i)"
      by (auto simp: page_run_def)
    then have "4096 * i + 4096 \<le> unat vend - unat p" using n by simp
    moreover from this have "unat q = unat p + 4096 * i"
      unfolding i(2) using assms(3) by (intro unat_page_run_nth) linarith
    ultimately show "q \<in> {q. PGALIGNED q \<and> p \<le> q \<and> unat q + 4096 \<le> unat vend}"
      using assms(1) by (simp add: PGALIGNED_iff word_le_nat_alt)
  next
    assume "q \<in> {q. PGALIGNED q \<and> p \<le> q \<and> unat q + 4096 \<le> unat vend}"
    then have q: "unat q mod 4096 = 0" "unat p \<le> unat q" "unat q + 4096 \<le> unat vend"
      by (simp_all add: PGALIGNED_iff word_le_nat_alt)
    define i where "i = (unat q - unat p) div 4096"
    have "(unat q - unat p) mod 4096 = 0"
      using q(1,2) assms(1) by (simp add: PGALIGNED_iff dvd_diff_nat flip: dvd_eq_mod_eq_0)
    then have uq: "unat q = unat p + 4096 * i" using q(2) by (auto simp: i_def)
    then have "4096 * Suc i \<le> unat vend - unat p" using q(3) by simp
    then have "Suc i \<le> n" unfolding assms(2) by (simp add: less_eq_div_iff_mult_less_eq)
    moreover have "q = p + of_nat (4096 * i)"
      unfolding word_unat_eq_iff using uq q(3) assms(3)
      by (subst unat_page_run_nth) (simp_all del: of_nat_mult)
    ultimately show "q \<in> set (page_run p n)" by (simp add: page_run_def del: of_nat_mult)
  qed
qed

lemma unat_PGROUNDUP:
  assumes "unat v + 4096 < 2 ^ 64"
  shows "unat (PGROUNDUP v) = (unat v + 4095) div 4096 * 4096"
proof -
  have "v + PGSIZE - 1 = v + 4095" by (simp add: PGSIZE_def)
  moreover have "unat (v + 4095) = unat v + 4095"
    using assms unat_add_no_wrap [of v 4095] by simp
  ultimately show ?thesis
    using unat_PGROUNDDOWN [of "v + PGSIZE - 1"]
    by (simp only: PGROUNDUP_def PGROUNDDOWN_def)
qed

lemma PGROUNDUP_least:
  assumes "unat v + 4096 < 2 ^ 64"
  shows "PGALIGNED (PGROUNDUP v)" "v \<le> PGROUNDUP v"
    "PGALIGNED q \<Longrightarrow> v \<le> q \<longleftrightarrow> PGROUNDUP v \<le> q"
proof -
  let ?k = "(unat v + 4095) div 4096"
  have up: "unat (PGROUNDUP v) = ?k * 4096" by (rule unat_PGROUNDUP [OF assms])
  show "PGALIGNED (PGROUNDUP v)" by (simp add: PGALIGNED_iff up)
  have k: "unat v \<le> ?k * 4096" by simp
  then show "v \<le> PGROUNDUP v" by (simp add: word_le_nat_alt up)
  show "v \<le> q \<longleftrightarrow> PGROUNDUP v \<le> q" if "PGALIGNED q"
  proof -
    obtain b where b: "unat q = 4096 * b" using \<open>PGALIGNED q\<close> by (auto simp: PGALIGNED_iff)
    have "?k < Suc b \<longleftrightarrow> unat v + 4095 < Suc b * 4096" by (rule div_less_iff_less_mult) simp
    then have "unat v \<le> 4096 * b \<longleftrightarrow> ?k \<le> b" by (simp add: less_Suc_eq_le mult.commute)
    then show ?thesis by (simp add: word_le_nat_alt up b mult.commute)
  qed
qed

text \<open>C8: \<^verbatim>\<open>freerange\<close> ends, and adds to the free list exactly the whole pages that lie between
  \<open>vstart\<close> and \<open>vend\<close>: nothing is lost by rounding but the partial pages at both ends.\<close>

theorem freerange_frees:
  assumes "kfreelist xs s" and "km_end s \<le> vstart" and "vstart \<noteq> 0"
    and "unat vstart + 8192 < 2 ^ 64" and "unat vend + 4096 < 2 ^ 64"
    and "\<forall>p \<in> set xs. \<not> (vstart \<le> p \<and> p < vend)"
  shows "wp (freerange vstart vend) (\<lambda>_ t. \<exists>ys. kfreelist (ys @ xs) t \<and>
    set ys = {p. PGALIGNED p \<and> vstart \<le> p \<and> unat p + 4096 \<le> unat vend}) s"
proof -
  let ?p = "PGROUNDUP vstart"
  define n where "n = (unat vend - unat ?p) div 4096"
  have small: "unat vstart + 4096 < 2 ^ 64" using assms(4) by simp
  note p = PGROUNDUP_least [OF small]
  have up: "unat ?p + 4096 < 2 ^ 64"
    using assms(4) unat_PGROUNDUP [OF small] div_times_less_eq_dividend [of "unat vstart + 4095" 4096] by linarith
  have pages: "set (page_run ?p n) = {q. PGALIGNED q \<and> vstart \<le> q \<and> unat q + 4096 \<le> unat vend}"
    using set_page_run [OF p(1) n_def assms(5) up] p(3) by auto
  have "q < vend" if "unat q + 4096 \<le> unat vend" for q
    using that by (simp add: word_less_nat_alt)
  then have disj: "set xs \<inter> set (page_run ?p n) = {}"
    unfolding pages using assms(6) by blast
  have "n \<le> unat vend div 4096" unfolding n_def by (rule div_le_mono) simp
  also have "unat vend div 4096 < 2 ^ 52" using unat_lt [of vend] by simp
  finally have fuel: "n < 2 ^ 52 + 1" by linarith
  have end_le: "km_end s \<le> ?p" using assms(2) p(2) by (rule order_trans)
  have "?p \<noteq> 0"
  proof
    assume "?p = 0"
    with p(2) have "vstart = 0" by (simp add: word_le_nat_alt unat_0_iff)
    with assms(3) show False ..
  qed
  then have "wp (freerange_loop (2 ^ 52 + 1) ?p vend)
      (\<lambda>_ t. kfreelist (rev (page_run ?p n) @ xs) t) s"
    by (rule wp_freerange_loop [OF assms(1) p(1) end_le _ n_def assms(5) up disj fuel])
  then show ?thesis
    unfolding freerange_def
    by (rule wp_mono) (rule exI [of _ "rev (page_run ?p n)"], simp only: set_rev pages simp_thms)
qed

theorem freerange_frees_witness:
  "wp (freerange 0xffff800000100800 0xffff800000104000) (\<lambda>_ t. \<exists>ys. kfreelist (ys @ []) t \<and>
    set ys = {p. PGALIGNED p \<and> 0xffff800000100800 \<le> p \<and>
      unat p + 4096 \<le> unat (0xffff800000104000 :: ulong)})
    \<lparr>held = {}, km_use_lock = False, km_freelist = 0, km_mem = (\<lambda>_. 0), km_end = 0xffff800000100000,
      km_kmap = [], km_cur = 0\<rparr>"
  by (rule freerange_frees) (simp_all add: kfreelist_def)

text \<open>C9: Allocating a page and freeing it again leaves the allocator with exactly the free pages it
  had, and the allocation returned one of them.\<close>

theorem kalloc_kfree_roundtrip:
  assumes "kowns P s" and "P \<noteq> {}"
  shows "wp (bind kalloc kfree) (\<lambda>_ t. kowns P t) s"
  using assms by (rule kpages.alloc_free)

text \<open>A concrete allocator with two free pages.\<close>

definition kmem_demo :: kmem_st where
  "kmem_demo = \<lparr>held = {}, km_use_lock = True, km_freelist = 0x1000,
     km_mem = store64 (\<lambda>_. 0) 0x1000 0x3000, km_end = 0x1000, km_kmap = [], km_cur = 0\<rparr>"

lemma kmem_demo_owns: "kowns {0x1000, 0x3000} kmem_demo"
proof -
  have "load64 (store64 (\<lambda>_. 0) 0x1000 0x3000) 0x3000 = 0" by code_simp
  then show ?thesis
    unfolding kowns_def kmem_demo_def
    by (intro exI [of _ "[0x1000, 0x3000]"]) (simp add: kfreelist_def kpage_def PGALIGNED_iff)
qed

theorem kalloc_kfree_roundtrip_witness:
  "kowns {0x1000, 0x3000} kmem_demo \<and>
   wp (bind kalloc kfree) (\<lambda>_ t. kowns {0x1000, 0x3000} t) kmem_demo"
  using kmem_demo_owns kalloc_kfree_roundtrip [OF kmem_demo_owns] by simp

text \<open>C10: While pages are free, \<^verbatim>\<open>kalloc\<close> never returns a null pointer, and two allocations in a row
  never return the same page.\<close>

theorem kalloc_distinct:
  assumes "kowns P s" and "P \<noteq> {}"
  shows "wp (bind kalloc (\<lambda>p. bind kalloc (\<lambda>q. ret (p, q)))) (\<lambda>(p, q) t. p \<noteq> 0 \<and> p \<noteq> q) s"
  using assms by (rule kpages.allocs_distinct)

theorem kalloc_distinct_witness:
  "wp (bind kalloc (\<lambda>p. bind kalloc (\<lambda>q. ret (p, q)))) (\<lambda>(p, q) t. p \<noteq> 0 \<and> p \<noteq> q) kmem_demo"
  using kalloc_distinct [OF kmem_demo_owns] by simp

section \<open>The table of kernel mappings\<close>

text \<open>
  \<^verbatim>\<open>kmap_add\<close> lets the table fill up completely. The loops over the table stop at an empty
  entry, so once all \<open>KMAP_MAX_SIZE\<close> entries are in use they read past its end.
\<close>

lemma kmap_add_full: "KMAP_MAX_SIZE \<le> km_cur s \<Longrightarrow> kmap_add a b p h s = Inl (Panic ''Too many kmap entries'')"
  by (simp add: kmap_add_def kop_defs)

lemma kinit1_loop_full:
  "(\<And>km. km \<in> set kms \<Longrightarrow> phys_end km \<noteq> 0 \<and> \<not> heap km) \<Longrightarrow> kinit1_loop kms s = Inl Fault"
  by (induction kms) (simp_all add: kop_defs)

theorem kinit1_full_table:
  assumes "length (km_kmap s) = KMAP_MAX_SIZE" and "\<forall>km \<in> set (km_kmap s). phys_end km \<noteq> 0 \<and> \<not> heap km"
  shows "kinit1 s = Inl Fault"
  using kinit1_loop_full [of "km_kmap s"] assms(2) by (simp add: kinit1_def initlock_def kop_defs)

end
