(* ===== verification/Sched.thy ===== *)
theory Sched
  imports Kalloc
begin

text \<open>
  The process table of \<^verbatim>\<open>kernel/proc.c\<close> and the operations on it that the rest of the kernel waits
  with: \<^verbatim>\<open>myproc\<close>, \<^verbatim>\<open>sched\<close>, \<^verbatim>\<open>sleep\<close>, \<^verbatim>\<open>wakeup\<close>, \<^verbatim>\<open>yield\<close>, \<^verbatim>\<open>kill\<close> and the scheduler's
  choice. The sleep locks of \<^verbatim>\<open>kernel/sleeplock.c\<close> are built on them. A process is its index in
  \<^verbatim>\<open>ptable.proc\<close>; a wait channel, an address in C, names the object that has the address.
\<close>

section \<open>Processes\<close>

datatype procstate = UNUSED | EMBRYO | SLEEPING | RUNNABLE | RUNNING | ZOMBIE

datatype chan = Ch_buf nat | Ch_buflock nat | Ch_inodelock nat | Ch_log | Ch_ticks | Ch_proc nat
  | Ch_nread nat | Ch_nwrite nat | Ch_input

record trapframe =
  tf_gs :: ushort
  tf_fs :: ushort
  tf_es :: ushort
  tf_ds :: ushort
  tf_r9 :: ulong
  tf_r8 :: ulong
  tf_rcx :: ulong
  tf_rdx :: ulong
  tf_rsi :: ulong
  tf_rdi :: ulong
  tf_rax :: ulong
  tf_r15 :: ulong
  tf_r14 :: ulong
  tf_r13 :: ulong
  tf_r12 :: ulong
  tf_rbp :: ulong
  tf_rbx :: ulong
  tf_trapno :: uint
  tf_err :: ulong
  tf_rip :: ulong
  tf_cs :: ushort
  tf_rflags :: ulong
  tf_rsp :: ulong
  tf_ss :: ushort

record proc =
  p_sz :: ulong
  p_pml4 :: ulong
  p_kstack :: ulong
  p_state :: procstate
  p_pid :: int
  p_parent :: "nat option"
  p_tf :: trapframe
  p_context :: ulong
  p_chan :: "chan option"
  p_killed :: bool
  p_ofile :: "nat option list"
  p_cwd :: "nat option"
  p_name :: "byte list"

definition NPROC :: nat where "NPROC = 64"
definition NOFILE :: nat where "NOFILE = 16"

text \<open>
  The running CPU's view: the table, the next pid, the first process, and \<open>cur\<close>, the process the
  CPU runs (\<^verbatim>\<open>mycpu()->proc\<close>).
\<close>

record proc_st = kmem_st +
  procs :: "proc list"
  nextpid :: int
  initproc :: "nat option"
  cur :: "nat option"

definition upd_proc :: "nat \<Rightarrow> (proc \<Rightarrow> proc) \<Rightarrow> 'a proc_st_scheme \<Rightarrow> 'a proc_st_scheme" where
  "upd_proc i f s = s\<lparr>procs := (procs s)[i := f (procs s ! i)]\<rparr>"

definition pinit :: "('a proc_st_scheme, unit) kop" where
  "pinit = initlock ''ptable''"

definition myproc :: "('a proc_st_scheme, nat option) kop" where
  "myproc = gets cur"

text \<open>\<^verbatim>\<open>myproc()->f\<close>, which faults when the CPU runs no process.\<close>

definition curproc :: "('a proc_st_scheme, nat) kop" where
  "curproc = bind myproc (\<lambda>p. case p of None \<Rightarrow> fail Fault | Some i \<Rightarrow> ret i)"

section \<open>Sleeping and waking\<close>

text \<open>
  \<^verbatim>\<open>sched\<close> checks that the process holds \<^verbatim>\<open>ptable.lock\<close> and no other lock (\<^verbatim>\<open>ncli\<close> counts the
  locks held) and has left the state RUNNING; then it switches to the scheduler, and the process goes
  on only when somebody makes it RUNNABLE and it is picked again.
\<close>

definition sched_check :: "('a proc_st_scheme, unit) kop" where
  "sched_check =
     bind curproc (\<lambda>p.
     bind (gets held) (\<lambda>H.
     if ''ptable'' \<notin> H then panic ''sched ptable.lock''
     else if H \<noteq> {''ptable''} then panic ''sched locks''
     else bind (gets (\<lambda>s. p_state (procs s ! p))) (\<lambda>st.
       if st = RUNNING then panic ''sched running'' else skip)))"

definition sched :: "('a proc_st_scheme, unit) kop" where
  "sched = andthen sched_check (fail Blocked)"

definition sleep_enter :: "chan \<Rightarrow> string \<Rightarrow> ('a proc_st_scheme, unit) kop" where
  "sleep_enter ch lk =
     bind myproc (\<lambda>pp.
     case pp of None \<Rightarrow> panic ''sleep''
     | Some p \<Rightarrow>
         andthen (whenK (lk \<noteq> ''ptable'') (andthen (acquire ''ptable'') (release lk)))
           (modify (upd_proc p (\<lambda>x. x\<lparr>p_chan := Some ch, p_state := SLEEPING\<rparr>))))"

definition sleep_exit :: "string \<Rightarrow> ('a proc_st_scheme, unit) kop" where
  "sleep_exit lk =
     bind curproc (\<lambda>p.
     andthen (modify (upd_proc p (\<lambda>x. x\<lparr>p_chan := None\<rparr>)))
       (whenK (lk \<noteq> ''ptable'') (andthen (release ''ptable'') (acquire lk))))"

definition sleep :: "chan \<Rightarrow> string \<Rightarrow> ('a proc_st_scheme, unit) kop" where
  "sleep ch lk = andthen (sleep_enter ch lk) (andthen sched (sleep_exit lk))"

definition wake :: "chan \<Rightarrow> proc \<Rightarrow> proc" where
  "wake ch p = (if p_state p = SLEEPING \<and> p_chan p = Some ch then p\<lparr>p_state := RUNNABLE\<rparr> else p)"

definition wakeup1 :: "chan \<Rightarrow> ('a proc_st_scheme, unit) kop" where
  "wakeup1 ch = modify (\<lambda>s. s\<lparr>procs := map (wake ch) (procs s)\<rparr>)"

definition wakeup :: "chan \<Rightarrow> ('a proc_st_scheme, unit) kop" where
  "wakeup ch = andthen (acquire ''ptable'') (andthen (wakeup1 ch) (release ''ptable''))"

definition yield :: "('a proc_st_scheme, unit) kop" where
  "yield =
     andthen (acquire ''ptable'')
       (bind curproc (\<lambda>p.
        andthen (modify (upd_proc p (\<lambda>x. x\<lparr>p_state := RUNNABLE\<rparr>)))
          (andthen sched (release ''ptable''))))"

text \<open>The search of \<^verbatim>\<open>kill\<close>: the first slot of the table with that pid, whatever its state.\<close>

definition find_proc :: "(proc \<Rightarrow> bool) \<Rightarrow> proc list \<Rightarrow> nat option" where
  "find_proc P ps = find (\<lambda>i. P (ps ! i)) [0..<length ps]"

definition kill :: "int \<Rightarrow> ('a proc_st_scheme, int) kop" where
  "kill pid =
     andthen (acquire ''ptable'')
       (bind (gets (\<lambda>s. find_proc (\<lambda>p. p_pid p = pid) (procs s))) (\<lambda>r.
        case r of
          Some i \<Rightarrow>
            andthen (modify (upd_proc i (\<lambda>p. p\<lparr>p_killed := True\<rparr>)))
           (andthen (modify (upd_proc i (\<lambda>p. if p_state p = SLEEPING then p\<lparr>p_state := RUNNABLE\<rparr> else p)))
           (andthen (release ''ptable'') (ret 0)))
        | None \<Rightarrow> andthen (release ''ptable'') (ret (- 1))))"

text \<open>
  One turn of the scheduler's inner loop at slot \<open>i\<close>, with \<^verbatim>\<open>ptable.lock\<close> held: a RUNNABLE process
  becomes the one that runs. What the process then does, up to its own call of \<^verbatim>\<open>sched\<close>, is the
  parameter \<open>run\<close>; when it comes back the CPU runs no process.
\<close>

definition scheduler_slot :: "(nat \<Rightarrow> ('a proc_st_scheme, unit) kop) \<Rightarrow> nat \<Rightarrow> ('a proc_st_scheme, unit) kop" where
  "scheduler_slot run i =
     bind (gets (\<lambda>s. p_state (procs s ! i))) (\<lambda>st.
     if st \<noteq> RUNNABLE then skip
     else andthen (modify (\<lambda>s. s\<lparr>cur := Some i\<rparr>))
         (andthen (modify (upd_proc i (\<lambda>p. p\<lparr>p_state := RUNNING\<rparr>)))
         (andthen (run i)
                  (modify (\<lambda>s. s\<lparr>cur := None\<rparr>)))))"

definition scheduler_round :: "(nat \<Rightarrow> ('a proc_st_scheme, unit) kop) \<Rightarrow> ('a proc_st_scheme, unit) kop" where
  "scheduler_round run =
     andthen (acquire ''ptable'')
       (andthen (forK (scheduler_slot run) [0..<NPROC]) (release ''ptable''))"

section \<open>What waking changes\<close>

lemma wp_wakeup [wp_simps, simp]:
  "wp (wakeup ch) Q = (\<lambda>s. ''ptable'' \<notin> held s \<and> Q () (s\<lparr>procs := map (wake ch) (procs s)\<rparr>))"
  by (auto simp: wakeup_def wakeup1_def fun_eq_iff)

text \<open>
  Sequential kernel code may wake others and never changes anything else of the table: \<open>same_procs\<close>
  relates two states whose tables differ only in processes woken up.
\<close>

definition asleep_core :: "proc \<Rightarrow> proc" where
  "asleep_core p = (if p_state p = SLEEPING then p\<lparr>p_state := RUNNABLE\<rparr> else p)"

definition same_procs :: "'a proc_st_scheme \<Rightarrow> 'b proc_st_scheme \<Rightarrow> bool" where
  "same_procs s t \<longleftrightarrow> held t = held s \<and> cur t = cur s \<and>
     map asleep_core (procs t) = map asleep_core (procs s)"

lemma asleep_core_wake [simp]: "asleep_core (wake ch p) = asleep_core p"
  by (simp add: asleep_core_def wake_def)

lemma same_procs_refl [simp, intro]: "same_procs s s"
  by (simp add: same_procs_def)

lemma same_procs_trans: "same_procs s t \<Longrightarrow> same_procs t u \<Longrightarrow> same_procs s u"
  by (simp add: same_procs_def)

lemma same_procs_held: "same_procs s t \<Longrightarrow> held t = held s"
  by (simp add: same_procs_def)

lemma same_procs_cur: "same_procs s t \<Longrightarrow> cur t = cur s"
  by (simp add: same_procs_def)

lemma same_procs_nth:
  assumes "same_procs s t"
  shows "length (procs t) = length (procs s)"
    and "i < length (procs s) \<Longrightarrow> asleep_core (procs t ! i) = asleep_core (procs s ! i)"
proof -
  have eq: "map asleep_core (procs t) = map asleep_core (procs s)" using assms by (simp add: same_procs_def)
  then show len: "length (procs t) = length (procs s)" by (rule map_eq_imp_length_eq)
  show "asleep_core (procs t ! i) = asleep_core (procs s ! i)" if "i < length (procs s)"
    using that len arg_cong [OF eq, of "\<lambda>xs. xs ! i"] by simp
qed

lemma asleep_core_fields:
  assumes "asleep_core p = asleep_core q"
  shows "p_pid p = p_pid q" "p_cwd p = p_cwd q" "p_ofile p = p_ofile q" "p_killed p = p_killed q"
    "p_sz p = p_sz q" "p_pml4 p = p_pml4 q" "p_tf p = p_tf q" "p_parent p = p_parent q"
  using assms by (auto simp: asleep_core_def split: if_splits dest: arg_cong [of _ _ p_pid]
    arg_cong [of _ _ p_cwd] arg_cong [of _ _ p_ofile] arg_cong [of _ _ p_killed]
    arg_cong [of _ _ p_sz] arg_cong [of _ _ p_pml4] arg_cong [of _ _ p_tf] arg_cong [of _ _ p_parent])

text \<open>A process for concrete states: pid 1, running.\<close>

definition tf_zero :: trapframe where
  "tf_zero = \<lparr>tf_gs = 0, tf_fs = 0, tf_es = 0, tf_ds = 0, tf_r9 = 0, tf_r8 = 0, tf_rcx = 0, tf_rdx = 0,
     tf_rsi = 0, tf_rdi = 0, tf_rax = 0, tf_r15 = 0, tf_r14 = 0, tf_r13 = 0, tf_r12 = 0, tf_rbp = 0, tf_rbx = 0,
     tf_trapno = 0, tf_err = 0, tf_rip = 0, tf_cs = 0, tf_rflags = 0, tf_rsp = 0, tf_ss = 0\<rparr>"

definition proc_demo :: proc where
  "proc_demo = \<lparr>p_sz = 0x4000, p_pml4 = 0x1000, p_kstack = 0x2000, p_state = RUNNING, p_pid = 1, p_parent = None,
     p_tf = tf_zero, p_context = 0x2f00, p_chan = None, p_killed = False, p_ofile = replicate NOFILE None, p_cwd = Some 0,
     p_name = replicate 16 0\<rparr>"

end
