(* ===== verification/Sleeplock.thy ===== *)
theory Sleeplock
  imports Sched
begin

text \<open>
  \<^verbatim>\<open>kernel/sleeplock.c\<close>: locks a process may hold across disk operations. A sleep lock is a field of
  a buffer or of an inode; the operations take the field as a pair of a read and an update function,
  as the C functions take its address.
\<close>

record sleeplock =
  sl_locked :: bool
  sl_pid :: int

section \<open>Operations\<close>

definition initsleeplock :: "((sleeplock \<Rightarrow> sleeplock) \<Rightarrow> 'a proc_st_scheme \<Rightarrow> 'a proc_st_scheme) \<Rightarrow>
    ('a proc_st_scheme, unit) kop" where
  "initsleeplock upd =
     andthen (initlock ''sleep lock'') (modify (upd (\<lambda>_. \<lparr>sl_locked = False, sl_pid = 0\<rparr>)))"

text \<open>
  The loop \<^verbatim>\<open>while (lk->locked) sleep(lk, &lk->lk)\<close> gives up the CPU at its first turn when the lock
  is taken; a run of the process on its own goes no further.
\<close>

definition acquiresleep :: "chan \<Rightarrow> ('a proc_st_scheme \<Rightarrow> sleeplock) \<Rightarrow>
    ((sleeplock \<Rightarrow> sleeplock) \<Rightarrow> 'a proc_st_scheme \<Rightarrow> 'a proc_st_scheme) \<Rightarrow> ('a proc_st_scheme, unit) kop" where
  "acquiresleep ch get upd =
     andthen (acquire ''sleep lock'')
    (bind (gets get) (\<lambda>lk.
     andthen (whenK (sl_locked lk) (sleep ch ''sleep lock''))
    (bind curproc (\<lambda>p.
     bind (gets (\<lambda>s. p_pid (procs s ! p))) (\<lambda>pid.
     andthen (modify (upd (\<lambda>_. \<lparr>sl_locked = True, sl_pid = pid\<rparr>)))
       (release ''sleep lock''))))))"

definition releasesleep :: "chan \<Rightarrow>
    ((sleeplock \<Rightarrow> sleeplock) \<Rightarrow> 'a proc_st_scheme \<Rightarrow> 'a proc_st_scheme) \<Rightarrow> ('a proc_st_scheme, unit) kop" where
  "releasesleep ch upd =
     andthen (acquire ''sleep lock'')
    (andthen (modify (upd (\<lambda>_. \<lparr>sl_locked = False, sl_pid = 0\<rparr>)))
    (andthen (wakeup ch)
       (release ''sleep lock'')))"

definition holdingsleep :: "('a proc_st_scheme \<Rightarrow> sleeplock) \<Rightarrow> ('a proc_st_scheme, bool) kop" where
  "holdingsleep get =
     andthen (acquire ''sleep lock'')
    (bind (gets get) (\<lambda>lk.
     bind (if sl_locked lk
           then bind curproc (\<lambda>p. gets (\<lambda>s. sl_pid lk = p_pid (procs s ! p)))
           else ret False) (\<lambda>r.
     andthen (release ''sleep lock'') (ret r))))"

section \<open>Their effect on the lock's field\<close>

definition my_pid :: "'a proc_st_scheme \<Rightarrow> int" where
  "my_pid s = p_pid (procs s ! the (cur s))"

lemma same_procs_my_pid:
  assumes "same_procs s t" and "cur s = Some p" and "p < length (procs s)"
  shows "my_pid t = my_pid s"
  using assms asleep_core_fields(1) [OF same_procs_nth(2) [OF assms(1,3)]]
  by (simp add: my_pid_def same_procs_cur)

lemma wp_curproc [wp_simps, simp]:
  "wp curproc Q = (\<lambda>s. case cur s of None \<Rightarrow> False | Some p \<Rightarrow> Q p s)"
  by (simp add: curproc_def myproc_def fun_eq_iff split: option.splits)

lemma wp_sched [wp_simps, simp]: "wp sched Q = (\<lambda>s. False)"
proof -
  have "wp f (\<lambda>_ _. False) = (\<lambda>s. False)" for f :: "('b, 'c) kop"
    by (auto simp: wp_def fun_eq_iff split: sum.splits)
  then show ?thesis by (simp add: sched_def)
qed

lemma wp_sleep [wp_simps, simp]: "wp (sleep ch lk) Q = (\<lambda>s. False)"
proof -
  have "wp f (\<lambda>_ _. False) = (\<lambda>s. False)" for f :: "('b, 'c) kop"
    by (auto simp: wp_def fun_eq_iff split: sum.splits)
  then show ?thesis by (simp add: sleep_def)
qed

text \<open>
  What the operations need of the field: reading and updating it does not interfere with the CPU's
  locks and the process table.
\<close>

locale sleeplock_field =
  fixes get :: "'a proc_st_scheme \<Rightarrow> sleeplock"
    and upd :: "(sleeplock \<Rightarrow> sleeplock) \<Rightarrow> 'a proc_st_scheme \<Rightarrow> 'a proc_st_scheme"
  assumes get_held: "get (s\<lparr>held := H\<rparr>) = get s"
    and upd_held: "upd f (s\<lparr>held := H\<rparr>) = (upd f s)\<lparr>held := H\<rparr>"
    and held_upd: "held (upd f s) = held s"
    and cur_upd: "cur (upd f s) = cur s"
    and procs_upd: "procs (upd f s) = procs s"
begin

lemma held_same: "(upd f s)\<lparr>held := held s\<rparr> = upd f s" "(upd f s)\<lparr>procs := ps, held := held s\<rparr> = (upd f s)\<lparr>procs := ps\<rparr>"
proof -
  have "t\<lparr>held := held t\<rparr> = t" "t\<lparr>procs := ps, held := held t\<rparr> = t\<lparr>procs := ps\<rparr>" for t :: "'a proc_st_scheme"
    by simp_all
  from this [of "upd f s"] show "(upd f s)\<lparr>held := held s\<rparr> = upd f s"
    "(upd f s)\<lparr>procs := ps, held := held s\<rparr> = (upd f s)\<lparr>procs := ps\<rparr>"
    by (simp_all only: held_upd)
qed

lemma wp_acquiresleep:
  "wp (acquiresleep ch get upd) Q s \<longleftrightarrow>
     ''sleep lock'' \<notin> held s \<and> cur s \<noteq> None \<and> \<not> sl_locked (get s) \<and>
     Q () (upd (\<lambda>_. \<lparr>sl_locked = True, sl_pid = my_pid s\<rparr>) s)"
  by (auto simp: acquiresleep_def get_held upd_held held_upd my_pid_def held_same split: option.splits)

lemma wp_releasesleep:
  "wp (releasesleep ch upd) Q s \<longleftrightarrow>
     ''sleep lock'' \<notin> held s \<and> ''ptable'' \<notin> held s \<and>
     Q () ((upd (\<lambda>_. \<lparr>sl_locked = False, sl_pid = 0\<rparr>) s)\<lparr>procs := map (wake ch) (procs s)\<rparr>)"
  by (auto simp: releasesleep_def upd_held held_upd procs_upd held_same)

lemma wp_holdingsleep:
  "wp (holdingsleep get) Q s \<longleftrightarrow>
     ''sleep lock'' \<notin> held s \<and> (sl_locked (get s) \<longrightarrow> cur s \<noteq> None) \<and>
     Q (sl_locked (get s) \<and> sl_pid (get s) = my_pid s) s"
  by (auto simp: holdingsleep_def get_held my_pid_def split: option.splits)

end

end
