(* ===== verification/Bio.thy ===== *)
theory Bio
  imports Sleeplock
begin

text \<open>
  \<^verbatim>\<open>kernel/bio.c\<close>, the buffer cache, on the memory-backed disk driver
  \<^verbatim>\<open>kernel/ide/memide.c\<close>. The buffers are a list, a buffer pointer is an index; index \<open>NBUF\<close> is
  \<^verbatim>\<open>bcache.head\<close>. The disk is a function from block numbers to blocks; \<open>dwrites\<close> records the
  writes that reached it, in order, for the crash theorems of the log.
\<close>

declare One_nat_def [simp del]

section \<open>State\<close>

definition NBUF :: nat where "NBUF = 30"
definition BSIZE :: nat where "BSIZE = 512"

definition B_VALID :: uint where "B_VALID = 2"
definition B_DIRTY :: uint where "B_DIRTY = 4"

record buf =
  b_flags :: uint
  b_dev :: nat
  b_blockno :: nat
  b_lock :: sleeplock
  b_refcnt :: int
  b_prev :: nat
  b_next :: nat
  b_data :: "byte list"

record bio_st = proc_st +
  bufs :: "buf list"
  disk :: "nat \<Rightarrow> byte list"
  disksize :: nat
  dwrites :: "(nat \<times> byte list) list"

definition upd_buf :: "nat \<Rightarrow> (buf \<Rightarrow> buf) \<Rightarrow> 'a bio_st_scheme \<Rightarrow> 'a bio_st_scheme" where
  "upd_buf i f s = s\<lparr>bufs := (bufs s)[i := f (bufs s ! i)]\<rparr>"

definition get_buf_lock :: "nat \<Rightarrow> 'a bio_st_scheme \<Rightarrow> sleeplock" where
  "get_buf_lock i s = b_lock (bufs s ! i)"

definition upd_buf_lock :: "nat \<Rightarrow> (sleeplock \<Rightarrow> sleeplock) \<Rightarrow> 'a bio_st_scheme \<Rightarrow> 'a bio_st_scheme" where
  "upd_buf_lock i f = upd_buf i (\<lambda>b. b\<lparr>b_lock := f (b_lock b)\<rparr>)"

section \<open>The disk driver\<close>

definition iderw :: "nat \<Rightarrow> ('a bio_st_scheme, unit) kop" where
  "iderw i =
     bind (holdingsleep (get_buf_lock i)) (\<lambda>h.
     if \<not> h then panic ''iderw: buf not locked''
     else bind (gets (\<lambda>s. bufs s ! i)) (\<lambda>b.
     if b_flags b AND (B_VALID OR B_DIRTY) = B_VALID then panic ''iderw: nothing to do''
     else if b_dev b \<noteq> 1 then panic ''iderw: request not for disk 1''
     else bind (gets disksize) (\<lambda>n.
     if b_blockno b \<ge> n then panic ''iderw: block out of range''
     else
       andthen
         (if b_flags b AND B_DIRTY \<noteq> 0
          then andthen (modify (upd_buf i (\<lambda>b. b\<lparr>b_flags := b_flags b AND NOT B_DIRTY\<rparr>)))
                 (modify (\<lambda>s. s\<lparr>disk := (disk s)(b_blockno b := b_data b),
                                dwrites := dwrites s @ [(b_blockno b, b_data b)]\<rparr>))
          else modify (\<lambda>s. upd_buf i (\<lambda>x. x\<lparr>b_data := disk s (b_blockno b)\<rparr>) s))
         (modify (upd_buf i (\<lambda>b. b\<lparr>b_flags := b_flags b OR B_VALID\<rparr>))))))"

section \<open>The cache\<close>

text \<open>One turn of the loop of \<^verbatim>\<open>binit\<close>, and the loop.\<close>

definition binit_buf :: "nat \<Rightarrow> ('a bio_st_scheme, unit) kop" where
  "binit_buf b =
     bind (gets (\<lambda>s. b_next (bufs s ! NBUF))) (\<lambda>n.
     andthen (modify (upd_buf b (\<lambda>x. x\<lparr>b_next := n\<rparr>)))
    (andthen (modify (upd_buf b (\<lambda>x. x\<lparr>b_prev := NBUF\<rparr>)))
    (andthen (initsleeplock (upd_buf_lock b))
    (andthen (modify (upd_buf n (\<lambda>x. x\<lparr>b_prev := b\<rparr>)))
             (modify (upd_buf NBUF (\<lambda>x. x\<lparr>b_next := b\<rparr>)))))))"

definition binit :: "('a bio_st_scheme, unit) kop" where
  "binit =
     andthen (initlock ''bcache'')
    (andthen (modify (upd_buf NBUF (\<lambda>x. x\<lparr>b_prev := NBUF\<rparr>)))
    (andthen (modify (upd_buf NBUF (\<lambda>x. x\<lparr>b_next := NBUF\<rparr>)))
             (forK binit_buf [0..<NBUF])))"

text \<open>
  The two searches of \<^verbatim>\<open>bget\<close>, following the \<^verbatim>\<open>next\<close> and the \<^verbatim>\<open>prev\<close> pointers from buffer \<open>i\<close> to
  the head. The ring has \<open>NBUF\<close> buffers, so \<open>NBUF + 1\<close> steps reach the head; \<open>None\<close> is the answer
  of a search that runs off the ring, \<open>Some None\<close> of one that finds nothing.
\<close>

fun scan :: "(buf \<Rightarrow> nat) \<Rightarrow> (buf \<Rightarrow> bool) \<Rightarrow> buf list \<Rightarrow> nat \<Rightarrow> nat \<Rightarrow> nat option option" where
  "scan link P bs 0 i = None"
| "scan link P bs (Suc fuel) i =
     (if i = NBUF then Some None
      else if P (bs ! i) then Some (Some i)
      else scan link P bs fuel (link (bs ! i)))"

definition bget :: "nat \<Rightarrow> nat \<Rightarrow> ('a bio_st_scheme, nat) kop" where
  "bget dev blockno =
     andthen (acquire ''bcache'')
    (bind (gets (\<lambda>s. scan b_next (\<lambda>b. b_dev b = dev \<and> b_blockno b = blockno) (bufs s) (NBUF + 1)
        (b_next (bufs s ! NBUF)))) (\<lambda>r.
     case r of
       None \<Rightarrow> fail Diverge
     | Some (Some i) \<Rightarrow>
         andthen (modify (upd_buf i (\<lambda>b. b\<lparr>b_refcnt := b_refcnt b + 1\<rparr>)))
        (andthen (release ''bcache'')
        (andthen (acquiresleep (Ch_buflock i) (get_buf_lock i) (upd_buf_lock i))
                 (ret i)))
     | Some None \<Rightarrow>
         bind (gets (\<lambda>s. scan b_prev (\<lambda>b. b_refcnt b = 0 \<and> b_flags b AND B_DIRTY = 0) (bufs s) (NBUF + 1)
            (b_prev (bufs s ! NBUF)))) (\<lambda>r.
         case r of
           None \<Rightarrow> fail Diverge
         | Some (Some i) \<Rightarrow>
             andthen (modify (upd_buf i (\<lambda>b. b\<lparr>b_dev := dev, b_blockno := blockno, b_flags := 0, b_refcnt := 1\<rparr>)))
            (andthen (release ''bcache'')
            (andthen (acquiresleep (Ch_buflock i) (get_buf_lock i) (upd_buf_lock i))
                     (ret i)))
         | Some None \<Rightarrow> panic ''bget: no buffers'')))"

definition bread :: "nat \<Rightarrow> nat \<Rightarrow> ('a bio_st_scheme, nat) kop" where
  "bread dev blockno =
     bind (bget dev blockno) (\<lambda>i.
     bind (gets (\<lambda>s. b_flags (bufs s ! i))) (\<lambda>fl.
     andthen (whenK (fl AND B_VALID = 0) (iderw i))
             (ret i)))"

definition bwrite :: "nat \<Rightarrow> ('a bio_st_scheme, unit) kop" where
  "bwrite i =
     bind (holdingsleep (get_buf_lock i)) (\<lambda>h.
     if \<not> h then panic ''bwrite''
     else andthen (modify (upd_buf i (\<lambda>b. b\<lparr>b_flags := b_flags b OR B_DIRTY\<rparr>))) (iderw i))"

text \<open>The moves of \<^verbatim>\<open>brelse\<close> on the ring: unlink the buffer, put it behind the head.\<close>

definition brelse_unlink :: "nat \<Rightarrow> ('a bio_st_scheme, unit) kop" where
  "brelse_unlink i =
     andthen (modify (\<lambda>s. upd_buf (b_next (bufs s ! i)) (\<lambda>x. x\<lparr>b_prev := b_prev (bufs s ! i)\<rparr>) s))
    (andthen (modify (\<lambda>s. upd_buf (b_prev (bufs s ! i)) (\<lambda>x. x\<lparr>b_next := b_next (bufs s ! i)\<rparr>) s))
    (andthen (modify (\<lambda>s. upd_buf i (\<lambda>x. x\<lparr>b_next := b_next (bufs s ! NBUF)\<rparr>) s))
    (andthen (modify (upd_buf i (\<lambda>x. x\<lparr>b_prev := NBUF\<rparr>)))
    (andthen (modify (\<lambda>s. upd_buf (b_next (bufs s ! NBUF)) (\<lambda>x. x\<lparr>b_prev := i\<rparr>) s))
             (modify (upd_buf NBUF (\<lambda>x. x\<lparr>b_next := i\<rparr>)))))))"

definition brelse :: "nat \<Rightarrow> ('a bio_st_scheme, unit) kop" where
  "brelse i =
     bind (holdingsleep (get_buf_lock i)) (\<lambda>h.
     if \<not> h then panic ''brelse''
     else
       andthen (releasesleep (Ch_buflock i) (upd_buf_lock i))
      (andthen (acquire ''bcache'')
      (andthen (modify (upd_buf i (\<lambda>b. b\<lparr>b_refcnt := b_refcnt b - 1\<rparr>)))
      (bind (gets (\<lambda>s. b_refcnt (bufs s ! i))) (\<lambda>n.
       andthen (whenK (n = 0) (brelse_unlink i))
               (release ''bcache'')))))) "

section \<open>The ring\<close>

text \<open>
  \<open>seg nx pv a xs z\<close>: the doubly linked segment from \<open>a\<close> through \<open>xs\<close> to \<open>z\<close>. The ring of the cache
  is the segment from the head back to the head.
\<close>

fun seg :: "(nat \<Rightarrow> nat) \<Rightarrow> (nat \<Rightarrow> nat) \<Rightarrow> nat \<Rightarrow> nat list \<Rightarrow> nat \<Rightarrow> bool" where
  "seg nx pv a [] z \<longleftrightarrow> nx a = z \<and> pv z = a"
| "seg nx pv a (x # xs) z \<longleftrightarrow> nx a = x \<and> pv x = a \<and> seg nx pv x xs z"

lemma seg_append: "seg nx pv a (xs @ y # ys) z \<longleftrightarrow> seg nx pv a xs y \<and> seg nx pv y ys z"
  by (induction xs arbitrary: a) auto

lemma seg_cong:
  assumes "\<And>x. x \<in> set (a # xs) \<Longrightarrow> nx' x = nx x" and "\<And>x. x \<in> set (xs @ [z]) \<Longrightarrow> pv' x = pv x"
  shows "seg nx' pv' a xs z = seg nx pv a xs z"
  using assms by (induction xs arbitrary: a) auto

lemma seg_first: "seg nx pv a xs z \<Longrightarrow> nx a = hd (xs @ [z])"
  by (cases xs) auto

lemma seg_last: "seg nx pv a xs z \<Longrightarrow> pv z = last (a # xs)"
  by (induction xs arbitrary: a) auto

text \<open>Taking \<open>b\<close> out of a segment.\<close>

lemma seg_unlink:
  assumes "seg nx pv a (us @ b # vs) z" and "distinct (a # us @ b # vs)" and "z \<notin> set (us @ b # vs)"
  shows "seg (nx(pv b := nx b)) (pv(nx b := pv b)) a (us @ vs) z"
proof -
  have u: "seg nx pv a us b" and v: "seg nx pv b vs z" using assms(1) by (simp_all add: seg_append)
  let ?nx = "nx(pv b := nx b)" and ?pv = "pv(nx b := pv b)"
  have pb: "pv b = last (a # us)" by (rule seg_last [OF u])
  have nb: "nx b = hd (vs @ [z])" by (rule seg_first [OF v])
  show ?thesis
  proof (cases us rule: rev_cases)
    case Nil
    then have "pv b = a" using pb by simp
    then show ?thesis
    proof (cases vs)
      case Nil
      with \<open>us = []\<close> \<open>pv b = a\<close> v show ?thesis by auto
    next
      case (Cons y ys)
      with v have y: "nx b = y" "seg nx pv y ys z" by auto
      have "seg ?nx ?pv y ys z = seg nx pv y ys z"
        using assms(2,3) Cons \<open>pv b = a\<close> y(1) by (intro seg_cong) auto
      with \<open>us = []\<close> Cons y \<open>pv b = a\<close> show ?thesis by simp
    qed
  next
    case (snoc ws w)
    then have w: "pv b = w" using pb by simp
    have us: "seg nx pv a ws w" using u snoc seg_append [of nx pv a ws w "[]" b] by simp
    have 1: "seg ?nx ?pv a ws w"
    proof -
      have "seg ?nx ?pv a ws w = seg nx pv a ws w"
        using assms(2,3) snoc w nb by (intro seg_cong) (cases vs; auto)+
      with us show ?thesis by simp
    qed
    have 2: "seg ?nx ?pv w vs z"
    proof (cases vs)
      case Nil
      with v w show ?thesis by auto
    next
      case (Cons y ys)
      with v have y: "nx b = y" "seg nx pv y ys z" by auto
      have "seg ?nx ?pv y ys z = seg nx pv y ys z"
        using assms(2,3) Cons snoc w y(1) by (intro seg_cong) auto
      with Cons y w show ?thesis by simp
    qed
    from 1 2 snoc show ?thesis by (simp add: seg_append)
  qed
qed

text \<open>Putting \<open>b\<close> at the front of a segment.\<close>

lemma seg_push:
  assumes "seg nx pv a xs z" and "b \<notin> set (a # xs @ [z])" and "distinct (a # xs)" and "z \<notin> set xs"
  shows "seg (nx(b := nx a, a := b)) (pv(b := a, nx a := b)) a (b # xs) z"
proof -
  let ?nx = "nx(b := nx a, a := b)" and ?pv = "pv(b := a, nx a := b)"
  have first: "nx a = hd (xs @ [z])" by (rule seg_first [OF assms(1)])
  have "seg ?nx ?pv b xs z"
  proof (cases xs)
    case Nil
    with assms first show ?thesis by auto
  next
    case (Cons y ys)
    with assms(1) have y: "nx a = y" "seg nx pv y ys z" by auto
    have "seg ?nx ?pv y ys z = seg nx pv y ys z"
      using assms(2-4) Cons y(1) by (intro seg_cong) auto
    with Cons y assms(2) show ?thesis by auto
  qed
  moreover have "b \<noteq> nx a" using first assms(2) by (cases xs) auto
  ultimately show ?thesis using assms(2) by auto
qed

text \<open>The ring read backwards is a ring.\<close>

lemma seg_rev: "seg nx pv a xs z \<Longrightarrow> seg pv nx z (rev xs) a"
proof (induction xs arbitrary: a)
  case Nil
  then show ?case by simp
next
  case (Cons x xs)
  then have "seg pv nx z (rev xs) x" "nx a = x" "pv x = a" by auto
  then show ?case by (simp add: seg_append)
qed

definition nexts :: "buf list \<Rightarrow> nat \<Rightarrow> nat" where
  "nexts bs i = b_next (bs ! i)"

definition prevs :: "buf list \<Rightarrow> nat \<Rightarrow> nat" where
  "prevs bs i = b_prev (bs ! i)"

text \<open>\<open>bring xs bs\<close>: the ring of the cache holds the buffers \<open>xs\<close>, most recently used first.\<close>

definition bring :: "nat list \<Rightarrow> buf list \<Rightarrow> bool" where
  "bring xs bs \<longleftrightarrow> length bs = NBUF + 1 \<and> seg (nexts bs) (prevs bs) NBUF xs NBUF \<and>
     distinct xs \<and> set xs = {..<NBUF}"

lemma scan_seg:
  assumes "seg nx pv a xs NBUF" and "\<And>i. i \<in> set xs \<Longrightarrow> link (bs ! i) = nx i"
    and "NBUF \<notin> set xs" and "length xs < fuel"
  shows "scan link P bs fuel (hd (xs @ [NBUF])) = Some (find (\<lambda>i. P (bs ! i)) xs)"
  using assms
proof (induction xs arbitrary: a fuel)
  case Nil
  then show ?case by (cases fuel) auto
next
  case (Cons x xs)
  then obtain f where f: "fuel = Suc f" "length xs < f" by (cases fuel) auto
  have "seg nx pv x xs NBUF" using Cons.prems(1) by simp
  then have "scan link P bs f (hd (xs @ [NBUF])) = Some (find (\<lambda>i. P (bs ! i)) xs)"
    using Cons.prems f by (intro Cons.IH) auto
  moreover have "link (bs ! x) = hd (xs @ [NBUF])"
    using Cons.prems(2) [of x] seg_first [OF \<open>seg nx pv x xs NBUF\<close>] by simp
  ultimately show ?case using f Cons.prems(3) by auto
qed

lemma bring_length: "bring xs bs \<Longrightarrow> length xs = NBUF"
  by (metis bring_def distinct_card card_lessThan)

lemma scan_next:
  assumes "bring xs bs"
  shows "scan b_next P bs (NBUF + 1) (b_next (bs ! NBUF)) = Some (find (\<lambda>i. P (bs ! i)) xs)"
proof -
  have s: "seg (nexts bs) (prevs bs) NBUF xs NBUF" and "NBUF \<notin> set xs" using assms by (auto simp: bring_def)
  then have "scan b_next P bs (NBUF + 1) (hd (xs @ [NBUF])) = Some (find (\<lambda>i. P (bs ! i)) xs)"
    by (intro scan_seg [OF s]) (auto simp: nexts_def bring_length [OF assms])
  with seg_first [OF s] show ?thesis by (simp add: nexts_def)
qed

lemma scan_prev:
  assumes "bring xs bs"
  shows "scan b_prev P bs (NBUF + 1) (b_prev (bs ! NBUF)) = Some (find (\<lambda>i. P (bs ! i)) (rev xs))"
proof -
  have s: "seg (prevs bs) (nexts bs) NBUF (rev xs) NBUF" and "NBUF \<notin> set xs"
    using assms by (auto simp: bring_def intro: seg_rev)
  then have "scan b_prev P bs (NBUF + 1) (hd (rev xs @ [NBUF])) = Some (find (\<lambda>i. P (bs ! i)) (rev xs))"
    by (intro scan_seg [OF s]) (auto simp: prevs_def bring_length [OF assms])
  with seg_first [OF s] show ?thesis by (simp add: prevs_def)
qed

section \<open>The cache's invariant\<close>

definition valid :: "buf \<Rightarrow> bool" where
  "valid b \<longleftrightarrow> b_flags b AND B_VALID \<noteq> 0"

definition dirty :: "buf \<Rightarrow> bool" where
  "dirty b \<longleftrightarrow> b_flags b AND B_DIRTY \<noteq> 0"

text \<open>
  A buffer of the cache, when the process with this pid holds it (\<open>h\<close>) or nobody does. A buffer that
  has been assigned a block holds its contents; as long as it is clean and unused, these are the
  contents on disk.
\<close>

definition buf_wf :: "(nat \<Rightarrow> byte list) \<Rightarrow> nat \<Rightarrow> int \<Rightarrow> bool \<Rightarrow> buf \<Rightarrow> bool" where
  "buf_wf dsk dsize pid h b \<longleftrightarrow>
     length (b_data b) = BSIZE \<and>
     (b_flags b = 0 \<or> b_flags b = B_VALID \<or> b_flags b = B_VALID OR B_DIRTY) \<and>
     (if b_dev b = 1 then valid b \<and> b_blockno b < dsize else b_flags b = 0 \<and> \<not> h) \<and>
     b_refcnt b = (if h then 1 else 0) \<and>
     (if h then b_lock b = \<lparr>sl_locked = True, sl_pid = pid\<rparr> else \<not> sl_locked (b_lock b)) \<and>
     (\<not> h \<and> valid b \<and> \<not> dirty b \<longrightarrow> b_data b = dsk (b_blockno b))"

definition holds_block :: "buf list \<Rightarrow> nat \<Rightarrow> nat \<Rightarrow> bool" where
  "holds_block bs n i \<longleftrightarrow> i < NBUF \<and> b_dev (bs ! i) = 1 \<and> b_blockno (bs ! i) = n"

definition bio_ctx :: "'a bio_st_scheme \<Rightarrow> bool" where
  "bio_ctx s \<longleftrightarrow> ''sleep lock'' \<notin> held s \<and> ''bcache'' \<notin> held s \<and> ''ptable'' \<notin> held s \<and>
     (\<exists>p. cur s = Some p \<and> p < length (procs s)) \<and> (\<forall>n. length (disk s n) = BSIZE)"

definition bio_ok :: "nat set \<Rightarrow> 'a bio_st_scheme \<Rightarrow> bool" where
  "bio_ok H s \<longleftrightarrow> bio_ctx s \<and> (\<exists>xs. bring xs (bufs s)) \<and> H \<subseteq> {..<NBUF} \<and>
     (\<forall>i < NBUF. buf_wf (disk s) (disksize s) (my_pid s) (i \<in> H) (bufs s ! i)) \<and>
     (\<forall>n i j. holds_block (bufs s) n i \<longrightarrow> holds_block (bufs s) n j \<longrightarrow> i = j)"

text \<open>The contents of a block as the kernel sees them: the cached copy, or else the one on disk.\<close>

definition blk :: "'a bio_st_scheme \<Rightarrow> nat \<Rightarrow> byte list" where
  "blk s n = (case find (holds_block (bufs s) n) [0..<NBUF] of
     Some i \<Rightarrow> b_data (bufs s ! i) | None \<Rightarrow> disk s n)"

lemma find_holds:
  "find (holds_block bs n) [0..<NBUF] = Some i \<Longrightarrow> holds_block bs n i"
  "find (holds_block bs n) [0..<NBUF] = None \<longleftrightarrow> (\<forall>i. \<not> holds_block bs n i)"
  by (auto simp: find_Some_iff find_None_iff holds_block_def)

lemma blk_cached:
  assumes "bio_ok H s" and "holds_block (bufs s) n i"
  shows "blk s n = b_data (bufs s ! i)"
proof (cases "find (holds_block (bufs s) n) [0..<NBUF]")
  case None
  with assms(2) show ?thesis by (simp add: find_holds(2))
next
  case (Some j)
  then have "holds_block (bufs s) n j" by (rule find_holds(1))
  with assms have "j = i" by (auto simp: bio_ok_def)
  with Some show ?thesis by (simp add: blk_def)
qed

lemma blk_uncached: "(\<And>i. \<not> holds_block (bufs s) n i) \<Longrightarrow> blk s n = disk s n"
proof -
  assume "\<And>i. \<not> holds_block (bufs s) n i"
  then have "find (holds_block (bufs s) n) [0..<NBUF] = None" by (simp add: find_holds(2))
  then show ?thesis by (simp add: blk_def)
qed

lemma length_blk:
  assumes "bio_ok H s"
  shows "length (blk s n) = BSIZE"
proof (cases "\<exists>i. holds_block (bufs s) n i")
  case True
  then obtain i where i: "holds_block (bufs s) n i" by auto
  then have "buf_wf (disk s) (disksize s) (my_pid s) (i \<in> H) (bufs s ! i)"
    using assms by (simp add: bio_ok_def holds_block_def)
  then show ?thesis using blk_cached [OF assms i] by (simp add: buf_wf_def)
next
  case False
  then show ?thesis using assms by (simp add: blk_uncached bio_ok_def bio_ctx_def)
qed

interpretation buflock: sleeplock_field "get_buf_lock i" "upd_buf_lock i" for i
  by unfold_locales (simp_all add: get_buf_lock_def upd_buf_lock_def upd_buf_def)

section \<open>Changing one buffer\<close>

lemma bio_ok_bufs:
  assumes "bio_ok H s"
  shows "length (bufs s) = NBUF + 1" "i \<in> H \<Longrightarrow> i < NBUF"
    "i < NBUF \<Longrightarrow> buf_wf (disk s) (disksize s) (my_pid s) (i \<in> H) (bufs s ! i)"
    "holds_block (bufs s) n i \<Longrightarrow> holds_block (bufs s) n j \<Longrightarrow> i = j"
  using assms by (auto simp: bio_ok_def bring_def)

lemma holds_block_update:
  "i < NBUF \<Longrightarrow> length bs = NBUF + 1 \<Longrightarrow>
   holds_block (bs[i := nb]) n j \<longleftrightarrow> (if j = i then b_dev nb = 1 \<and> b_blockno nb = n else holds_block bs n j)"
  by (auto simp: holds_block_def nth_list_update)

lemma bring_update:
  assumes "bring xs bs" "i < NBUF" "b_next nb = b_next (bs ! i)" "b_prev nb = b_prev (bs ! i)"
  shows "bring xs (bs[i := nb])"
proof -
  have "nexts (bs[i := nb]) = nexts bs" "prevs (bs[i := nb]) = prevs bs"
    using assms by (auto simp: nexts_def prevs_def fun_eq_iff nth_list_update bring_def)
  with assms(1) show ?thesis by (simp add: bring_def)
qed

lemma my_pid_bufs [simp]: "my_pid (s\<lparr>bufs := bs\<rparr>) = my_pid s"
  by (simp add: my_pid_def)

lemma bio_ctx_bufs [simp]: "bio_ctx (s\<lparr>bufs := bs\<rparr>) = bio_ctx s"
  by (simp add: bio_ctx_def)

lemma bio_ok_update:
  assumes "bio_ok H s" "i < NBUF" "b_next nb = b_next (bufs s ! i)" "b_prev nb = b_prev (bufs s ! i)"
    and "buf_wf (disk s) (disksize s) (my_pid s) h nb"
    and "\<And>j. b_dev nb = 1 \<Longrightarrow> holds_block (bufs s) (b_blockno nb) j \<Longrightarrow> j = i"
  shows "bio_ok (if h then insert i H else H - {i}) (s\<lparr>bufs := (bufs s)[i := nb]\<rparr>)"
proof -
  note ok = bio_ok_bufs [OF assms(1)]
  obtain xs where "bring xs (bufs s)" using assms(1) by (auto simp: bio_ok_def)
  then have "bring xs ((bufs s)[i := nb])" by (rule bring_update) (simp_all add: assms)
  moreover have "j = k" if "holds_block ((bufs s)[i := nb]) n j" "holds_block ((bufs s)[i := nb]) n k" for n j k
  proof -
    have nb: "b_dev nb = 1 \<and> b_blockno nb = n" if "holds_block ((bufs s)[i := nb]) n i" for n
      using that holds_block_update [OF assms(2) ok(1)] by simp
    have other: "holds_block (bufs s) n k" if "holds_block ((bufs s)[i := nb]) n k" "k \<noteq> i" for n k
      using that holds_block_update [OF assms(2) ok(1)] by simp
    have "k = i" if "holds_block ((bufs s)[i := nb]) n i" "holds_block ((bufs s)[i := nb]) n k" for n k
      using assms(6) [of k] nb [OF that(1)] other [OF that(2)] by blast
    then show ?thesis using that other ok(4) [of n j k] by metis
  qed
  moreover have "(if h then insert i H else H - {i}) \<subseteq> {..<NBUF}"
    using ok(2) assms(2) by auto
  moreover have "buf_wf (disk s) (disksize s) (my_pid s) (j \<in> (if h then insert i H else H - {i})) ((bufs s)[i := nb] ! j)"
    if "j < NBUF" for j
    using that assms(5) ok(3) [OF that] ok(1) by (cases "j = i") auto
  moreover have "bio_ctx s" using assms(1) by (simp add: bio_ok_def)
  ultimately show ?thesis unfolding bio_ok_def by simp blast
qed

lemmas bio_ok_take = bio_ok_update [where h = True, simplified if_True]
lemmas bio_ok_give = bio_ok_update [where h = False, simplified if_False]

lemma blk_update:
  assumes "bio_ok H s" "bio_ok H' (s\<lparr>bufs := (bufs s)[i := nb]\<rparr>)" "i < NBUF"
  shows "blk (s\<lparr>bufs := (bufs s)[i := nb]\<rparr>) n =
    (if b_dev nb = 1 \<and> b_blockno nb = n then b_data nb
     else if holds_block (bufs s) n i then disk s n else blk s n)"
proof -
  let ?t = "s\<lparr>bufs := (bufs s)[i := nb]\<rparr>"
  note ok = bio_ok_bufs [OF assms(1)]
  note hb = holds_block_update [OF assms(3) ok(1)]
  consider "b_dev nb = 1 \<and> b_blockno nb = n" | "\<not> (b_dev nb = 1 \<and> b_blockno nb = n)" "holds_block (bufs s) n i"
    | j where "\<not> (b_dev nb = 1 \<and> b_blockno nb = n)" "\<not> holds_block (bufs s) n i" "holds_block (bufs s) n j" "j \<noteq> i"
    | "\<not> (b_dev nb = 1 \<and> b_blockno nb = n)" "\<And>j. \<not> holds_block (bufs s) n j"
    by blast
  then show ?thesis
  proof cases
    case 1
    then have "holds_block (bufs ?t) n i" by (simp add: hb)
    from blk_cached [OF assms(2) this] 1 ok(1) assms(3) show ?thesis by simp
  next
    case 2
    then have "\<not> holds_block (bufs ?t) n j" for j
      using ok(4) [of n i j] by (auto simp: hb)
    from blk_uncached [of ?t n, OF this] 2 show ?thesis by auto
  next
    case 3
    then have "holds_block (bufs ?t) n j" by (simp add: hb)
    from blk_cached [OF assms(2) this] blk_cached [OF assms(1) 3(3)] 3 show ?thesis by auto
  next
    case 4
    then have "\<not> holds_block (bufs ?t) n j" for j by (auto simp: hb)
    from blk_uncached [of ?t n, OF this] blk_uncached [of s n] 4 show ?thesis by auto
  qed
qed

text \<open>Only the cache (and the state of processes woken up) differs.\<close>

definition only_bufs :: "'a bio_st_scheme \<Rightarrow> 'a bio_st_scheme \<Rightarrow> bool" where
  "only_bufs s t \<longleftrightarrow> same_procs s t \<and> (\<exists>ps bs. t = s\<lparr>procs := ps, bufs := bs\<rparr>)"

lemma only_bufs_refl [simp, intro]: "only_bufs s s"
proof -
  have "s = s\<lparr>procs := procs s, bufs := bufs s\<rparr>" by simp
  then show ?thesis unfolding only_bufs_def by blast
qed

lemma only_bufs_trans:
  assumes "only_bufs s t" "only_bufs t u"
  shows "only_bufs s u"
proof -
  obtain ps bs where t: "t = s\<lparr>procs := ps, bufs := bs\<rparr>" using assms(1) by (auto simp: only_bufs_def)
  obtain ps' bs' where u: "u = t\<lparr>procs := ps', bufs := bs'\<rparr>" using assms(2) by (auto simp: only_bufs_def)
  have "u = s\<lparr>procs := ps', bufs := bs'\<rparr>" unfolding u t by simp
  moreover have "same_procs s u" using assms same_procs_trans by (auto simp: only_bufs_def)
  ultimately show ?thesis unfolding only_bufs_def by blast
qed

lemma only_bufsD:
  assumes "only_bufs s t"
  shows "disk t = disk s" "disksize t = disksize s" "dwrites t = dwrites s" "held t = held s" "cur t = cur s"
    "bio_ctx s \<Longrightarrow> bio_ctx t" "bio_ctx s \<Longrightarrow> my_pid t = my_pid s"
proof -
  obtain ps bs where t: "t = s\<lparr>procs := ps, bufs := bs\<rparr>" using assms by (auto simp: only_bufs_def)
  have sp: "same_procs s t" using assms by (simp add: only_bufs_def)
  show "disk t = disk s" "disksize t = disksize s" "dwrites t = dwrites s" using t by simp_all
  then show "held t = held s" "cur t = cur s" "bio_ctx s \<Longrightarrow> bio_ctx t"
    using same_procs_held [OF sp] same_procs_cur [OF sp] same_procs_nth(1) [OF sp]
    by (auto simp: bio_ctx_def)
  show "my_pid t = my_pid s" if "bio_ctx s"
    using that same_procs_my_pid [OF sp] by (auto simp: bio_ctx_def)
qed

lemma only_bufs_update [simp, intro]: "only_bufs s (s\<lparr>bufs := bs\<rparr>)"
proof -
  have "s\<lparr>bufs := bs\<rparr> = s\<lparr>procs := procs s, bufs := bs\<rparr>" by simp
  moreover have "same_procs s (s\<lparr>bufs := bs\<rparr>)" by (simp add: same_procs_def)
  ultimately show ?thesis unfolding only_bufs_def by blast
qed

section \<open>Reading a block\<close>

lemma find_unique:
  "i \<in> set xs \<Longrightarrow> P i \<Longrightarrow> (\<And>j. j \<in> set xs \<Longrightarrow> P j \<Longrightarrow> j = i) \<Longrightarrow> find P xs = Some i"
proof (induction xs)
  case Nil
  then show ?case by simp
next
  case (Cons y ys)
  show ?case
  proof (cases "P y")
    case True
    with Cons.prems(3) [of y] show ?thesis by simp
  next
    case False
    with Cons.prems(1,2) have "i \<in> set ys" by auto
    with Cons.prems(2,3) have "find P ys = Some i" by (intro Cons.IH) auto
    with False show ?thesis by simp
  qed
qed

lemma find_memb: "find P xs = Some i \<Longrightarrow> i \<in> set xs \<and> P i"
  by (induction xs) (auto split: if_splits)

lemma flag_facts [simp]:
  "valid b \<Longrightarrow> b_flags b AND B_VALID \<noteq> 0" "\<not> dirty b \<Longrightarrow> b_flags b AND B_DIRTY = 0"
  by (simp_all add: valid_def dirty_def)

lemmas flag_defs = valid_def dirty_def B_VALID_def B_DIRTY_def

definition my_lock :: "'a bio_st_scheme \<Rightarrow> sleeplock" where
  "my_lock s = \<lparr>sl_locked = True, sl_pid = my_pid s\<rparr>"

lemma wp_acquire_buf:
  assumes "bio_ctx s" and "\<not> sl_locked (b_lock (bufs s ! i))" and "length (bufs s) = NBUF + 1" "i < NBUF"
  shows "wp (acquiresleep (Ch_buflock i) (get_buf_lock i) (upd_buf_lock i)) Q s =
    Q () (s\<lparr>bufs := (bufs s)[i := (bufs s ! i)\<lparr>b_lock := my_lock s\<rparr>]\<rparr>)"
  using assms unfolding buflock.wp_acquiresleep
  by (auto simp: bio_ctx_def get_buf_lock_def upd_buf_lock_def upd_buf_def my_lock_def)

lemma wp_holding_buf:
  assumes "bio_ctx s" and "b_lock (bufs s ! i) = my_lock s"
  shows "wp (holdingsleep (get_buf_lock i)) Q s = Q True s"
  using assms unfolding buflock.wp_holdingsleep
  by (auto simp: bio_ctx_def get_buf_lock_def my_lock_def)

lemma wp_bread_hit:
  assumes ok: "bio_ok H s" and h: "holds_block (bufs s) n i" and "i \<notin> H"
  shows "wp (bread 1 n) (\<lambda>j t. j = i \<and>
    t = s\<lparr>bufs := (bufs s)[i := (bufs s ! i)\<lparr>b_refcnt := 1, b_lock := my_lock s\<rparr>]\<rparr>) s"
proof -
  obtain xs where ring: "bring xs (bufs s)" using ok by (auto simp: bio_ok_def)
  have i: "i < NBUF" using h by (simp add: holds_block_def)
  have wf: "buf_wf (disk s) (disksize s) (my_pid s) False (bufs s ! i)"
    using bio_ok_bufs(3) [OF ok i] assms(3) by simp
  have v: "valid (bufs s ! i)" using wf h by (simp add: buf_wf_def holds_block_def)
  have ctx: "bio_ctx s" using ok by (simp add: bio_ok_def)
  then have lk: "''bcache'' \<notin> held s" by (simp add: bio_ctx_def)
  have "find (\<lambda>i. b_dev (bufs s ! i) = 1 \<and> b_blockno (bufs s ! i) = n) xs = Some i"
  proof (rule find_unique)
    show "i \<in> set xs" "b_dev (bufs s ! i) = 1 \<and> b_blockno (bufs s ! i) = n"
      using h ring by (simp_all add: holds_block_def bring_def)
  next
    fix j
    assume "j \<in> set xs" "b_dev (bufs s ! j) = 1 \<and> b_blockno (bufs s ! j) = n"
    then have "holds_block (bufs s) n j" using ring by (simp add: holds_block_def bring_def)
    from bio_ok_bufs(4) [OF ok this h] show "j = i" .
  qed
  with scan_next [OF ring, of "\<lambda>b. b_dev b = 1 \<and> b_blockno b = n"]
  have sc: "scan b_next (\<lambda>b. b_dev b = 1 \<and> b_blockno b = n) (bufs s) (NBUF + 1) (b_next (bufs s ! NBUF)) = Some (Some i)"
    by simp
  let ?u = "s\<lparr>bufs := (bufs s)[i := (bufs s ! i)\<lparr>b_refcnt := 1\<rparr>]\<rparr>"
  have len: "length (bufs s) = NBUF + 1" by (rule bio_ok_bufs(1) [OF ok])
  have "wp (acquiresleep (Ch_buflock i) (get_buf_lock i) (upd_buf_lock i)) Q ?u =
      Q () (s\<lparr>bufs := (bufs s)[i := (bufs s ! i)\<lparr>b_refcnt := 1, b_lock := my_lock s\<rparr>]\<rparr>)" for Q
    using ctx wf len i by (subst wp_acquire_buf) (auto simp: buf_wf_def my_lock_def)
  then show ?thesis
    using sc lk wf v i len
    by (simp add: bread_def bget_def upd_buf_def buf_wf_def)
qed

lemma wp_bread_miss:
  assumes ok: "bio_ok H s" and miss: "\<And>i. \<not> holds_block (bufs s) n i" and n: "n < disksize s"
    and avail: "k < NBUF" "k \<notin> H" "\<not> dirty (bufs s ! k)"
  shows "wp (bread 1 n) (\<lambda>i t. i < NBUF \<and> i \<notin> H \<and> \<not> dirty (bufs s ! i) \<and>
    t = s\<lparr>bufs := (bufs s)[i := (bufs s ! i)\<lparr>b_dev := 1, b_blockno := n, b_refcnt := 1, b_lock := my_lock s,
      b_data := disk s n, b_flags := B_VALID\<rparr>]\<rparr>) s"
proof -
  obtain xs where ring: "bring xs (bufs s)" using ok by (auto simp: bio_ok_def)
  have ctx: "bio_ctx s" using ok by (simp add: bio_ok_def)
  then have lk: "''bcache'' \<notin> held s" by (simp add: bio_ctx_def)
  have len: "length (bufs s) = NBUF + 1" by (rule bio_ok_bufs(1) [OF ok])
  have "find (\<lambda>i. b_dev (bufs s ! i) = 1 \<and> b_blockno (bufs s ! i) = n) xs = None"
    using miss ring by (auto simp: find_None_iff holds_block_def bring_def)
  with scan_next [OF ring, of "\<lambda>b. b_dev b = 1 \<and> b_blockno b = n"]
  have sc: "scan b_next (\<lambda>b. b_dev b = 1 \<and> b_blockno b = n) (bufs s) (NBUF + 1) (b_next (bufs s ! NBUF)) = Some None"
    by simp
  let ?P = "\<lambda>b. b_refcnt b = 0 \<and> b_flags b AND B_DIRTY = 0"
  have "?P (bufs s ! k)" using bio_ok_bufs(3) [OF ok avail(1)] avail by (simp add: buf_wf_def)
  then have "find (\<lambda>i. ?P (bufs s ! i)) (rev xs) \<noteq> None"
    using ring avail(1) by (auto simp: find_None_iff bring_def)
  then obtain i where i: "find (\<lambda>i. ?P (bufs s ! i)) (rev xs) = Some i" by auto
  from find_memb [OF this] have "i \<in> set xs" "?P (bufs s ! i)" by simp_all
  then have iN: "i < NBUF" and P: "?P (bufs s ! i)" using ring by (auto simp: bring_def)
  have sc2: "scan b_prev ?P (bufs s) (NBUF + 1) (b_prev (bufs s ! NBUF)) = Some (Some i)"
    using scan_prev [OF ring, of ?P] i by simp
  have wf: "buf_wf (disk s) (disksize s) (my_pid s) (i \<in> H) (bufs s ! i)" by (rule bio_ok_bufs(3) [OF ok iN])
  then have iH: "i \<notin> H" using P by (auto simp: buf_wf_def split: if_splits)
  let ?b = "(bufs s ! i)\<lparr>b_dev := 1, b_blockno := n, b_flags := 0, b_refcnt := 1\<rparr>"
  let ?u = "s\<lparr>bufs := (bufs s)[i := ?b]\<rparr>" and ?v = "s\<lparr>bufs := (bufs s)[i := ?b\<lparr>b_lock := my_lock s\<rparr>]\<rparr>"
  have acq: "wp (acquiresleep (Ch_buflock i) (get_buf_lock i) (upd_buf_lock i)) Q ?u = Q () ?v" for Q
    using ctx wf iH len iN by (subst wp_acquire_buf) (auto simp: buf_wf_def my_lock_def)
  have hold: "wp (holdingsleep (get_buf_lock i)) Q ?v = Q True ?v" for Q
    using ctx len iN by (intro wp_holding_buf) (simp_all add: my_lock_def)
  have "wp (iderw i) Q ?v = Q () (s\<lparr>bufs := (bufs s)[i := (bufs s ! i)\<lparr>b_dev := 1, b_blockno := n,
      b_refcnt := 1, b_lock := my_lock s, b_data := disk s n, b_flags := B_VALID\<rparr>]\<rparr>)" for Q
    using n len iN by (simp add: iderw_def hold upd_buf_def flag_defs)
  then show ?thesis
    using sc sc2 lk iN iH len P acq by (simp add: bread_def bget_def upd_buf_def dirty_def)
qed

text \<open>What a client of the cache sees of a buffer.\<close>

definition same_buf :: "buf \<Rightarrow> buf \<Rightarrow> bool" where
  "same_buf b c \<longleftrightarrow> b_flags c = b_flags b \<and> b_dev c = b_dev b \<and> b_blockno c = b_blockno b \<and> b_data c = b_data b"

lemma same_buf_refl [simp]: "same_buf b b"
  by (simp add: same_buf_def)

text \<open>The blocks with a modified copy in the cache that is not on disk yet.\<close>

definition dirty_blocks :: "'a bio_st_scheme \<Rightarrow> nat set" where
  "dirty_blocks s = {n. \<exists>i. holds_block (bufs s) n i \<and> dirty (bufs s ! i)}"

lemma finite_dirty_blocks [simp]: "finite (dirty_blocks s)"
proof -
  have "dirty_blocks s \<subseteq> (\<lambda>i. b_blockno (bufs s ! i)) ` {..<NBUF}"
    by (auto simp: dirty_blocks_def holds_block_def)
  then show ?thesis by (rule finite_subset) simp
qed

text \<open>There is a buffer to recycle as long as fewer than \<open>NBUF\<close> are in use or dirty.\<close>

definition avail :: "nat set \<Rightarrow> 'a bio_st_scheme \<Rightarrow> bool" where
  "avail H s \<longleftrightarrow> card H + card (dirty_blocks s) < NBUF"

lemma avail_buffer:
  assumes "bio_ok H s" "avail H s"
  shows "\<exists>k < NBUF. k \<notin> H \<and> \<not> dirty (bufs s ! k)"
proof (rule ccontr)
  assume none: "\<not> (\<exists>k < NBUF. k \<notin> H \<and> \<not> dirty (bufs s ! k))"
  let ?D = "{i. i < NBUF \<and> dirty (bufs s ! i)}"
  have hold: "holds_block (bufs s) (b_blockno (bufs s ! i)) i" if "i \<in> ?D" for i
    using that bio_ok_bufs(3) [OF assms(1), of i]
    by (auto simp: holds_block_def buf_wf_def dirty_def split: if_splits)
  have "inj_on (\<lambda>i. b_blockno (bufs s ! i)) ?D"
  proof (rule inj_onI)
    fix i j
    assume ij: "i \<in> ?D" "j \<in> ?D" "b_blockno (bufs s ! i) = b_blockno (bufs s ! j)"
    have "holds_block (bufs s) (b_blockno (bufs s ! i)) j" using hold [OF ij(2)] ij(3) by simp
    then show "i = j" using bio_ok_bufs(4) [OF assms(1) hold [OF ij(1)]] by blast
  qed
  moreover have "(\<lambda>i. b_blockno (bufs s ! i)) ` ?D \<subseteq> dirty_blocks s"
    using hold by (auto simp: dirty_blocks_def)
  ultimately have "card ?D \<le> card (dirty_blocks s)" by (intro card_inj_on_le) auto
  moreover have "{..<NBUF} \<subseteq> H \<union> ?D" using none by auto
  then have "card {..<NBUF} \<le> card (H \<union> ?D)"
    using bio_ok_bufs(2) [OF assms(1)] by (intro card_mono) (auto intro: finite_subset [of H "{..<NBUF}"])
  moreover have "card (H \<union> ?D) \<le> card H + card ?D" by (rule card_Un_le)
  ultimately have "NBUF \<le> card H + card (dirty_blocks s)" by simp
  with assms(2) show False by (simp add: avail_def)
qed

lemma dirty_blocks_update:
  assumes "bio_ok H s" "i < NBUF"
  shows "n \<in> dirty_blocks (s\<lparr>bufs := (bufs s)[i := nb]\<rparr>) \<longleftrightarrow>
    (b_dev nb = 1 \<and> b_blockno nb = n \<and> dirty nb) \<or> (\<exists>j. j \<noteq> i \<and> holds_block (bufs s) n j \<and> dirty (bufs s ! j))"
proof -
  note len = bio_ok_bufs(1) [OF assms(1)]
  have split: "(\<exists>j. A j) \<longleftrightarrow> A i \<or> (\<exists>j. j \<noteq> i \<and> A j)" for A :: "nat \<Rightarrow> bool" by metis
  have "(\<exists>j. j \<noteq> i \<and> holds_block ((bufs s)[i := nb]) n j \<and> dirty ((bufs s)[i := nb] ! j)) \<longleftrightarrow>
      (\<exists>j. j \<noteq> i \<and> holds_block (bufs s) n j \<and> dirty (bufs s ! j))"
    by (simp add: holds_block_update [OF assms(2) len] cong: conj_cong)
  moreover have "holds_block ((bufs s)[i := nb]) n i \<and> dirty ((bufs s)[i := nb] ! i) \<longleftrightarrow>
      b_dev nb = 1 \<and> b_blockno nb = n \<and> dirty nb"
    using assms(2) len by (simp add: holds_block_update)
  moreover have "bufs (s\<lparr>bufs := (bufs s)[i := nb]\<rparr>) = (bufs s)[i := nb]" by simp
  ultimately show ?thesis
    by (simp only: dirty_blocks_def mem_Collect_eq split [of "\<lambda>j. holds_block ((bufs s)[i := nb]) n j \<and> dirty ((bufs s)[i := nb] ! j)"])
qed

text \<open>\<^verbatim>\<open>bread\<close> returns a buffer locked by this process with the contents of the block, and changes the
  contents of no block.\<close>

definition bread_post :: "nat set \<Rightarrow> nat \<Rightarrow> 'a bio_st_scheme \<Rightarrow> nat \<Rightarrow> 'a bio_st_scheme \<Rightarrow> bool" where
  "bread_post H n s i t \<longleftrightarrow> bio_ok (insert i H) t \<and> i \<notin> H \<and> holds_block (bufs t) n i \<and>
     b_data (bufs t ! i) = blk s n \<and> blk t = blk s \<and> dirty_blocks t = dirty_blocks s \<and>
     only_bufs s t \<and> (\<forall>j \<in> H. bufs t ! j = bufs s ! j) \<and>
     (dirty (bufs t ! i) \<or> b_data (bufs t ! i) = disk s n)"

lemma bread_post_hit:
  assumes ok: "bio_ok H s" and h: "holds_block (bufs s) n i" and "i \<notin> H"
    and t: "t = s\<lparr>bufs := (bufs s)[i := (bufs s ! i)\<lparr>b_refcnt := 1, b_lock := my_lock s\<rparr>]\<rparr>"
  shows "bread_post H n s i t"
proof -
  let ?nb = "(bufs s ! i)\<lparr>b_refcnt := 1, b_lock := my_lock s\<rparr>"
  have i: "i < NBUF" and d: "b_dev (bufs s ! i) = 1" "b_blockno (bufs s ! i) = n"
    using h by (simp_all add: holds_block_def)
  have wf: "buf_wf (disk s) (disksize s) (my_pid s) False (bufs s ! i)"
    using bio_ok_bufs(3) [OF ok i] assms(3) by simp
  have ok': "bio_ok (insert i H) t"
    unfolding t
  proof (rule bio_ok_take [OF ok i])
    show "buf_wf (disk s) (disksize s) (my_pid s) True ?nb"
      using wf d by (simp add: buf_wf_def my_lock_def flag_defs)
    show "j = i" if "holds_block (bufs s) (b_blockno ?nb) j" for j
      using that d h by (intro bio_ok_bufs(4) [OF ok]) simp_all
  qed simp_all
  have len: "length (bufs s) = NBUF + 1" by (rule bio_ok_bufs(1) [OF ok])
  have "blk t m = blk s m" for m
    using blk_update [OF ok ok' [unfolded t] i, of m] blk_cached [OF ok h] d h
    unfolding t by (auto simp: holds_block_def)
  moreover have "m \<in> dirty_blocks t \<longleftrightarrow> m \<in> dirty_blocks s" for m
    unfolding t dirty_blocks_update [OF ok i] using d i
    by (auto simp: dirty_blocks_def dirty_def holds_block_def)
  moreover have "dirty ?nb \<or> b_data ?nb = disk s n"
    using wf d by (auto simp: buf_wf_def dirty_def valid_def)
  ultimately show ?thesis
    using ok' assms(3) len i d blk_cached [OF ok h]
    by (auto simp: bread_post_def t holds_block_def nth_list_update)
qed

lemma bread_post_miss:
  assumes ok: "bio_ok H s" and miss: "\<And>i. \<not> holds_block (bufs s) n i" and n: "n < disksize s"
    and i: "i < NBUF" "i \<notin> H" "\<not> dirty (bufs s ! i)"
    and t: "t = s\<lparr>bufs := (bufs s)[i := (bufs s ! i)\<lparr>b_dev := 1, b_blockno := n, b_refcnt := 1,
      b_lock := my_lock s, b_data := disk s n, b_flags := B_VALID\<rparr>]\<rparr>"
  shows "bread_post H n s i t"
proof -
  have wf: "buf_wf (disk s) (disksize s) (my_pid s) False (bufs s ! i)"
    using bio_ok_bufs(3) [OF ok i(1)] i(2) by simp
  have len: "length (bufs s) = NBUF + 1" by (rule bio_ok_bufs(1) [OF ok])
  have dl: "length (disk s n) = BSIZE" using ok by (simp add: bio_ok_def bio_ctx_def)
  have ok': "bio_ok (insert i H) t"
    unfolding t using miss n dl
    by (intro bio_ok_take [OF ok i(1)]) (simp_all add: buf_wf_def my_lock_def flag_defs)
  have old: "blk s m = disk s m" if "holds_block (bufs s) m i" for m
  proof -
    have "b_data (bufs s ! i) = disk s (b_blockno (bufs s ! i))"
      using wf that i(3) by (auto simp: buf_wf_def holds_block_def)
    with blk_cached [OF ok that] that show ?thesis by (simp add: holds_block_def)
  qed
  have "blk t m = blk s m" for m
    using blk_update [OF ok ok' [unfolded t] i(1), of m] old [of m] blk_uncached [of s n] miss
    unfolding t by auto
  moreover have "m \<in> dirty_blocks t \<longleftrightarrow> m \<in> dirty_blocks s" for m
    unfolding t dirty_blocks_update [OF ok i(1)] using i(3)
    by (auto simp: dirty_blocks_def flag_defs)
  ultimately show ?thesis
    using ok' i(1,2) len blk_uncached [of s n] miss
    by (auto simp: bread_post_def t holds_block_def nth_list_update)
qed

lemma wp_bread:
  assumes "bio_ok H s" "n < disksize s" "\<And>i. i \<in> H \<Longrightarrow> \<not> holds_block (bufs s) n i"
    "avail H s \<or> n \<in> dirty_blocks s"
  shows "wp (bread 1 n) (bread_post H n s) s"
proof (cases "\<exists>i. holds_block (bufs s) n i")
  case True
  then obtain i where i: "holds_block (bufs s) n i" by auto
  with assms(3) have "i \<notin> H" by auto
  with i show ?thesis
    by (auto intro: wp_mono [OF wp_bread_hit [OF assms(1) i]] bread_post_hit [OF assms(1)])
next
  case False
  then have "avail H s" using assms(4) by (auto simp: dirty_blocks_def)
  then obtain k where "k < NBUF" "k \<notin> H" "\<not> dirty (bufs s ! k)" using avail_buffer [OF assms(1)] by auto
  then have "wp (bread 1 n) (\<lambda>i t. i < NBUF \<and> i \<notin> H \<and> \<not> dirty (bufs s ! i) \<and>
    t = s\<lparr>bufs := (bufs s)[i := (bufs s ! i)\<lparr>b_dev := 1, b_blockno := n, b_refcnt := 1, b_lock := my_lock s,
      b_data := disk s n, b_flags := B_VALID\<rparr>]\<rparr>) s"
    using False by (intro wp_bread_miss [OF assms(1)]) (auto simp: assms(2))
  then show ?thesis
    by (rule wp_mono) (use False assms(2) in \<open>blast intro: bread_post_miss [OF assms(1)]\<close>)
qed

section \<open>Changing and writing a held buffer\<close>

lemma held_buf:
  assumes "bio_ok H s" "i \<in> H"
  shows "i < NBUF" "length (bufs s) = NBUF + 1" "b_dev (bufs s ! i) = 1" "b_refcnt (bufs s ! i) = 1"
    "b_lock (bufs s ! i) = my_lock s" "valid (bufs s ! i)" "b_blockno (bufs s ! i) < disksize s"
    "length (b_data (bufs s ! i)) = BSIZE" "holds_block (bufs s) (b_blockno (bufs s ! i)) i"
    "b_flags (bufs s ! i) = B_VALID \<or> b_flags (bufs s ! i) = B_VALID OR B_DIRTY"
proof -
  show i: "i < NBUF" and "length (bufs s) = NBUF + 1"
    using bio_ok_bufs(1,2) [OF assms(1)] assms(2) by simp_all
  have "buf_wf (disk s) (disksize s) (my_pid s) True (bufs s ! i)"
    using bio_ok_bufs(3) [OF assms(1) i] assms(2) by simp
  then show d: "b_dev (bufs s ! i) = 1" and "b_refcnt (bufs s ! i) = 1" "b_lock (bufs s ! i) = my_lock s"
    "valid (bufs s ! i)" "b_blockno (bufs s ! i) < disksize s" "length (b_data (bufs s ! i)) = BSIZE"
    "b_flags (bufs s ! i) = B_VALID \<or> b_flags (bufs s ! i) = B_VALID OR B_DIRTY"
    by (auto simp: buf_wf_def my_lock_def valid_def split: if_splits)
  with i show "holds_block (bufs s) (b_blockno (bufs s ! i)) i" by (simp add: holds_block_def)
qed

lemma held_unique:
  "bio_ok H s \<Longrightarrow> i \<in> H \<Longrightarrow> holds_block (bufs s) (b_blockno (bufs s ! i)) j \<Longrightarrow> j = i"
  using bio_ok_bufs(4) held_buf(9) by blast

text \<open>Replacing a held buffer by one for the same block, still held.\<close>

lemma bio_ok_change:
  assumes ok: "bio_ok H s" and i: "i \<in> H"
    and nb: "nb = (bufs s ! i)\<lparr>b_data := d, b_flags := fl\<rparr>" and "length d = BSIZE"
    and "fl = B_VALID \<or> fl = B_VALID OR B_DIRTY"
  shows "bio_ok H (s\<lparr>bufs := (bufs s)[i := nb]\<rparr>)"
    "blk (s\<lparr>bufs := (bufs s)[i := nb]\<rparr>) = (blk s)(b_blockno (bufs s ! i) := d)"
proof -
  note h = held_buf [OF ok i]
  have wf: "buf_wf (disk s) (disksize s) (my_pid s) True nb"
    using h assms(4,5) by (auto simp: nb buf_wf_def my_lock_def flag_defs)
  have "bio_ok (insert i H) (s\<lparr>bufs := (bufs s)[i := nb]\<rparr>)"
  proof (rule bio_ok_take [OF ok h(1)])
    show "buf_wf (disk s) (disksize s) (my_pid s) True nb" by (rule wf)
    show "j = i" if "holds_block (bufs s) (b_blockno nb) j" for j
      using that by (intro held_unique [OF ok i]) (simp add: nb)
  qed (simp_all add: nb)
  moreover have "insert i H = H" using i by auto
  ultimately show ok': "bio_ok H (s\<lparr>bufs := (bufs s)[i := nb]\<rparr>)" by simp
  show "blk (s\<lparr>bufs := (bufs s)[i := nb]\<rparr>) = (blk s)(b_blockno (bufs s ! i) := d)"
  proof
    fix m
    show "blk (s\<lparr>bufs := (bufs s)[i := nb]\<rparr>) m = ((blk s)(b_blockno (bufs s ! i) := d)) m"
      using blk_update [OF ok ok' h(1), of m] h(3) by (auto simp: nb holds_block_def)
  qed
qed

definition set_data :: "nat \<Rightarrow> byte list \<Rightarrow> ('a bio_st_scheme, unit) kop" where
  "set_data i d = modify (upd_buf i (\<lambda>b. b\<lparr>b_data := d\<rparr>))"

text \<open>The state after a process stores new contents into a buffer it holds.\<close>

definition with_data :: "nat \<Rightarrow> byte list \<Rightarrow> 'a bio_st_scheme \<Rightarrow> 'a bio_st_scheme" where
  "with_data i d s = s\<lparr>bufs := (bufs s)[i := (bufs s ! i)\<lparr>b_data := d\<rparr>]\<rparr>"

lemma wp_set_data: "wp (set_data i d) Q s = Q () (with_data i d s)"
  by (simp add: set_data_def upd_buf_def with_data_def)

lemma with_data:
  assumes ok: "bio_ok H s" and i: "i \<in> H" and "length d = BSIZE"
  shows "bio_ok H (with_data i d s)" "blk (with_data i d s) = (blk s)(b_blockno (bufs s ! i) := d)"
    "dirty_blocks (with_data i d s) = dirty_blocks s" "only_bufs s (with_data i d s)"
    "bufs (with_data i d s) ! i = (bufs s ! i)\<lparr>b_data := d\<rparr>" "j \<noteq> i \<Longrightarrow> bufs (with_data i d s) ! j = bufs s ! j"
proof -
  note h = held_buf [OF ok i]
  have nb: "(bufs s ! i)\<lparr>b_data := d\<rparr> = (bufs s ! i)\<lparr>b_data := d, b_flags := b_flags (bufs s ! i)\<rparr>" by simp
  show "bio_ok H (with_data i d s)" "blk (with_data i d s) = (blk s)(b_blockno (bufs s ! i) := d)"
    unfolding with_data_def by (rule bio_ok_change [OF ok i nb assms(3) h(10)])+
  show "dirty_blocks (with_data i d s) = dirty_blocks s"
    unfolding with_data_def
    by (rule set_eqI, subst dirty_blocks_update [OF ok h(1)])
      (use h(1,3) in \<open>auto simp: dirty_blocks_def dirty_def holds_block_def\<close>)
  show "only_bufs s (with_data i d s)" by (simp add: with_data_def)
  show "bufs (with_data i d s) ! i = (bufs s ! i)\<lparr>b_data := d\<rparr>" "j \<noteq> i \<Longrightarrow> bufs (with_data i d s) ! j = bufs s ! j"
    using h(1,2) by (simp_all add: with_data_def)
qed

text \<open>\<^verbatim>\<open>bwrite\<close> puts the buffer's contents on disk.\<close>

definition bwrite_post :: "nat set \<Rightarrow> nat \<Rightarrow> 'a bio_st_scheme \<Rightarrow> 'a bio_st_scheme \<Rightarrow> bool" where
  "bwrite_post H i s t \<longleftrightarrow> bio_ok H t \<and> blk t = blk s \<and>
     (\<exists>n d. n = b_blockno (bufs s ! i) \<and> d = b_data (bufs s ! i) \<and>
        dirty_blocks t = dirty_blocks s - {n} \<and>
        t = s\<lparr>disk := (disk s)(n := d), dwrites := dwrites s @ [(n, d)],
          bufs := (bufs s)[i := (bufs s ! i)\<lparr>b_flags := B_VALID\<rparr>]\<rparr>)"

lemma wp_bwrite:
  assumes ok: "bio_ok H s" and i: "i \<in> H"
  shows "wp (bwrite i) (\<lambda>_. bwrite_post H i s) s"
proof -
  note h = held_buf [OF ok i]
  let ?n = "b_blockno (bufs s ! i)" and ?d = "b_data (bufs s ! i)"
  let ?nb = "(bufs s ! i)\<lparr>b_flags := B_VALID\<rparr>"
  let ?u = "s\<lparr>bufs := (bufs s)[i := ?nb]\<rparr>"
  let ?t = "s\<lparr>disk := (disk s)(?n := ?d), dwrites := dwrites s @ [(?n, ?d)], bufs := (bufs s)[i := ?nb]\<rparr>"
  have nb: "?nb = (bufs s ! i)\<lparr>b_data := ?d, b_flags := B_VALID\<rparr>" by simp
  have fl: "B_VALID = B_VALID \<or> B_VALID = B_VALID OR B_DIRTY" by simp
  note u = bio_ok_change [OF ok i nb h(8) fl]
  have ctx: "bio_ctx s" using ok by (simp add: bio_ok_def)
  have wfs: "buf_wf (disk ?t) (disksize ?t) (my_pid ?t) (j \<in> H) (bufs ?t ! j)" if "j < NBUF" for j
  proof -
    have "buf_wf (disk s) (disksize s) (my_pid s) (j \<in> H) ((bufs s)[i := ?nb] ! j)"
      using bio_ok_bufs(3) [OF u(1) that] by simp
    moreover have "b_blockno (bufs s ! j) \<noteq> ?n" if "j \<noteq> i" "b_dev (bufs s ! j) = 1"
      using held_unique [OF ok i, of j] that \<open>j < NBUF\<close> by (auto simp: holds_block_def)
    ultimately show ?thesis
      using h(1,2) that by (cases "j = i") (auto simp: buf_wf_def my_pid_def valid_def split: if_splits)
  qed
  have "bio_ctx ?t" using ctx h(8) by (auto simp: bio_ctx_def)
  then have ok': "bio_ok H ?t" using u(1) wfs by (simp add: bio_ok_def)
  have "blk ?t m = blk s m" for m
  proof (cases "\<exists>j. holds_block (bufs ?u) m j")
    case True
    then obtain j where j: "holds_block (bufs ?u) m j" by auto
    then have j': "holds_block (bufs ?t) m j" by simp
    have "blk ?t m = blk ?u m" using blk_cached [OF ok' j'] blk_cached [OF u(1) j] by simp
    also have "\<dots> = blk s m" using u(2) blk_cached [OF ok h(9)] by simp
    finally show ?thesis .
  next
    case False
    have "holds_block (bufs ?u) ?n i" using h by (simp add: holds_block_def)
    then have mn: "m \<noteq> ?n" using False by blast
    have nt: "\<not> holds_block (bufs ?t) m j" for j using False by simp
    have ns: "\<not> holds_block (bufs s) m j" for j
    proof
      assume hj: "holds_block (bufs s) m j"
      then have "j \<noteq> i" using mn by (auto simp: holds_block_def)
      then have "holds_block (bufs ?u) m j" using hj holds_block_update [OF h(1,2)] by simp
      then show False using False by blast
    qed
    from blk_uncached [of ?t m, OF nt] blk_uncached [of s m, OF ns] mn show ?thesis by simp
  qed
  moreover have "dirty_blocks ?t = dirty_blocks s - {?n}"
  proof -
    have "dirty_blocks ?t = dirty_blocks ?u" by (simp add: dirty_blocks_def)
    moreover have "m \<in> dirty_blocks ?u \<longleftrightarrow> m \<in> dirty_blocks s - {?n}" for m
    proof -
      have "\<not> dirty ?nb" by (simp add: flag_defs)
      then have "m \<in> dirty_blocks ?u \<longleftrightarrow> (\<exists>j. j \<noteq> i \<and> holds_block (bufs s) m j \<and> dirty (bufs s ! j))"
        unfolding dirty_blocks_update [OF ok h(1)] by blast
      moreover have "j \<noteq> i \<longleftrightarrow> m \<noteq> ?n" if "holds_block (bufs s) m j" for j
        using that held_unique [OF ok i, of j] by (auto simp: holds_block_def)
      ultimately show ?thesis by (auto simp: dirty_blocks_def)
    qed
    ultimately show ?thesis by blast
  qed
  ultimately have post: "bwrite_post H i s ?t" using ok' by (simp add: bwrite_post_def fun_eq_iff)
  let ?v = "s\<lparr>bufs := (bufs s)[i := (bufs s ! i)\<lparr>b_flags := 6\<rparr>]\<rparr>"
  have v: "b_flags (bufs s ! i) OR B_DIRTY = 6" using h(10) by (auto simp: flag_defs)
  have h1: "wp (holdingsleep (get_buf_lock i)) Q s = Q True s" for Q
    using ctx h(5) by (rule wp_holding_buf)
  have h2: "wp (holdingsleep (get_buf_lock i)) Q ?v = Q True ?v" for Q
    using ctx h by (intro wp_holding_buf) (simp_all add: my_lock_def)
  have "wp (iderw i) Q ?v = Q () ?t" for Q
    using h by (auto simp: iderw_def h2 upd_buf_def flag_defs)
  then show ?thesis using h h1 post v by (simp add: bwrite_def upd_buf_def)
qed

section \<open>Releasing a buffer\<close>

text \<open>The pointer moves of \<^verbatim>\<open>brelse\<close> as a function on the buffers.\<close>

definition set_next :: "nat \<Rightarrow> nat \<Rightarrow> buf list \<Rightarrow> buf list" where
  "set_next i v bs = bs[i := (bs ! i)\<lparr>b_next := v\<rparr>]"

definition set_prev :: "nat \<Rightarrow> nat \<Rightarrow> buf list \<Rightarrow> buf list" where
  "set_prev i v bs = bs[i := (bs ! i)\<lparr>b_prev := v\<rparr>]"

definition unlink_buf :: "nat \<Rightarrow> buf list \<Rightarrow> buf list" where
  "unlink_buf i bs = (let bs1 = set_prev (nexts bs i) (prevs bs i) bs in set_next (prevs bs1 i) (nexts bs1 i) bs1)"

definition push_buf :: "nat \<Rightarrow> buf list \<Rightarrow> buf list" where
  "push_buf i bs = (let bs3 = set_next i (nexts bs NBUF) bs; bs4 = set_prev i NBUF bs3;
     bs5 = set_prev (nexts bs4 NBUF) i bs4 in set_next NBUF i bs5)"

lemma wp_brelse_unlink: "wp (brelse_unlink i) Q s = Q () (s\<lparr>bufs := push_buf i (unlink_buf i (bufs s))\<rparr>)"
  by (simp add: brelse_unlink_def upd_buf_def push_buf_def unlink_buf_def set_next_def set_prev_def
      nexts_def prevs_def Let_def)

lemma set_link_simps [simp]:
  "i < length bs \<Longrightarrow> nexts (set_next i v bs) = (nexts bs)(i := v)"
  "prevs (set_next i v bs) = prevs bs" "length (set_next i v bs) = length bs"
  "i < length bs \<Longrightarrow> prevs (set_prev i v bs) = (prevs bs)(i := v)"
  "nexts (set_prev i v bs) = nexts bs" "length (set_prev i v bs) = length bs"
proof -
  show "prevs (set_next i v bs) = prevs bs" "nexts (set_prev i v bs) = nexts bs"
    by (cases "i < length bs"; auto simp: nexts_def prevs_def set_next_def set_prev_def fun_eq_iff
      nth_list_update list_update_beyond)+
qed (auto simp: nexts_def prevs_def set_next_def set_prev_def fun_eq_iff nth_list_update)

text \<open>Everything but the links of a buffer.\<close>

definition unlinked :: "buf \<Rightarrow> buf" where
  "unlinked b = b\<lparr>b_prev := 0, b_next := 0\<rparr>"

lemma map_set_link [simp]:
  "map unlinked (set_next i v bs) = map unlinked bs" "map unlinked (set_prev i v bs) = map unlinked bs"
proof -
  have "map unlinked (bs[i := c]) = map unlinked bs" if "unlinked c = unlinked (bs ! i)" for c
    using that by (cases "i < length bs") (simp_all add: map_update list_update_same_conv list_update_beyond)
  then show "map unlinked (set_next i v bs) = map unlinked bs" "map unlinked (set_prev i v bs) = map unlinked bs"
    by (simp_all add: set_next_def set_prev_def unlinked_def)
qed

lemma bring_links:
  assumes "bring xs bs" "i < NBUF"
  shows "nexts bs i \<le> NBUF" "prevs bs i \<le> NBUF" "nexts bs i \<noteq> i" "prevs bs i \<noteq> i"
    "\<exists>us vs. xs = us @ i # vs"
proof -
  have i: "i \<in> set xs" using assms by (simp add: bring_def)
  then show "\<exists>us vs. xs = us @ i # vs" by (rule split_list)
  then obtain us vs where xs: "xs = us @ i # vs" by auto
  then have s: "seg (nexts bs) (prevs bs) NBUF us i" "seg (nexts bs) (prevs bs) i vs NBUF"
    using assms(1) by (simp_all add: bring_def seg_append)
  have "nexts bs i \<in> set (vs @ [NBUF])" using seg_first [OF s(2)] by (cases vs) auto
  moreover have "prevs bs i \<in> set (NBUF # us)" using seg_last [OF s(1)] by (cases us rule: rev_cases) auto
  moreover have "set xs \<subseteq> {..<NBUF}" "distinct xs" using assms(1) by (simp_all add: bring_def)
  then have "set us \<subseteq> {..<NBUF} - {i}" "set vs \<subseteq> {..<NBUF} - {i}" unfolding xs by auto
  ultimately have n: "nexts bs i \<in> insert NBUF ({..<NBUF} - {i})" and p: "prevs bs i \<in> insert NBUF ({..<NBUF} - {i})"
    by auto
  have *: "k \<le> NBUF \<and> k \<noteq> i" if "k \<in> insert NBUF ({..<NBUF} - {i})" for k
    using that assms(2) by auto
  show "nexts bs i \<le> NBUF" "prevs bs i \<le> NBUF" "nexts bs i \<noteq> i" "prevs bs i \<noteq> i"
    using * [OF n] * [OF p] by blast+
qed

lemma bring_relink:
  assumes ring: "bring xs bs" and i: "i < NBUF"
  shows "bring (i # remove1 i xs) (push_buf i (unlink_buf i bs))"
    "map unlinked (push_buf i (unlink_buf i bs)) = map unlinked bs"
proof -
  note l = bring_links [OF ring i]
  obtain us vs where xs: "xs = us @ i # vs" using l(5) by auto
  have d: "distinct (NBUF # us @ i # vs)" "NBUF \<notin> set (us @ i # vs)" and set: "set xs = {..<NBUF}"
    and len: "length bs = NBUF + 1" and sg: "seg (nexts bs) (prevs bs) NBUF (us @ i # vs) NBUF"
    using ring xs by (auto simp: bring_def)
  let ?u = "unlink_buf i bs"
  let ?nx = "(nexts bs)(prevs bs i := nexts bs i)" and ?pv = "(prevs bs)(nexts bs i := prevs bs i)"
  have u: "nexts ?u = ?nx" "prevs ?u = ?pv" "length ?u = NBUF + 1"
    using l len by (simp_all add: unlink_buf_def Let_def)
  have s1: "seg ?nx ?pv NBUF (us @ vs) NBUF" using sg d by (rule seg_unlink)
  have first: "?nx NBUF \<in> set ((us @ vs) @ [NBUF])"
    using seg_first [OF s1] by (cases "us @ vs") auto
  moreover have "set (us @ vs) \<subseteq> {..<NBUF}" using set xs by auto
  ultimately have "?nx NBUF \<in> {..<NBUF} \<union> {NBUF}" by auto
  then have bound: "?nx NBUF \<le> NBUF" by (simp only: Un_iff lessThan_iff singleton_iff) auto
  have p: "nexts (push_buf i ?u) = ?nx(i := ?nx NBUF, NBUF := i)"
    "prevs (push_buf i ?u) = ?pv(i := NBUF, ?nx NBUF := i)" "length (push_buf i ?u) = NBUF + 1"
    using u i bound by (simp_all add: push_buf_def Let_def)
  have "seg (?nx(i := ?nx NBUF, NBUF := i)) (?pv(i := NBUF, ?nx NBUF := i)) NBUF (i # us @ vs) NBUF"
    using d by (intro seg_push [OF s1]) auto
  moreover have "remove1 i xs = us @ vs" using xs d by (simp add: remove1_append)
  moreover have "set (us @ vs) = {..<NBUF} - {i}" using set xs d by auto
  ultimately show "bring (i # remove1 i xs) (push_buf i ?u)"
    using p d i by (auto simp: bring_def)
  show "map unlinked (push_buf i ?u) = map unlinked bs"
    by (simp add: push_buf_def unlink_buf_def Let_def)
qed

lemma unlinked_eq:
  assumes "unlinked b = unlinked c"
  shows "b_flags b = b_flags c" "b_dev b = b_dev c" "b_blockno b = b_blockno c" "b_lock b = b_lock c"
    "b_refcnt b = b_refcnt c" "b_data b = b_data c"
  using arg_cong [OF assms, of b_flags] arg_cong [OF assms, of b_dev] arg_cong [OF assms, of b_blockno]
    arg_cong [OF assms, of b_lock] arg_cong [OF assms, of b_refcnt] arg_cong [OF assms, of b_data]
  by (simp_all add: unlinked_def)

text \<open>Relinking the ring and waking processes changes nothing a client sees.\<close>

lemma bio_ok_relink:
  assumes ok: "bio_ok H u" and un: "map unlinked bs = map unlinked (bufs u)" and ring: "bring ys bs"
    and ps: "same_procs u (u\<lparr>procs := ps, bufs := bs\<rparr>)"
  defines "t \<equiv> u\<lparr>procs := ps, bufs := bs\<rparr>"
  shows "bio_ok H t" "blk t = blk u" "dirty_blocks t = dirty_blocks u"
    "j < NBUF \<Longrightarrow> same_buf (bufs u ! j) (bufs t ! j)"
proof -
  have len: "length bs = NBUF + 1" "length (bufs u) = NBUF + 1"
    using ring bio_ok_bufs(1) [OF ok] by (simp_all add: bring_def)
  have nth: "unlinked (bs ! j) = unlinked (bufs u ! j)" if "j < NBUF" for j
    using that len arg_cong [OF un, of "\<lambda>xs. xs ! j"] by simp
  note fields = unlinked_eq [OF nth]
  have hb: "holds_block bs = holds_block (bufs u)"
    by (auto simp: holds_block_def fun_eq_iff fields)
  have dty: "dirty (bs ! j) = dirty (bufs u ! j)" if "j < NBUF" for j
    using fields(1) [OF that] by (simp add: dirty_def)
  have vld: "valid (bs ! j) = valid (bufs u ! j)" if "j < NBUF" for j
    using fields(1) [OF that] by (simp add: valid_def)
  have only: "only_bufs u t" using ps by (auto simp: only_bufs_def t_def)
  have ctx: "bio_ctx u" using ok by (simp add: bio_ok_def)
  note fr = only_bufsD [OF only]
  have wf: "buf_wf (disk t) (disksize t) (my_pid t) (j \<in> H) (bufs t ! j)" if "j < NBUF" for j
  proof -
    have "buf_wf (disk u) (disksize u) (my_pid u) (j \<in> H) (bs ! j)"
      using bio_ok_bufs(3) [OF ok that] by (simp add: buf_wf_def fields [OF that] dty [OF that] vld [OF that])
    then show ?thesis using fr(7) [OF ctx] by (simp add: t_def)
  qed
  have "bufs t = bs" by (simp add: t_def)
  have un': "i = j" if "holds_block (bufs u) n i" "holds_block (bufs u) n j" for n i j
    using bio_ok_bufs(4) [OF ok that] .
  show "bio_ok H t"
    unfolding bio_ok_def \<open>bufs t = bs\<close> hb
    using fr(6) [OF ctx] ring wf un' bio_ok_bufs(2) [OF ok] \<open>bufs t = bs\<close> by blast
  have "find (holds_block (bufs u) n) [0..<NBUF] = Some j \<Longrightarrow> b_data (bs ! j) = b_data (bufs u ! j)" for n j
    using find_holds(1) fields(6) by (auto simp: holds_block_def)
  then show "blk t = blk u"
    by (auto simp: fun_eq_iff blk_def \<open>bufs t = bs\<close> hb fr(1) split: option.splits)
  have dd: "(holds_block (bufs u) n j \<and> dirty (bs ! j)) = (holds_block (bufs u) n j \<and> dirty (bufs u ! j))" for n j
    using dty [of j] by (auto simp: holds_block_def)
  show "dirty_blocks t = dirty_blocks u"
    by (simp add: dirty_blocks_def \<open>bufs t = bs\<close> hb dd)
  show "j < NBUF \<Longrightarrow> same_buf (bufs u ! j) (bufs t ! j)"
    by (simp add: same_buf_def \<open>bufs t = bs\<close> fields)
qed

definition brelse_post :: "nat set \<Rightarrow> nat \<Rightarrow> 'a bio_st_scheme \<Rightarrow> 'a bio_st_scheme \<Rightarrow> bool" where
  "brelse_post H i s t \<longleftrightarrow> bio_ok (H - {i}) t \<and> blk t = blk s \<and> dirty_blocks t = dirty_blocks s \<and>
     only_bufs s t \<and> (\<forall>j < NBUF. same_buf (bufs s ! j) (bufs t ! j))"

text \<open>A buffer may be released when its contents are on disk or will be written (it is dirty).\<close>

definition settled :: "'a bio_st_scheme \<Rightarrow> nat \<Rightarrow> bool" where
  "settled s i \<longleftrightarrow> dirty (bufs s ! i) \<or> b_data (bufs s ! i) = disk s (b_blockno (bufs s ! i))"

lemma wp_brelse:
  assumes ok: "bio_ok H s" and i: "i \<in> H" and st: "settled s i"
  shows "wp (brelse i) (\<lambda>_. brelse_post H i s) s"
proof -
  note h = held_buf [OF ok i]
  have ctx: "bio_ctx s" using ok by (simp add: bio_ok_def)
  let ?nb = "(bufs s ! i)\<lparr>b_lock := \<lparr>sl_locked = False, sl_pid = 0\<rparr>, b_refcnt := 0\<rparr>"
  let ?u = "s\<lparr>bufs := (bufs s)[i := ?nb]\<rparr>"
  have "bio_ok (H - {i}) ?u"
  proof (rule bio_ok_give [OF ok h(1)])
    show "buf_wf (disk s) (disksize s) (my_pid s) False ?nb"
      using h st by (auto simp: buf_wf_def settled_def valid_def dirty_def)
    show "j = i" if "holds_block (bufs s) (b_blockno ?nb) j" for j
      using that by (intro held_unique [OF ok i]) simp
  qed simp_all
  note u = this
  obtain xs where "bring xs (bufs ?u)" using u by (auto simp: bio_ok_def)
  note ring = bring_relink [OF this h(1)]
  let ?bs = "push_buf i (unlink_buf i (bufs ?u))" and ?ps = "map (wake (Ch_buflock i)) (procs s)"
  let ?t = "?u\<lparr>procs := ?ps, bufs := ?bs\<rparr>"
  have sp: "same_procs ?u ?t" by (simp add: same_procs_def comp_def)
  note t = bio_ok_relink [OF u ring(2) ring(1) sp]
  have "blk ?u m = blk s m" for m
    using blk_update [OF ok u h(1), of m] blk_cached [OF ok h(9)] h(3) by (auto simp: holds_block_def)
  moreover have "dirty_blocks ?u = dirty_blocks s"
    by (rule set_eqI, subst dirty_blocks_update [OF ok h(1)])
      (use h(1,3) in \<open>auto simp: dirty_blocks_def dirty_def holds_block_def\<close>)
  moreover have "same_buf (bufs s ! j) (bufs ?u ! j)" if "j < NBUF" for j
    using that h(1,2) by (cases "j = i") (simp_all add: same_buf_def)
  then have "same_buf (bufs s ! j) (bufs ?t ! j)" if "j < NBUF" for j
    using t(4) [OF that] that by (simp add: same_buf_def)
  moreover have "only_bufs s ?t"
    unfolding only_bufs_def using sp by (auto simp: same_procs_def)
  ultimately have post: "brelse_post H i s ?t"
    unfolding brelse_post_def using t(1-3) by (auto simp: fun_eq_iff)
  have h1: "wp (holdingsleep (get_buf_lock i)) Q s = Q True s" for Q
    using ctx h(5) by (rule wp_holding_buf)
  have lk: "''sleep lock'' \<notin> held s" "''bcache'' \<notin> held s" "''ptable'' \<notin> held s"
    using ctx by (simp_all add: bio_ctx_def)
  show ?thesis
    using post h lk
    by (simp add: brelse_def h1 buflock.wp_releasesleep wp_brelse_unlink upd_buf_lock_def upd_buf_def)
qed

section \<open>Initialization\<close>

lemma set_lock_links [simp]:
  "nexts (bs[i := (bs ! i)\<lparr>b_lock := l\<rparr>]) = nexts bs" "prevs (bs[i := (bs ! i)\<lparr>b_lock := l\<rparr>]) = prevs bs"
  by (cases "i < length bs"; auto simp: nexts_def prevs_def fun_eq_iff nth_list_update list_update_beyond)+

text \<open>A turn of the loop of \<^verbatim>\<open>binit\<close> as a function on the buffers.\<close>

definition init_buf :: "nat \<Rightarrow> buf list \<Rightarrow> buf list" where
  "init_buf b bs = (let n = nexts bs NBUF; bs2 = set_prev b NBUF (set_next b n bs);
     bs3 = bs2[b := (bs2 ! b)\<lparr>b_lock := \<lparr>sl_locked = False, sl_pid = 0\<rparr>\<rparr>] in set_next NBUF b (set_prev n b bs3))"

lemma wp_binit_buf:
  "''sleep lock'' \<notin> held s \<Longrightarrow> wp (binit_buf b) Q s = Q () (s\<lparr>bufs := init_buf b (bufs s)\<rparr>)"
  by (simp add: binit_buf_def init_buf_def initsleeplock_def initlock_def upd_buf_def upd_buf_lock_def
      set_next_def set_prev_def nexts_def Let_def)

text \<open>A buffer as the loader leaves it: all zero.\<close>

definition buf_zero :: "buf \<Rightarrow> bool" where
  "buf_zero b \<longleftrightarrow> b_flags b = 0 \<and> b_dev b = 0 \<and> b_refcnt b = 0 \<and> \<not> sl_locked (b_lock b) \<and> length (b_data b) = BSIZE"

lemma buf_zero_set [simp]:
  "i < length bs \<Longrightarrow> list_all buf_zero bs \<Longrightarrow> list_all buf_zero (set_next i v bs)"
  "i < length bs \<Longrightarrow> list_all buf_zero bs \<Longrightarrow> list_all buf_zero (set_prev i v bs)"
  "i < length bs \<Longrightarrow> list_all buf_zero bs \<Longrightarrow> \<not> sl_locked l \<Longrightarrow> list_all buf_zero (bs[i := (bs ! i)\<lparr>b_lock := l\<rparr>])"
  by (auto simp: list_all_length set_next_def set_prev_def nth_list_update buf_zero_def)

lemma init_buf_ring:
  assumes "seg (nexts bs) (prevs bs) NBUF (rev [0..<b]) NBUF" "length bs = NBUF + 1" "b < NBUF" "list_all buf_zero bs"
  shows "seg (nexts (init_buf b bs)) (prevs (init_buf b bs)) NBUF (rev [0..<Suc b]) NBUF"
    "length (init_buf b bs) = NBUF + 1" "list_all buf_zero (init_buf b bs)"
proof -
  let ?n = "nexts bs NBUF"
  have "?n \<in> insert NBUF {..<b}" using seg_first [OF assms(1)] by (cases b) auto
  then have n: "?n < NBUF + 1" using assms(3) by auto
  have "seg ((nexts bs)(b := ?n, NBUF := b)) ((prevs bs)(b := NBUF, ?n := b)) NBUF (b # rev [0..<b]) NBUF"
    using assms(3) by (intro seg_push [OF assms(1)]) auto
  then show "seg (nexts (init_buf b bs)) (prevs (init_buf b bs)) NBUF (rev [0..<Suc b]) NBUF"
    using assms(2,3) n by (simp add: init_buf_def Let_def)
  show "length (init_buf b bs) = NBUF + 1" using assms(2) by (simp add: init_buf_def Let_def)
  show "list_all buf_zero (init_buf b bs)" using assms(2-4) n by (simp add: init_buf_def Let_def)
qed

text \<open>The buffers as \<^verbatim>\<open>binit\<close> leaves them: linked in the ring, and otherwise zero.\<close>

definition fresh_bufs :: "buf list \<Rightarrow> bool" where
  "fresh_bufs bs \<longleftrightarrow> length bs = NBUF + 1 \<and> list_all buf_zero bs \<and> seg (nexts bs) (prevs bs) NBUF (rev [0..<NBUF]) NBUF"

lemma fresh_bufs_clean:
  assumes "fresh_bufs (bufs t)"
  shows "\<not> holds_block (bufs t) n i" "dirty_blocks t = {}" "blk t = disk t"
proof -
  have nh: "\<not> holds_block (bufs t) n i" for n i
    using assms by (auto simp: holds_block_def buf_zero_def list_all_length fresh_bufs_def)
  then show "\<not> holds_block (bufs t) n i" "dirty_blocks t = {}" by (simp_all add: dirty_blocks_def)
  have "blk t n = disk t n" for n using nh by (intro blk_uncached) simp
  then show "blk t = disk t" by (simp add: fun_eq_iff)
qed

lemma fresh_bufs_ok:
  assumes ctx: "bio_ctx t" and fr: "fresh_bufs (bufs t)"
  shows "bio_ok {} t"
proof -
  have "bring (rev [0..<NBUF]) (bufs t)" using fr by (auto simp: bring_def fresh_bufs_def)
  moreover have "buf_zero (bufs t ! j)" if "j < NBUF" for j using fr that by (simp add: list_all_length fresh_bufs_def)
  ultimately show ?thesis using ctx fresh_bufs_clean(1) [OF fr] by (auto simp: bio_ok_def buf_wf_def buf_zero_def valid_def)
qed

lemma wp_binit_fresh:
  assumes lk: "''sleep lock'' \<notin> held s" "''bcache'' \<notin> held s"
    and len: "length (bufs s) = NBUF + 1" and zero: "list_all buf_zero (bufs s)"
  shows "wp binit (\<lambda>_ t. \<exists>bs. t = s\<lparr>bufs := bs\<rparr> \<and> fresh_bufs bs) s"
proof -
  let ?b0 = "set_next NBUF NBUF (set_prev NBUF NBUF (bufs s))"
  let ?I = "\<lambda>done t. \<exists>bs. t = s\<lparr>bufs := bs\<rparr> \<and> length bs = NBUF + 1 \<and>
    list_all buf_zero bs \<and> seg (nexts bs) (prevs bs) NBUF (rev [0..<length done]) NBUF"
  have "wp (forK binit_buf [0..<NBUF]) (\<lambda>_ t. \<exists>bs. t = s\<lparr>bufs := bs\<rparr> \<and> fresh_bufs bs) (s\<lparr>bufs := ?b0\<rparr>)"
  proof (rule wp_forK [where I = ?I])
    show "?I [] (s\<lparr>bufs := ?b0\<rparr>)" 
      using len zero by (intro exI [of _ ?b0]) simp
  next
    fix dn b rest t
    assume split: "[0..<NBUF] = dn @ b # rest" and I: "?I dn t"
    note b = upt_eq_append(1,2) [OF split]
    obtain bs where t: "t = s\<lparr>bufs := bs\<rparr>" and bs: "length bs = NBUF + 1" "list_all buf_zero bs"
        "seg (nexts bs) (prevs bs) NBUF (rev [0..<b]) NBUF" using I b by auto
    have "?I (dn @ [b]) (t\<lparr>bufs := init_buf b bs\<rparr>)"
      using init_buf_ring [OF bs(3,1) b(2) bs(2)] b t by (intro exI [of _ "init_buf b bs"]) simp
    then show "wp (binit_buf b) (\<lambda>_. ?I (dn @ [b])) t" using lk t by (simp add: wp_binit_buf)
  next
    show "\<exists>bs. t = s\<lparr>bufs := bs\<rparr> \<and> fresh_bufs bs" if "?I [0..<NBUF] t" for t using that by (simp add: fresh_bufs_def)
  qed
  then show ?thesis
    using lk by (simp add: binit_def initlock_def upd_buf_def set_next_def set_prev_def)
qed

lemma wp_binit:
  assumes ctx: "bio_ctx s" and len: "length (bufs s) = NBUF + 1" and zero: "list_all buf_zero (bufs s)"
  shows "wp binit (\<lambda>_ t. bio_ok {} t \<and> (\<exists>bs. t = s\<lparr>bufs := bs\<rparr>) \<and> dirty_blocks t = {} \<and> blk t = disk t) s"
proof (rule wp_mono [OF wp_binit_fresh [OF _ _ len zero]])
  fix r t
  assume "\<exists>bs. t = s\<lparr>bufs := bs\<rparr> \<and> fresh_bufs bs"
  then obtain bs where t: "t = s\<lparr>bufs := bs\<rparr>" "fresh_bufs bs" by blast
  have "bio_ctx t" "fresh_bufs (bufs t)" using ctx t by (simp_all add: bio_ctx_def)
  from fresh_bufs_ok [OF this] fresh_bufs_clean(2,3) [OF this(2)] t(1) show "bio_ok {} t \<and> (\<exists>bs. t = s\<lparr>bufs := bs\<rparr>) \<and> dirty_blocks t = {} \<and> blk t = disk t" by blast
qed (use ctx in \<open>simp_all add: bio_ctx_def\<close>)

section \<open>The contract of the cache\<close>

text \<open>
  What the layers above rely on. \<open>contents s n\<close> is the block as the kernel sees it; a buffer is got by
  \<open>rd\<close>, which locks it, and given back by \<open>rel\<close>.
\<close>

locale block_store =
  fixes ok :: "nat set \<Rightarrow> 's \<Rightarrow> bool"
    and room :: "nat set \<Rightarrow> 's \<Rightarrow> bool"
    and dsize :: "'s \<Rightarrow> nat"
    and contents :: "'s \<Rightarrow> nat \<Rightarrow> byte list"
    and at :: "'s \<Rightarrow> nat \<Rightarrow> nat \<Rightarrow> bool"
    and data :: "'s \<Rightarrow> nat \<Rightarrow> byte list"
    and rest :: "'s \<Rightarrow> nat \<Rightarrow> bool"
    and rd :: "nat \<Rightarrow> ('s, nat) kop"
    and rel :: "nat \<Rightarrow> ('s, unit) kop"
  assumes rd_block: "ok H s \<Longrightarrow> n < dsize s \<Longrightarrow> (\<And>i. i \<in> H \<Longrightarrow> \<not> at s n i) \<Longrightarrow> room H s \<Longrightarrow>
      wp (rd n) (\<lambda>i t. ok (insert i H) t \<and> i \<notin> H \<and> at t n i \<and> data t i = contents s n \<and>
        contents t = contents s \<and> rest t i) s"
    and rel_block: "ok H s \<Longrightarrow> i \<in> H \<Longrightarrow> rest s i \<Longrightarrow>
      wp (rel i) (\<lambda>_ t. ok (H - {i}) t \<and> contents t = contents s) s"
begin

text \<open>Reading a block and releasing its buffer returns the contents and changes no block.\<close>

lemma read_block:
  assumes "ok H s" "n < dsize s" "\<And>i. i \<in> H \<Longrightarrow> \<not> at s n i" "room H s"
  shows "wp (bind (rd n) (\<lambda>i. bind (gets (\<lambda>s. data s i)) (\<lambda>d. andthen (rel i) (ret d))))
    (\<lambda>d t. d = contents s n \<and> ok H t \<and> contents t = contents s) s"
proof -
  have "wp (rel i) (\<lambda>_ u. data t i = contents s n \<and> ok H u \<and> contents u = contents s) t"
    if "ok (insert i H) t \<and> i \<notin> H \<and> at t n i \<and> data t i = contents s n \<and> contents t = contents s \<and> rest t i" for i t
  proof -
    have "insert i H - {i} = H" using that by auto
    with rel_block [of "insert i H" t i] that show ?thesis by (auto intro: wp_mono)
  qed
  then show ?thesis using wp_mono [OF rd_block [OF assms]] by simp
qed

end

definition buf_data :: "'a bio_st_scheme \<Rightarrow> nat \<Rightarrow> byte list" where
  "buf_data s i = b_data (bufs s ! i)"

definition buf_at :: "'a bio_st_scheme \<Rightarrow> nat \<Rightarrow> nat \<Rightarrow> bool" where
  "buf_at s n i \<longleftrightarrow> holds_block (bufs s) n i"

lemma bread_post_settled: "bread_post H n s i t \<Longrightarrow> settled t i"
proof -
  assume p: "bread_post H n s i t"
  then have "disk t = disk s" using only_bufsD(1) [of s t] by (auto simp: bread_post_def)
  with p show ?thesis by (auto simp: bread_post_def settled_def holds_block_def)
qed

interpretation bcache: block_store bio_ok avail disksize blk buf_at buf_data settled "bread 1" brelse
proof unfold_locales
  fix H and s :: "'a bio_st_scheme" and n
  assume "bio_ok H s" "n < disksize s" "\<And>i. i \<in> H \<Longrightarrow> \<not> buf_at s n i" "avail H s"
  then have "wp (bread 1 n) (bread_post H n s) s" by (intro wp_bread) (auto simp: buf_at_def)
  then show "wp (bread 1 n) (\<lambda>i t. bio_ok (insert i H) t \<and> i \<notin> H \<and> buf_at t n i \<and> buf_data t i = blk s n \<and>
        blk t = blk s \<and> settled t i) s"
    by (rule wp_mono) (frule bread_post_settled, simp add: bread_post_def buf_at_def buf_data_def)
next
  fix H and s :: "'a bio_st_scheme" and i
  assume "bio_ok H s" "i \<in> H" "settled s i"
  then show "wp (brelse i) (\<lambda>_ t. bio_ok (H - {i}) t \<and> blk t = blk s) s"
    by (intro wp_mono [OF wp_brelse]) (auto simp: brelse_post_def)
qed

text \<open>A machine at boot, and after \<^verbatim>\<open>binit\<close>.\<close>

definition buf_boot :: buf where
  "buf_boot = \<lparr>b_flags = 0, b_dev = 0, b_blockno = 0, b_lock = \<lparr>sl_locked = False, sl_pid = 0\<rparr>, b_refcnt = 0,
     b_prev = 0, b_next = 0, b_data = replicate BSIZE 0\<rparr>"

definition bio_boot :: bio_st where
  "bio_boot = \<lparr>held = {}, km_use_lock = True, km_freelist = 0, km_mem = (\<lambda>_. 0), km_end = 0, km_kmap = [], km_cur = 0,
     procs = [proc_demo], nextpid = 2, initproc = Some 0, cur = Some 0,
     bufs = replicate (NBUF + 1) buf_boot, disk = (\<lambda>n. replicate BSIZE (of_nat n)), disksize = 1000, dwrites = []\<rparr>"

text \<open>C6: \<^verbatim>\<open>binit\<close>, which \<^verbatim>\<open>main\<close> calls before there is a process, links the zeroed buffers into the ring and establishes the
  cache's invariant for whichever process \<open>p\<close> of a process table \<open>ps\<close> runs next: nobody holds a buffer, nothing is
  dirty, and every block reads as the disk has it.\<close>

theorem binit_establishes:
  assumes "''sleep lock'' \<notin> held s" "''bcache'' \<notin> held s" "''ptable'' \<notin> held s" "\<And>n. length (disk s n) = BSIZE"
    "length (bufs s) = NBUF + 1" "list_all buf_zero (bufs s)"
  shows "wp binit (\<lambda>_ t. (\<forall>ps p. p < length ps \<longrightarrow> bio_ok {} (t\<lparr>procs := ps, cur := Some p\<rparr>)) \<and>
    dirty_blocks t = {} \<and> blk t = disk s) s"
proof (rule wp_mono [OF wp_binit_fresh [OF assms(1,2,5,6)]])
  fix r t
  assume "\<exists>bs. t = s\<lparr>bufs := bs\<rparr> \<and> fresh_bufs bs"
  then obtain bs where t: "t = s\<lparr>bufs := bs\<rparr>" "fresh_bufs bs" by blast
  have "bio_ok {} (t\<lparr>procs := ps, cur := Some p\<rparr>)" if "p < length ps" for ps p
    using that assms(1-4) t by (intro fresh_bufs_ok) (simp_all add: bio_ctx_def)
  moreover have "dirty_blocks t = {}" "blk t = disk s" using fresh_bufs_clean(2,3) [of t] t by simp_all
  ultimately show "(\<forall>ps p. p < length ps \<longrightarrow> bio_ok {} (t\<lparr>procs := ps, cur := Some p\<rparr>)) \<and> dirty_blocks t = {} \<and> blk t = disk s" by simp
qed

lemma bio_boot_ok: "bio_ctx bio_boot" "length (bufs bio_boot) = NBUF + 1" "list_all buf_zero (bufs bio_boot)"
  by (simp_all add: bio_boot_def bio_ctx_def buf_boot_def buf_zero_def list_all_length)

theorem binit_establishes_witness:
  "wp binit (\<lambda>_ t. bio_ok {} (t\<lparr>procs := [proc_demo], cur := Some 0\<rparr>) \<and> dirty_blocks t = {} \<and> blk t = disk bio_boot)
     (bio_boot\<lparr>procs := [], cur := None\<rparr>)"
proof -
  have "list_all buf_zero (bufs (bio_boot\<lparr>procs := [], cur := None\<rparr>))" using bio_boot_ok(3) by simp
  from binit_establishes [OF _ _ _ _ _ this] show ?thesis
    by (rule wp_mono) (auto simp: bio_boot_def)
qed

definition bio_demo :: bio_st where
  "bio_demo = snd (projr (binit bio_boot))"

lemma bio_demo_ok: "bio_ok {} bio_demo" "dirty_blocks bio_demo = {}" "disksize bio_demo = 1000" "blk bio_demo = disk bio_boot"
proof -
  obtain x t where t: "binit bio_boot = Inr (x, t)" and p: "bio_ok {} t \<and> (\<exists>bs. t = bio_boot\<lparr>bufs := bs\<rparr>) \<and>
      dirty_blocks t = {} \<and> blk t = disk t"
    using wp_returns [OF wp_binit [OF bio_boot_ok]] by blast
  have "disksize t = disksize bio_boot" "disk t = disk bio_boot" using p by auto
  moreover from t have "bio_demo = t" by (simp add: bio_demo_def)
  ultimately show "bio_ok {} bio_demo" "dirty_blocks bio_demo = {}" "disksize bio_demo = 1000" "blk bio_demo = disk bio_boot"
    using p by (simp_all add: bio_boot_def)
qed

text \<open>C7: Reading a block through the cache (\<^verbatim>\<open>bread\<close>, then \<^verbatim>\<open>brelse\<close>) never panics while a buffer can be
  recycled, returns the block's contents (the cached copy if there is one, even if it is not on disk
  yet), and changes the contents of no block: eviction loses nothing.\<close>

theorem bread_brelse_contents:
  assumes "bio_ok H s" "n < disksize s" "\<And>i. i \<in> H \<Longrightarrow> \<not> buf_at s n i" "avail H s"
  shows "wp (bind (bread 1 n) (\<lambda>i. bind (gets (\<lambda>s. buf_data s i)) (\<lambda>d. andthen (brelse i) (ret d))))
    (\<lambda>d t. d = blk s n \<and> bio_ok H t \<and> blk t = blk s) s"
  using assms by (rule bcache.read_block)

theorem bread_brelse_contents_witness:
  "wp (bind (bread 1 7) (\<lambda>i. bind (gets (\<lambda>s. buf_data s i)) (\<lambda>d. andthen (brelse i) (ret d))))
    (\<lambda>d t. d = replicate BSIZE 7 \<and> bio_ok {} t \<and> blk t = blk bio_demo) bio_demo"
  using bread_brelse_contents [of "{}" bio_demo 7] bio_demo_ok
  by (simp add: avail_def NBUF_def bio_boot_def)

end
