(* ===== verification/Block_Io.thy ===== *)
theory Block_Io
  imports Bio
begin

text \<open>
  Transfers the log and the file system build from \<^verbatim>\<open>bread\<close>, \<^verbatim>\<open>bwrite\<close> and \<^verbatim>\<open>brelse\<close>, and what they
  do to the contents of the blocks.
\<close>

section \<open>What block I/O leaves alone\<close>

definition only_io :: "'a bio_st_scheme \<Rightarrow> 'a bio_st_scheme \<Rightarrow> bool" where
  "only_io s t \<longleftrightarrow> same_procs s t \<and> (\<exists>ps bs d w. t = s\<lparr>procs := ps, bufs := bs, disk := d, dwrites := w\<rparr>)"

lemma only_io_refl [simp, intro]: "only_io s s"
proof -
  have "s = s\<lparr>procs := procs s, bufs := bufs s, disk := disk s, dwrites := dwrites s\<rparr>" by simp
  then show ?thesis unfolding only_io_def by blast
qed

lemma only_io_trans:
  assumes "only_io s t" "only_io t u"
  shows "only_io s u"
proof -
  obtain ps bs d w where t: "t = s\<lparr>procs := ps, bufs := bs, disk := d, dwrites := w\<rparr>"
    using assms(1) by (auto simp: only_io_def)
  obtain ps' bs' d' w' where u: "u = t\<lparr>procs := ps', bufs := bs', disk := d', dwrites := w'\<rparr>"
    using assms(2) by (auto simp: only_io_def)
  have "u = s\<lparr>procs := ps', bufs := bs', disk := d', dwrites := w'\<rparr>" unfolding u t by simp
  moreover have "same_procs s u" using assms same_procs_trans by (auto simp: only_io_def)
  ultimately show ?thesis unfolding only_io_def by blast
qed

lemma only_bufs_io: "only_bufs s t \<Longrightarrow> only_io s t"
proof -
  assume "only_bufs s t"
  then obtain ps bs where t: "t = s\<lparr>procs := ps, bufs := bs\<rparr>" and sp: "same_procs s t"
    by (auto simp: only_bufs_def)
  have "t = s\<lparr>procs := ps, bufs := bs, disk := disk s, dwrites := dwrites s\<rparr>" unfolding t by simp
  with sp show ?thesis unfolding only_io_def by blast
qed

lemma bwrite_post_io:
  assumes "bwrite_post H i s t"
  shows "only_io s t"
proof -
  obtain d w bs where t: "t = s\<lparr>disk := d, dwrites := w, bufs := bs\<rparr>"
    using assms by (auto simp: bwrite_post_def)
  have "t = s\<lparr>procs := procs s, bufs := bs, disk := d, dwrites := w\<rparr>" unfolding t by simp
  moreover have "same_procs s t" unfolding t by (simp add: same_procs_def)
  ultimately show ?thesis unfolding only_io_def by blast
qed

lemma only_ioD:
  assumes "only_io s t"
  shows "disksize t = disksize s" "held t = held s" "cur t = cur s" "same_procs s t"
proof -
  obtain ps bs d w where t: "t = s\<lparr>procs := ps, bufs := bs, disk := d, dwrites := w\<rparr>"
    using assms by (auto simp: only_io_def)
  show "disksize t = disksize s" unfolding t by simp
  show sp: "same_procs s t" using assms by (simp add: only_io_def)
  show "held t = held s" "cur t = cur s" using same_procs_held [OF sp] same_procs_cur [OF sp] .
qed

section \<open>Releasing several buffers\<close>

lemma settled_brelse:
  assumes "brelse_post H p s t" "j < NBUF" "settled s j"
  shows "settled t j"
proof -
  have sb: "same_buf (bufs s ! j) (bufs t ! j)" and "disk t = disk s"
    using assms(1,2) only_bufsD(1) [of s t] by (auto simp: brelse_post_def)
  then show ?thesis using assms(3) by (simp add: settled_def same_buf_def dirty_def)
qed

lemma wp_release_all:
  assumes "bio_ok (set ps) s" "distinct ps" "\<And>i. i \<in> set ps \<Longrightarrow> settled s i"
  shows "wp (forK brelse ps) (\<lambda>_ t. bio_ok {} t \<and> blk t = blk s \<and> dirty_blocks t = dirty_blocks s \<and> only_bufs s t) s"
  using assms
proof (induction ps arbitrary: s)
  case Nil
  then show ?case by simp
next
  case (Cons p ps)
  have "wp (forK brelse ps) (\<lambda>_ u. bio_ok {} u \<and> blk u = blk s \<and> dirty_blocks u = dirty_blocks s \<and> only_bufs s u) t"
    if t: "brelse_post (set (p # ps)) p s t" for t
  proof -
    have "set (p # ps) - {p} = set ps" using Cons.prems(2) by auto
    then have ok: "bio_ok (set ps) t" using t by (simp add: brelse_post_def)
    have "settled t i" if "i \<in> set ps" for i
      using that Cons.prems(3) bio_ok_bufs(2) [OF Cons.prems(1)] by (intro settled_brelse [OF t]) auto
    from Cons.IH [OF ok _ this] Cons.prems(2)
    have "wp (forK brelse ps) (\<lambda>_ u. bio_ok {} u \<and> blk u = blk t \<and> dirty_blocks u = dirty_blocks t \<and> only_bufs t u) t"
      by simp
    then show ?thesis
      by (rule wp_mono) (use t in \<open>auto simp: brelse_post_def intro: only_bufs_trans\<close>)
  qed
  moreover have "wp (brelse p) (\<lambda>_. brelse_post (set (p # ps)) p s) s"
    using Cons.prems by (intro wp_brelse) auto
  ultimately show ?case by (auto intro: wp_mono)
qed

section \<open>Writing a block\<close>

text \<open>The block \<open>n\<close> has been given the contents \<open>d\<close>, in the cache and on disk, by one disk write.\<close>

definition wrote :: "nat \<Rightarrow> byte list \<Rightarrow> 'a bio_st_scheme \<Rightarrow> 'a bio_st_scheme \<Rightarrow> bool" where
  "wrote n d s t \<longleftrightarrow> bio_ok {} t \<and> blk t = (blk s)(n := d) \<and> disk t = (disk s)(n := d) \<and>
     dwrites t = dwrites s @ [(n, d)] \<and> dirty_blocks t = dirty_blocks s - {n} \<and> only_io s t"

lemma settled_bwrite:
  assumes ok: "bio_ok H s" and w: "bwrite_post H x s t" and x: "x \<in> H" and j: "j \<in> H" "j = x \<or> settled s j"
  shows "settled t j"
proof -
  note hx = held_buf [OF ok x] and hj = held_buf [OF ok j(1)]
  have t: "disk t = (disk s)(b_blockno (bufs s ! x) := b_data (bufs s ! x))"
    "bufs t = (bufs s)[x := (bufs s ! x)\<lparr>b_flags := B_VALID\<rparr>]"
    using w by (auto simp: bwrite_post_def)
  show ?thesis
  proof (cases "j = x")
    case True
    then show ?thesis using hx(1,2) by (simp add: settled_def t)
  next
    case False
    then have "b_blockno (bufs s ! j) \<noteq> b_blockno (bufs s ! x)"
      using held_unique [OF ok x, of j] hj by (auto simp: holds_block_def)
    with False j(2) show ?thesis by (simp add: settled_def t)
  qed
qed

text \<open>Storing into a held buffer, writing it, and releasing all the buffers held.\<close>

lemma wp_write_release:
  assumes ok: "bio_ok (set ps) s" and ps: "distinct ps" and x: "x \<in> set ps" and d: "length d = BSIZE"
    and st: "\<And>i. i \<in> set ps \<Longrightarrow> i \<noteq> x \<Longrightarrow> settled s i"
  shows "wp (andthen (set_data x d) (andthen (bwrite x) (forK brelse ps)))
    (\<lambda>_. wrote (b_blockno (bufs s ! x)) d s) s"
proof -
  let ?n = "b_blockno (bufs s ! x)" and ?u = "with_data x d s"
  note u = with_data [OF ok x d]
  have un: "b_blockno (bufs ?u ! x) = ?n" "b_data (bufs ?u ! x) = d" by (simp_all add: u(5))
  have ud: "disk ?u = disk s" "dwrites ?u = dwrites s" using only_bufsD(1,3) [OF u(4)] by auto
  have stu: "settled ?u i" if "i \<in> set ps" "i \<noteq> x" for i
    using st [OF that] u(6) [OF that(2)] by (simp add: settled_def ud)
  have "wp (forK brelse ps) (\<lambda>_. wrote ?n d s) v" if w: "bwrite_post (set ps) x ?u v" for v
  proof -
    have v: "bio_ok (set ps) v" "blk v = (blk s)(?n := d)" "dirty_blocks v = dirty_blocks s - {?n}"
      "disk v = (disk s)(?n := d)" "dwrites v = dwrites s @ [(?n, d)]"
      using w u(2,3) un ud by (auto simp: bwrite_post_def)
    have io: "only_io s v" by (rule only_io_trans [OF only_bufs_io [OF u(4)] bwrite_post_io [OF w]])
    have "settled v i" if "i \<in> set ps" for i
      using stu [OF that] that by (intro settled_bwrite [OF u(1) w x]) auto
    then show ?thesis
    proof (rule wp_mono [OF wp_release_all [OF v(1) ps]])
      fix r t
      assume t: "bio_ok {} t \<and> blk t = blk v \<and> dirty_blocks t = dirty_blocks v \<and> only_bufs v t"
      then have ob: "only_bufs v t" by simp
      have "only_io s t" by (rule only_io_trans [OF io only_bufs_io [OF ob]])
      then show "wrote ?n d s t" using t v only_bufsD(1,3) [OF ob] by (simp add: wrote_def)
    qed
  qed
  then show ?thesis using wp_mono [OF wp_bwrite [OF u(1) x]] by (simp add: wp_set_data)
qed

section \<open>Reading one or two blocks\<close>

text \<open>The cache after some reads: same contents, these buffers held, each ready to be released.\<close>

definition reads :: "nat set \<Rightarrow> 'a bio_st_scheme \<Rightarrow> 'a bio_st_scheme \<Rightarrow> bool" where
  "reads H s t \<longleftrightarrow> bio_ok H t \<and> (\<forall>i \<in> H. settled t i) \<and> blk t = blk s \<and> dirty_blocks t = dirty_blocks s \<and> only_bufs s t"

lemma wrote_reads:
  assumes "reads H s t" "wrote n d t u"
  shows "wrote n d s u"
proof -
  have ob: "only_bufs s t" using assms(1) by (simp add: reads_def)
  have "only_io s u" using assms by (auto simp: reads_def wrote_def intro: only_io_trans only_bufs_io)
  then show ?thesis using assms only_bufsD(1,3) [OF ob] by (simp add: reads_def wrote_def)
qed

lemma reads_bread:
  assumes "reads H s t" "bread_post H n t i u"
  shows "reads (insert i H) s u"
proof -
  have "settled u j" if "j \<in> H" for j
  proof -
    have "bufs u ! j = bufs t ! j" "disk u = disk t"
      using that assms(2) only_bufsD(1) [of t u] by (auto simp: bread_post_def)
    then show ?thesis using assms(1) that by (simp add: reads_def settled_def)
  qed
  then show ?thesis
    using assms bread_post_settled [OF assms(2)] only_bufs_trans [of s t u]
    by (auto simp: reads_def bread_post_def)
qed

lemma wp_read1:
  assumes "bio_ok {} s" "a < disksize s" "card (dirty_blocks s) < NBUF"
    and "\<And>i t. reads {i} s t \<Longrightarrow> b_blockno (bufs t ! i) = a \<Longrightarrow> b_data (bufs t ! i) = blk s a \<Longrightarrow> wp (K i) Q t"
  shows "wp (bind (bread 1 a) K) Q s"
proof -
  have "wp (bread 1 a) (bread_post {} a s) s" using assms(1-3) by (intro wp_bread) (auto simp: avail_def)
  then have "wp (bread 1 a) (\<lambda>i. wp (K i) Q) s"
  proof (rule wp_mono)
    fix i t
    assume p: "bread_post {} a s i t"
    have "reads {} s s" using assms(1) by (simp add: reads_def)
    then have "reads {i} s t" using reads_bread [OF _ p] by simp
    then show "wp (K i) Q t" using p by (intro assms(4)) (auto simp: bread_post_def holds_block_def)
  qed
  then show ?thesis by simp
qed

lemma wp_read2:
  assumes ok: "bio_ok {} s" and ab: "a \<noteq> b" "a < disksize s" "b < disksize s" and c: "card (dirty_blocks s) < NBUF"
    and room: "b \<in> dirty_blocks s \<or> card (dirty_blocks s) + 1 < NBUF"
    and K: "\<And>i j t. reads {i, j} s t \<Longrightarrow> i \<noteq> j \<Longrightarrow> b_blockno (bufs t ! i) = a \<Longrightarrow> b_blockno (bufs t ! j) = b \<Longrightarrow>
      b_data (bufs t ! i) = blk s a \<Longrightarrow> b_data (bufs t ! j) = blk s b \<Longrightarrow> wp (K i j) Q t"
  shows "wp (bind (bread 1 a) (\<lambda>i. bind (bread 1 b) (K i))) Q s"
proof (rule wp_read1 [OF ok ab(2) c])
  fix i t
  assume r: "reads {i} s t" and i: "b_blockno (bufs t ! i) = a" "b_data (bufs t ! i) = blk s a"
  have t: "bio_ok {i} t" "blk t = blk s" "dirty_blocks t = dirty_blocks s" "disksize t = disksize s"
    using r only_bufsD(2) [of s t] by (auto simp: reads_def)
  have "wp (bread 1 b) (bread_post {i} b t) t"
    using t i ab room by (intro wp_bread) (auto simp: avail_def holds_block_def)
  then have "wp (bread 1 b) (\<lambda>j. wp (K i j) Q) t"
  proof (rule wp_mono)
    fix j u
    assume p: "bread_post {i} b t j u"
    have "reads {i, j} s u" using reads_bread [OF r p] by (simp add: insert_commute)
    then show "wp (K i j) Q u"
      using p t i by (intro K) (auto simp: bread_post_def holds_block_def)
  qed
  then show "wp (bind (bread 1 b) (K i)) Q t" by simp
qed

section \<open>Transfers\<close>

lemma wp_rewrite_block:
  assumes "bio_ok {} s" "n < disksize s" "card (dirty_blocks s) < NBUF" "length (f (blk s n)) = BSIZE"
  shows "wp (bind (bread 1 n) (\<lambda>i. bind (gets (\<lambda>s. b_data (bufs s ! i))) (\<lambda>d.
      andthen (set_data i (f d)) (andthen (bwrite i) (brelse i)))))
    (\<lambda>_. wrote n (f (blk s n)) s) s"
proof (rule wp_read1 [OF assms(1-3)])
  fix i t
  assume r: "reads {i} s t" and i: "b_blockno (bufs t ! i) = n" "b_data (bufs t ! i) = blk s n"
  have "wp (andthen (set_data i (f (blk s n))) (andthen (bwrite i) (forK brelse [i])))
      (\<lambda>_. wrote (b_blockno (bufs t ! i)) (f (blk s n)) t) t"
    using r assms(4) by (intro wp_write_release) (auto simp: reads_def)
  note w = wp_mono [OF this wrote_reads [OF r]]
  show "wp (bind (gets (\<lambda>s. b_data (bufs s ! i))) (\<lambda>d. andthen (set_data i (f d)) (andthen (bwrite i) (brelse i))))
      (\<lambda>_. wrote n (f (blk s n)) s) t"
    using w i by simp
qed

text \<open>Copying block \<open>b\<close> onto block \<open>a\<close> with both buffers held, releasing \<open>b\<close>'s first; and the other way
  round.\<close>

lemma wp_copy_onto_first:
  assumes "bio_ok {} s" "a \<noteq> b" "a < disksize s" "b < disksize s" "card (dirty_blocks s) < NBUF"
    and "b \<in> dirty_blocks s \<or> card (dirty_blocks s) + 1 < NBUF"
  shows "wp (bind (bread 1 a) (\<lambda>i. bind (bread 1 b) (\<lambda>j. bind (gets (\<lambda>s. b_data (bufs s ! j))) (\<lambda>d.
      andthen (set_data i d) (andthen (bwrite i) (andthen (brelse j) (brelse i)))))))
    (\<lambda>_. wrote a (blk s b) s) s"
proof (rule wp_read2 [OF assms])
  fix i j t
  assume r: "reads {i, j} s t" and ij: "i \<noteq> j" "b_blockno (bufs t ! i) = a" "b_data (bufs t ! j) = blk s b"
  have "wp (andthen (set_data i (blk s b)) (andthen (bwrite i) (forK brelse [j, i])))
      (\<lambda>_. wrote (b_blockno (bufs t ! i)) (blk s b) t) t"
    using r ij(1) length_blk [OF assms(1)] by (intro wp_write_release) (auto simp: reads_def insert_commute)
  note w = wp_mono [OF this wrote_reads [OF r]]
  show "wp (bind (gets (\<lambda>s. b_data (bufs s ! j))) (\<lambda>d.
      andthen (set_data i d) (andthen (bwrite i) (andthen (brelse j) (brelse i))))) (\<lambda>_. wrote a (blk s b) s) t"
    using w ij by simp
qed

lemma wp_copy_onto_second:
  assumes "bio_ok {} s" "a \<noteq> b" "a < disksize s" "b < disksize s" "card (dirty_blocks s) < NBUF"
    and "b \<in> dirty_blocks s \<or> card (dirty_blocks s) + 1 < NBUF"
  shows "wp (bind (bread 1 a) (\<lambda>i. bind (bread 1 b) (\<lambda>j. bind (gets (\<lambda>s. b_data (bufs s ! i))) (\<lambda>d.
      andthen (set_data j d) (andthen (bwrite j) (andthen (brelse i) (brelse j)))))))
    (\<lambda>_. wrote b (blk s a) s) s"
proof (rule wp_read2 [OF assms])
  fix i j t
  assume r: "reads {i, j} s t" and ij: "i \<noteq> j" "b_blockno (bufs t ! j) = b" "b_data (bufs t ! i) = blk s a"
  have "wp (andthen (set_data j (blk s a)) (andthen (bwrite j) (forK brelse [i, j])))
      (\<lambda>_. wrote (b_blockno (bufs t ! j)) (blk s a) t) t"
    using r ij(1) length_blk [OF assms(1)] by (intro wp_write_release) (auto simp: reads_def)
  note w = wp_mono [OF this wrote_reads [OF r]]
  show "wp (bind (gets (\<lambda>s. b_data (bufs s ! i))) (\<lambda>d.
      andthen (set_data j d) (andthen (bwrite j) (andthen (brelse i) (brelse j))))) (\<lambda>_. wrote b (blk s a) s) t"
    using w ij by simp
qed

lemma wp_read_block:
  assumes "bio_ok {} s" "n < disksize s" "card (dirty_blocks s) < NBUF"
  shows "wp (bind (bread 1 n) (\<lambda>i. bind (gets (\<lambda>s. b_data (bufs s ! i))) (\<lambda>d. andthen (brelse i) (ret d))))
    (\<lambda>d t. d = blk s n \<and> reads {} s t) s"
proof (rule wp_read1 [OF assms])
  fix i t
  assume r: "reads {i} s t" and i: "b_data (bufs t ! i) = blk s n"
  have "wp (forK brelse [i]) (\<lambda>_ u. bio_ok {} u \<and> blk u = blk t \<and> dirty_blocks u = dirty_blocks t \<and> only_bufs t u) t"
    using r by (intro wp_release_all) (auto simp: reads_def)
  then have "wp (forK brelse [i]) (\<lambda>_. reads {} s) t"
    by (rule wp_mono) (use r only_bufs_trans [of s t] in \<open>auto simp: reads_def\<close>)
  then show "wp (bind (gets (\<lambda>s. b_data (bufs s ! i))) (\<lambda>d. andthen (brelse i) (ret d)))
      (\<lambda>d u. d = blk s n \<and> reads {} s u) t"
    using i by simp
qed

end
