(* ===== verification/Log.thy ===== *)
theory Log
  imports Block_Io
begin

text \<open>
  \<^verbatim>\<open>kernel/log.c\<close>: the redo log. The state adds the fields of \<^verbatim>\<open>struct log\<close>; the in-memory header is
  the list of its block numbers (\<^verbatim>\<open>block[0]\<close> to \<^verbatim>\<open>block[n - 1]\<close>). The second half of the theory
  shows that a commit is atomic: after a crash between any two disk writes, recovery gives the file
  system before the transaction or after it, and nothing else.
\<close>

section \<open>State\<close>

definition LOGSIZE :: nat where "LOGSIZE = 30"
definition MAXOPBLOCKS :: nat where "MAXOPBLOCKS = 10"

record superblock =
  sb_size :: nat
  sb_nblocks :: nat
  sb_ninodes :: nat
  sb_nlog :: nat
  sb_logstart :: nat
  sb_inodestart :: nat
  sb_bmapstart :: nat

record log_st = bio_st +
  lg_start :: nat
  lg_size :: nat
  lg_outstanding :: int
  lg_committing :: bool
  lg_dev :: nat
  lh :: "nat list"

section \<open>The header block\<close>

text \<open>The on-disk \<^verbatim>\<open>struct logheader\<close>: \<^verbatim>\<open>int n; int block[LOGSIZE];\<close>.\<close>

definition read_uint :: "nat \<Rightarrow> byte list \<Rightarrow> nat" where
  "read_uint off d = unat (get_le 4 off d :: uint)"

definition write_uint :: "nat \<Rightarrow> nat \<Rightarrow> byte list \<Rightarrow> byte list" where
  "write_uint off v d = put_le 4 off (of_nat v :: uint) d"

fun put_blocks :: "nat \<Rightarrow> nat list \<Rightarrow> byte list \<Rightarrow> byte list" where
  "put_blocks i [] d = d"
| "put_blocks i (b # bs) d = put_blocks (Suc i) bs (write_uint (4 + 4 * i) b d)"

definition put_head :: "nat list \<Rightarrow> byte list \<Rightarrow> byte list" where
  "put_head h d = put_blocks 0 h (write_uint 0 (length h) d)"

definition get_head :: "byte list \<Rightarrow> nat list" where
  "get_head d = map (\<lambda>i. read_uint (4 + 4 * i) d) [0..<nat (sint (get_le 4 0 d :: uint))]"

section \<open>Operations\<close>

definition decode_sb :: "byte list \<Rightarrow> superblock" where
  "decode_sb d = \<lparr>sb_size = read_uint 0 d, sb_nblocks = read_uint 4 d, sb_ninodes = read_uint 8 d,
     sb_nlog = read_uint 12 d, sb_logstart = read_uint 16 d, sb_inodestart = read_uint 20 d,
     sb_bmapstart = read_uint 24 d\<rparr>"

definition readsb :: "nat \<Rightarrow> ('a bio_st_scheme, superblock) kop" where
  "readsb dev =
     bind (bread dev 1) (\<lambda>bp.
     bind (gets (\<lambda>s. b_data (bufs s ! bp))) (\<lambda>d.
     andthen (brelse bp) (ret (decode_sb d))))"

definition install_block :: "nat \<Rightarrow> ('a log_st_scheme, unit) kop" where
  "install_block tail =
     bind (gets lg_dev) (\<lambda>dev.
     bind (gets lg_start) (\<lambda>start.
     bind (gets lh) (\<lambda>h.
     bind (bread dev (start + tail + 1)) (\<lambda>lbuf.
     bind (bread dev (h ! tail)) (\<lambda>dbuf.
     bind (gets (\<lambda>s. b_data (bufs s ! lbuf))) (\<lambda>d.
     andthen (set_data dbuf d)
    (andthen (bwrite dbuf)
    (andthen (brelse lbuf) (brelse dbuf)))))))))"

definition install_trans :: "('a log_st_scheme, unit) kop" where
  "install_trans = bind (gets lh) (\<lambda>h. forK install_block [0..<length h])"

text \<open>\<^verbatim>\<open>read_head\<close> trusts the count on disk: more than \<open>LOGSIZE\<close> block numbers run over the array.\<close>

definition read_head :: "('a log_st_scheme, unit) kop" where
  "read_head =
     bind (gets lg_dev) (\<lambda>dev.
     bind (gets lg_start) (\<lambda>start.
     bind (bread dev start) (\<lambda>i.
     bind (gets (\<lambda>s. b_data (bufs s ! i))) (\<lambda>d.
     if length (get_head d) > LOGSIZE then fail Fault
     else andthen (modify (\<lambda>s. s\<lparr>lh := get_head d\<rparr>)) (brelse i)))))"

definition write_head :: "('a log_st_scheme, unit) kop" where
  "write_head =
     bind (gets lg_dev) (\<lambda>dev.
     bind (gets lg_start) (\<lambda>start.
     bind (gets lh) (\<lambda>h.
     bind (bread dev start) (\<lambda>i.
     bind (gets (\<lambda>s. b_data (bufs s ! i))) (\<lambda>d.
     andthen (set_data i (put_head h d))
    (andthen (bwrite i) (brelse i)))))))"

definition recover_from_log :: "('a log_st_scheme, unit) kop" where
  "recover_from_log =
     andthen read_head
    (andthen install_trans
    (andthen (modify (\<lambda>s. s\<lparr>lh := []\<rparr>))
             write_head))"

text \<open>\<^verbatim>\<open>sizeof(struct logheader)\<close> is \<open>4 + 4 * LOGSIZE\<close>.\<close>

definition initlog :: "nat \<Rightarrow> ('a log_st_scheme, unit) kop" where
  "initlog dev =
     (if 4 + 4 * LOGSIZE \<ge> BSIZE then panic ''initlog: too big logheader''
      else
        andthen (initlock ''log'')
       (bind (readsb dev) (\<lambda>sb.
        andthen (modify (\<lambda>s. s\<lparr>lg_start := sb_logstart sb, lg_size := sb_nlog sb, lg_dev := dev\<rparr>))
                recover_from_log)))"

text \<open>The loop of \<^verbatim>\<open>begin_op\<close> waits (and a run on its own ends there) unless the operation is admitted.\<close>

definition begin_op :: "('a log_st_scheme, unit) kop" where
  "begin_op =
     andthen (acquire ''log'')
    (bind (gets lg_committing) (\<lambda>c.
     bind (gets (\<lambda>s. int (length (lh s)) + (lg_outstanding s + 1) * int MAXOPBLOCKS)) (\<lambda>need.
     if c then sleep Ch_log ''log''
     else if need > int LOGSIZE then sleep Ch_log ''log''
     else andthen (modify (\<lambda>s. s\<lparr>lg_outstanding := lg_outstanding s + 1\<rparr>)) (release ''log''))))"

definition write_log_block :: "nat \<Rightarrow> ('a log_st_scheme, unit) kop" where
  "write_log_block tail =
     bind (gets lg_dev) (\<lambda>dev.
     bind (gets lg_start) (\<lambda>start.
     bind (gets lh) (\<lambda>h.
     bind (bread dev (start + tail + 1)) (\<lambda>to.
     bind (bread dev (h ! tail)) (\<lambda>from.
     bind (gets (\<lambda>s. b_data (bufs s ! from))) (\<lambda>d.
     andthen (set_data to d)
    (andthen (bwrite to)
    (andthen (brelse from) (brelse to)))))))))"

definition write_log :: "('a log_st_scheme, unit) kop" where
  "write_log = bind (gets lh) (\<lambda>h. forK write_log_block [0..<length h])"

definition commit :: "('a log_st_scheme, unit) kop" where
  "commit =
     bind (gets lh) (\<lambda>h.
     whenK (length h > 0)
       (andthen write_log
       (andthen write_head
       (andthen install_trans
       (andthen (modify (\<lambda>s. s\<lparr>lh := []\<rparr>))
                write_head)))))"

definition end_op :: "('a log_st_scheme, unit) kop" where
  "end_op =
     andthen (acquire ''log'')
    (andthen (modify (\<lambda>s. s\<lparr>lg_outstanding := lg_outstanding s - 1\<rparr>))
    (bind (gets lg_committing) (\<lambda>c.
     if c then panic ''log.committing''
     else bind (gets lg_outstanding) (\<lambda>o'.
       andthen (if o' = 0 then modify (\<lambda>s. s\<lparr>lg_committing := True\<rparr>) else wakeup Ch_log)
      (andthen (release ''log'')
               (whenK (o' = 0)
                 (andthen commit
                 (andthen (acquire ''log'')
                 (andthen (modify (\<lambda>s. s\<lparr>lg_committing := False\<rparr>))
                 (andthen (wakeup Ch_log) (release ''log'')))))))))))"

definition log_write :: "nat \<Rightarrow> ('a log_st_scheme, unit) kop" where
  "log_write b =
     bind (gets lh) (\<lambda>h.
     bind (gets lg_size) (\<lambda>sz.
     bind (gets lg_outstanding) (\<lambda>out.
     if length h \<ge> LOGSIZE \<or> int (length h) \<ge> int sz - 1 then panic ''too big a transaction''
     else if out < 1 then panic ''log_write outside of trans''
     else
       andthen (acquire ''log'')
      (andthen (modify (\<lambda>s. let n = b_blockno (bufs s ! b) in
          if n \<in> set (lh s) then s else s\<lparr>lh := lh s @ [n]\<rparr>))
      (andthen (modify (upd_buf b (\<lambda>x. x\<lparr>b_flags := b_flags x OR B_DIRTY\<rparr>)))
               (release ''log''))))))"

section \<open>Header round trip\<close>

lemma length_write_uint [simp]: "off + 4 \<le> length d \<Longrightarrow> length (write_uint off v d) = length d"
  by (simp add: write_uint_def length_put_le)

lemma read_write_uint: "off + 4 \<le> length d \<Longrightarrow> v < 2 ^ 32 \<Longrightarrow> read_uint off (write_uint off v d) = v"
  by (simp add: read_uint_def write_uint_def get_put_le_same unat_of_nat)

lemma get_write_uint_other:
  "off + 4 \<le> length d \<Longrightarrow> o' + k \<le> off \<or> off + 4 \<le> o' \<Longrightarrow> get_le k o' (write_uint off v d) = get_le k o' d"
  by (simp add: write_uint_def get_put_le_other)

lemma read_write_uint_other:
  "off + 4 \<le> length d \<Longrightarrow> o' + 4 \<le> off \<or> off + 4 \<le> o' \<Longrightarrow> read_uint o' (write_uint off v d) = read_uint o' d"
  by (simp add: read_uint_def get_write_uint_other)

lemma length_put_blocks: "4 + 4 * (i + length bs) \<le> length d \<Longrightarrow> length (put_blocks i bs d) = length d"
  by (induction i bs d rule: put_blocks.induct) simp_all

lemma put_blocks_below:
  "4 + 4 * (i + length bs) \<le> length d \<Longrightarrow> o' + k \<le> 4 + 4 * i \<Longrightarrow> get_le k o' (put_blocks i bs d) = get_le k o' d"
  by (induction i bs d rule: put_blocks.induct) (simp_all add: get_write_uint_other)

lemma read_put_blocks:
  "4 + 4 * (i + length bs) \<le> length d \<Longrightarrow> (\<And>b. b \<in> set bs \<Longrightarrow> b < 2 ^ 32) \<Longrightarrow> j < length bs \<Longrightarrow>
   read_uint (4 + 4 * (i + j)) (put_blocks i bs d) = bs ! j"
proof (induction i bs d arbitrary: j rule: put_blocks.induct)
  case (1 i d)
  then show ?case by simp
next
  case (2 i b bs d)
  show ?case
  proof (cases j)
    case 0
    have "read_uint (4 + 4 * i) (put_blocks (Suc i) bs (write_uint (4 + 4 * i) b d)) =
        read_uint (4 + 4 * i) (write_uint (4 + 4 * i) b d)"
      using "2.prems" by (simp add: read_uint_def put_blocks_below)
    also have "\<dots> = b" using "2.prems" by (intro read_write_uint) auto
    finally show ?thesis using 0 by simp
  next
    case (Suc j')
    then show ?thesis using "2.IH" [of j'] "2.prems" by simp
  qed
qed

lemma length_put_head: "length h \<le> LOGSIZE \<Longrightarrow> length d = BSIZE \<Longrightarrow> length (put_head h d) = BSIZE"
  by (simp add: put_head_def length_put_blocks LOGSIZE_def BSIZE_def)

lemma get_put_head:
  assumes "length h \<le> LOGSIZE" "length d = BSIZE" "\<And>b. b \<in> set h \<Longrightarrow> b < 2 ^ 32"
  shows "get_head (put_head h d) = h"
proof -
  have len: "4 + 4 * (0 + length h) \<le> length (write_uint 0 (length h) d)"
    using assms by (simp add: LOGSIZE_def BSIZE_def)
  have "get_le 4 0 (put_head h d) = (of_nat (length h) :: uint)"
    unfolding put_head_def using len assms(2)
    by (simp add: put_blocks_below) (simp add: write_uint_def get_put_le_same BSIZE_def)
  moreover have "sint (of_nat (length h) :: uint) = int (length h)"
    using assms(1) by (simp add: LOGSIZE_def signed_of_nat signed_take_bit_int_eq_self)
  ultimately have "get_head (put_head h d) = map (\<lambda>i. read_uint (4 + 4 * i) (put_head h d)) [0..<length h]"
    by (simp add: get_head_def)
  also have "\<dots> = h"
    using read_put_blocks [OF len assms(3)] by (intro nth_equalityI) (simp_all add: put_head_def)
  finally show ?thesis .
qed

section \<open>Sequences of disk writes\<close>

type_synonym blocks = "nat \<Rightarrow> byte list"

fun apply_writes :: "(nat \<times> byte list) list \<Rightarrow> blocks \<Rightarrow> blocks" where
  "apply_writes [] D = D"
| "apply_writes ((n, d) # ws) D = apply_writes ws (D(n := d))"

lemma apply_writes_append: "apply_writes (ws @ vs) D = apply_writes vs (apply_writes ws D)"
  by (induction ws arbitrary: D) auto

lemma apply_writes_other: "n \<notin> fst ` set ws \<Longrightarrow> apply_writes ws D n = D n"
  by (induction ws arbitrary: D) auto

lemma apply_writes_single [simp]: "apply_writes [(n, d)] D = D(n := d)"
  by simp

lemma apply_writes_distinct:
  "distinct (map fst ws) \<Longrightarrow> (n, d) \<in> set ws \<Longrightarrow> apply_writes ws D n = d"
proof (induction ws arbitrary: D)
  case Nil
  then show ?case by simp
next
  case (Cons w ws)
  obtain m e where w: "w = (m, e)" by (cases w)
  show ?case
  proof (cases "(n, d) = (m, e)")
    case True
    then show ?thesis using Cons.prems w by (simp add: apply_writes_other)
  next
    case False
    then show ?thesis using Cons w by auto
  qed
qed

text \<open>The effect of a run of writes, on the cache and on disk.\<close>

definition io_writes :: "(nat \<times> byte list) list \<Rightarrow> 'a bio_st_scheme \<Rightarrow> 'a bio_st_scheme \<Rightarrow> bool" where
  "io_writes ws s t \<longleftrightarrow> bio_ok {} t \<and> only_io s t \<and> blk t = apply_writes ws (blk s) \<and>
     disk t = apply_writes ws (disk s) \<and> dwrites t = dwrites s @ ws \<and>
     dirty_blocks t = dirty_blocks s - fst ` set ws"

lemma io_writes_Nil: "bio_ok {} s \<Longrightarrow> io_writes [] s s"
  by (simp add: io_writes_def)

lemma io_writes_append: "io_writes ws s t \<Longrightarrow> io_writes vs t u \<Longrightarrow> io_writes (ws @ vs) s u"
  by (auto simp: io_writes_def apply_writes_append intro: only_io_trans)

lemma wrote_io: "wrote n d s t \<Longrightarrow> io_writes [(n, d)] s t"
  by (simp add: wrote_def io_writes_def)

text \<open>The writes of \<^verbatim>\<open>write_log\<close>, of \<^verbatim>\<open>install_trans\<close>, of a whole commit and of recovery.\<close>

definition log_writes :: "nat \<Rightarrow> nat list \<Rightarrow> blocks \<Rightarrow> (nat \<times> byte list) list" where
  "log_writes st h B = map (\<lambda>i. (st + i + 1, B (h ! i))) [0..<length h]"

definition home_writes :: "nat list \<Rightarrow> (nat \<Rightarrow> byte list) \<Rightarrow> (nat \<times> byte list) list" where
  "home_writes h f = map (\<lambda>i. (h ! i, f i)) [0..<length h]"

definition commit_writes :: "nat \<Rightarrow> nat list \<Rightarrow> blocks \<Rightarrow> (nat \<times> byte list) list" where
  "commit_writes st h B =
     log_writes st h B @ [(st, put_head h (B st))] @ home_writes h (\<lambda>i. B (h ! i)) @
     [(st, put_head [] (put_head h (B st)))]"

definition recover_writes :: "nat \<Rightarrow> blocks \<Rightarrow> (nat \<times> byte list) list" where
  "recover_writes st D =
     home_writes (get_head (D st)) (\<lambda>i. D (st + i + 1)) @ [(st, put_head [] (D st))]"

definition recover_disk :: "nat \<Rightarrow> blocks \<Rightarrow> blocks" where
  "recover_disk st D = apply_writes (recover_writes st D) D"

definition log_region :: "nat \<Rightarrow> nat \<Rightarrow> nat \<Rightarrow> bool" where
  "log_region st sz n \<longleftrightarrow> st \<le> n \<and> n < st + sz"

text \<open>A header the log can have: distinct blocks outside the log and after the superblock, and room for
  their copies.\<close>

definition head_wf :: "nat \<Rightarrow> nat \<Rightarrow> nat list \<Rightarrow> bool" where
  "head_wf st sz h \<longleftrightarrow> distinct h \<and> length h < sz \<and> sz \<le> LOGSIZE \<and>
     (\<forall>b \<in> set h. b < 2 ^ 32 \<and> 1 < b \<and> \<not> log_region st sz b)"

lemma fst_log_writes: "fst ` set (log_writes st h B) = {st + 1..<st + 1 + length h}"
proof -
  have "(\<lambda>i. st + i + 1) ` {0..<length h} = {st + 1..<st + 1 + length h}"
  proof (rule set_eqI)
    fix n
    show "n \<in> (\<lambda>i. st + i + 1) ` {0..<length h} \<longleftrightarrow> n \<in> {st + 1..<st + 1 + length h}"
      by (auto intro!: image_eqI [of _ _ "n - st - 1"])
  qed
  then show ?thesis by (simp add: log_writes_def image_image)
qed

lemma fst_home_writes: "fst ` set (home_writes h f) = set h"
  by (auto simp: home_writes_def image_image in_set_conv_nth)

lemma apply_log_writes:
  "i < length h \<Longrightarrow> apply_writes (log_writes st h B) D (st + i + 1) = B (h ! i)"
  by (rule apply_writes_distinct) (auto simp: log_writes_def distinct_map comp_def inj_on_def)

lemma apply_home_writes:
  assumes "distinct h" "i < length h"
  shows "apply_writes (home_writes h f) D (h ! i) = f i"
proof (rule apply_writes_distinct)
  have "map fst (home_writes h f) = h" by (rule nth_equalityI) (simp_all add: home_writes_def)
  then show "distinct (map fst (home_writes h f))" using assms(1) by simp
  show "(h ! i, f i) \<in> set (home_writes h f)" using assms(2) by (auto simp: home_writes_def)
qed

section \<open>Atomicity of a commit\<close>

text \<open>Recovering a disk whose header is empty changes nothing outside the log.\<close>

lemma recover_empty:
  "get_head (D st) = [] \<Longrightarrow> n \<noteq> st \<Longrightarrow> recover_disk st D n = D n"
  by (simp add: recover_disk_def recover_writes_def home_writes_def)

text \<open>Recovering a disk with a complete log installs every block of it.\<close>

lemma recover_full:
  assumes "get_head (D st) = h" "head_wf st sz h" "\<not> log_region st sz n"
    and "\<And>i. i < length h \<Longrightarrow> D (st + i + 1) = B (h ! i)"
  shows "recover_disk st D n = (if n \<in> set h then B n else D n)"
proof -
  let ?w = "home_writes h (\<lambda>i. D (st + i + 1))"
  have "n \<noteq> st" using assms(2,3) by (auto simp: head_wf_def log_region_def)
  then have 1: "recover_disk st D n = apply_writes ?w D n"
    by (simp add: recover_disk_def recover_writes_def apply_writes_append assms(1))
  show ?thesis
  proof (cases "n \<in> set h")
    case True
    then obtain i where i: "i < length h" "h ! i = n" by (auto simp: in_set_conv_nth)
    have "apply_writes ?w D (h ! i) = D (st + i + 1)"
      using assms(2) i(1) by (intro apply_home_writes) (auto simp: head_wf_def)
    with 1 i assms(4) show ?thesis by auto
  next
    case False
    then show ?thesis using 1 by (simp add: apply_writes_other fst_home_writes)
  qed
qed

text \<open>After the first \<open>k\<close> writes of a commit: the old contents until the header is written, the new
  contents from then on.\<close>

lemma commit_crash:
  assumes wf: "head_wf st sz h" and D: "get_head (D st) = []" "length (D st) = BSIZE" and B: "B st = D st"
    and n: "\<not> log_region st sz n"
  shows "recover_disk st (apply_writes (take k (commit_writes st h B)) D) n =
    (if k \<le> length h \<or> n \<notin> set h then D n else B n)"
proof -
  let ?L = "log_writes st h B" and ?H = "home_writes h (\<lambda>i. B (h ! i))"
  let ?hd = "put_head h (D st)"
  let ?C = "apply_writes (take k (commit_writes st h B)) D"
  have len: "length ?L = length h" "length ?H = length h" by (simp_all add: log_writes_def home_writes_def)
  have h: "distinct h" "length h < sz" "length h \<le> LOGSIZE" "\<And>b. b \<in> set h \<Longrightarrow> b < 2 ^ 32"
    "\<And>b. b \<in> set h \<Longrightarrow> \<not> log_region st sz b" using wf by (auto simp: head_wf_def)
  have st: "st \<notin> set h" "st \<noteq> n" "n \<notin> {st + 1..<st + 1 + length h}"
    using h(2) h(5) [of st] n by (auto simp: log_region_def)
  have disj: "st + i + 1 \<notin> set h" if "i < length h" for i
    using h(2) h(5) [of "st + i + 1"] that by (auto simp: log_region_def)
  consider "k \<le> length h" | "length h < k" "k \<le> 2 * length h + 1" | "2 * length h + 1 < k" by linarith
  then show ?thesis
  proof cases
    case 1
    then have C: "?C = apply_writes (take k ?L) D" by (simp add: commit_writes_def len)
    have sub: "fst ` set (take k ?L) \<subseteq> {st + 1..<st + 1 + length h}"
      using fst_log_writes [of st h B] set_take_subset [of k ?L] by blast
    have "?C st = D st" unfolding C using sub by (intro apply_writes_other) auto
    moreover have "?C n = D n" unfolding C using sub st by (intro apply_writes_other) blast
    ultimately show ?thesis using 1 D st by (simp add: recover_empty)
  next
    case 2
    define W where "W = take (k - length h - 1) ?H"
    have C: "?C = apply_writes W ((apply_writes ?L D)(st := ?hd))"
      using 2 by (simp add: commit_writes_def len B apply_writes_append W_def take_Cons' apply_writes.simps)
    have Wsub: "fst ` set W \<subseteq> set h"
      using fst_home_writes [of h "\<lambda>i. B (h ! i)"] set_take_subset [of "k - length h - 1" ?H] unfolding W_def by blast
    have "?C st = ?hd" unfolding C using Wsub st by (subst apply_writes_other) auto
    then have gh: "get_head (?C st) = h" using get_put_head [OF h(3) D(2)] h(4) by simp
    have lb: "?C (st + i + 1) = B (h ! i)" if "i < length h" for i
    proof -
      have "?C (st + i + 1) = ((apply_writes ?L D)(st := ?hd)) (st + i + 1)"
        unfolding C using Wsub disj [OF that] by (intro apply_writes_other) blast
      then show ?thesis using that by (simp add: apply_log_writes)
    qed
    have "?C n = D n" if "n \<notin> set h"
      unfolding C using Wsub that st by (subst apply_writes_other) (auto simp: apply_writes_other fst_log_writes)
    then show ?thesis using recover_full [OF gh wf n lb] 2 by auto
  next
    case 3
    have C: "?C = (apply_writes ?H ((apply_writes ?L D)(st := ?hd)))(st := put_head [] ?hd)"
      using 3 by (simp add: commit_writes_def len B apply_writes_append)
    have "get_head (?C st) = []"
      unfolding C using get_put_head [of "[]" ?hd] length_put_head [OF h(3) D(2)] by simp
    then have "recover_disk st ?C n = ?C n" using st by (intro recover_empty) auto
    moreover have "?C n = (if n \<in> set h then B n else D n)"
    proof (cases "n \<in> set h")
      case True
      then obtain i where "i < length h" "h ! i = n" by (auto simp: in_set_conv_nth)
      then have "apply_writes ?H ((apply_writes ?L D)(st := ?hd)) n = B n"
        using apply_home_writes [OF h(1), of i] by auto
      with True st show ?thesis unfolding C by simp
    next
      case False
      then show ?thesis unfolding C using st by (simp add: apply_writes_other fst_home_writes fst_log_writes)
    qed
    ultimately show ?thesis using 3 by auto
  qed
qed

section \<open>The operations write those sequences\<close>

lemma only_io_log:
  assumes "only_io s t"
  shows "lg_start t = lg_start s" "lg_size t = lg_size s" "lg_outstanding t = lg_outstanding s"
    "lg_committing t = lg_committing s" "lg_dev t = lg_dev s" "lh t = lh s"
  using assms by (auto simp: only_io_def)

text \<open>What a state needs for the block operations of the log: the cache in order with nothing held, the
  log within the disk, and buffers to spare.\<close>

definition log_io_ok :: "'a log_st_scheme \<Rightarrow> bool" where
  "log_io_ok s \<longleftrightarrow> bio_ok {} s \<and> lg_dev s = 1 \<and> head_wf (lg_start s) (lg_size s) (lh s) \<and>
     lg_start s + lg_size s \<le> disksize s \<and> (\<forall>b \<in> set (lh s). b < disksize s) \<and> card (dirty_blocks s) < NBUF"

lemma card_dirty_io: "io_writes ws s t \<Longrightarrow> card (dirty_blocks t) \<le> card (dirty_blocks s)"
  by (auto simp: io_writes_def intro: card_mono)

lemma head_notin_region:
  "head_wf st sz h \<Longrightarrow> i < length h \<Longrightarrow> j < length h \<Longrightarrow> h ! i \<noteq> st + j + 1"
  using nth_mem [of i h] by (fastforce simp: head_wf_def log_region_def)

lemma notin_keys:
  assumes "\<And>i. i < k \<Longrightarrow> n \<noteq> f i"
  shows "n \<notin> fst ` set (map (\<lambda>i. (f i, g i)) [0..<k])"
proof
  assume "n \<in> fst ` set (map (\<lambda>i. (f i, g i)) [0..<k])"
  then obtain i where "i < k" "n = f i" by auto
  with assms show False by blast
qed

lemma wp_write_log:
  assumes ok: "log_io_ok s" and dirty: "set (lh s) \<subseteq> dirty_blocks s"
  shows "wp write_log (\<lambda>_. io_writes (log_writes (lg_start s) (lh s) (blk s)) s) s"
proof -
  let ?st = "lg_start s" and ?h = "lh s"
  let ?W = "\<lambda>k. map (\<lambda>i. (?st + i + 1, blk s (?h ! i))) [0..<k]"
  have wf: "head_wf ?st (lg_size s) ?h" and c: "card (dirty_blocks s) < NBUF"
    using ok by (simp_all add: log_io_ok_def)
  have "wp (forK write_log_block [0..<length ?h]) (\<lambda>_. io_writes (log_writes ?st ?h (blk s)) s) s"
  proof (rule wp_forK [where I = "\<lambda>done. io_writes (?W (length done)) s"])
    show "io_writes (?W (length [])) s s" using ok by (simp add: log_io_ok_def io_writes_Nil)
  next
    fix dn k rest t
    assume "[0..<length ?h] = dn @ k # rest" and "io_writes (?W (length dn)) s t"
    then have k: "k < length ?h" "length dn = k" and I: "io_writes (?W k) s t"
      using upt_eq_append [of "length ?h" dn k rest] by auto
    have t: "bio_ok {} t" "only_io s t" "blk t = apply_writes (?W k) (blk s)"
      and dt: "dirty_blocks t = dirty_blocks s - fst ` set (?W k)" using I by (simp_all add: io_writes_def)
    note f = only_io_log [OF t(2)] only_ioD(1) [OF t(2)]
    have hk: "?h ! k \<notin> fst ` set (?W k)"
      using k(1) by (intro notin_keys head_notin_region [OF wf]) simp_all
    have b: "blk t (?h ! k) = blk s (?h ! k)" unfolding t(3) by (rule apply_writes_other [OF hk])
    have hd: "?h ! k \<in> dirty_blocks t" unfolding dt using dirty k(1) hk by auto
    have "wp (write_log_block k) (\<lambda>_. wrote (?st + k + 1) (blk t (?h ! k)) t) t"
    proof -
      have "?st + k + 1 < disksize t" "?h ! k < disksize t"
        using ok k(1) wf by (auto simp: f log_io_ok_def head_wf_def)
      moreover have "?st + k + 1 \<noteq> ?h ! k" using head_notin_region [OF wf k(1,1)] by simp
      moreover have "card (dirty_blocks t) < NBUF" using card_dirty_io [OF I] c by simp
      moreover have "lg_dev t = 1" using ok by (simp add: f log_io_ok_def)
      ultimately show ?thesis
        using wp_copy_onto_first [OF t(1), of "?st + k + 1" "?h ! k"] hd by (simp add: write_log_block_def f)
    qed
    then show "wp (write_log_block k) (\<lambda>_. io_writes (?W (length (dn @ [k]))) s) t"
    proof (rule wp_mono)
      fix r u
      assume "wrote (?st + k + 1) (blk t (?h ! k)) t u"
      then have "io_writes (?W k @ [(?st + k + 1, blk s (?h ! k))]) s u"
        unfolding b by (rule io_writes_append [OF I wrote_io])
      then show "io_writes (?W (length (dn @ [k]))) s u" using k(2) by simp
    qed
  qed (simp add: log_writes_def)
  then show ?thesis by (simp add: write_log_def)
qed

lemma wp_write_head:
  assumes "bio_ok {} s" "lg_dev s = 1" "lg_start s < disksize s" "card (dirty_blocks s) < NBUF" "length (lh s) \<le> LOGSIZE"
  shows "wp write_head (\<lambda>_. io_writes [(lg_start s, put_head (lh s) (blk s (lg_start s)))] s) s"
proof -
  have "length (put_head (lh s) (blk s (lg_start s))) = BSIZE"
    using assms(5) length_blk [OF assms(1)] by (rule length_put_head)
  from wp_rewrite_block [OF assms(1,3,4), of "put_head (lh s)", OF this] assms(2)
  have "wp write_head (\<lambda>_. wrote (lg_start s) (put_head (lh s) (blk s (lg_start s))) s) s"
    by (simp add: write_head_def)
  then show ?thesis by (rule wp_mono) (rule wrote_io)
qed

text \<open>Installing works when the blocks of the header are pinned in the cache (a commit) and when
  nothing is (recovery).\<close>

lemma wp_install_trans:
  assumes ok: "log_io_ok s" and dirty: "set (lh s) \<subseteq> dirty_blocks s \<or> dirty_blocks s = {}"
  shows "wp install_trans (\<lambda>_. io_writes (home_writes (lh s) (\<lambda>i. blk s (lg_start s + i + 1))) s) s"
proof -
  let ?st = "lg_start s" and ?h = "lh s"
  let ?W = "\<lambda>k. map (\<lambda>i. (?h ! i, blk s (?st + i + 1))) [0..<k]"
  have wf: "head_wf ?st (lg_size s) ?h" and c: "card (dirty_blocks s) < NBUF" and dist: "distinct ?h"
    using ok by (simp_all add: log_io_ok_def head_wf_def)
  have "wp (forK install_block [0..<length ?h]) (\<lambda>_. io_writes (home_writes ?h (\<lambda>i. blk s (?st + i + 1))) s) s"
  proof (rule wp_forK [where I = "\<lambda>done. io_writes (?W (length done)) s"])
    show "io_writes (?W (length [])) s s" using ok by (simp add: log_io_ok_def io_writes_Nil)
  next
    fix dn k rest t
    assume "[0..<length ?h] = dn @ k # rest" and "io_writes (?W (length dn)) s t"
    then have k: "k < length ?h" "length dn = k" and I: "io_writes (?W k) s t"
      using upt_eq_append [of "length ?h" dn k rest] by auto
    have t: "bio_ok {} t" "only_io s t" "blk t = apply_writes (?W k) (blk s)"
      and dt: "dirty_blocks t = dirty_blocks s - fst ` set (?W k)" using I by (simp_all add: io_writes_def)
    note f = only_io_log [OF t(2)] only_ioD(1) [OF t(2)]
    have "?st + k + 1 \<noteq> ?h ! i" if "i < k" for i
      using head_notin_region [OF wf _ k(1), of i] k(1) that by auto
    then have lk: "?st + k + 1 \<notin> fst ` set (?W k)" by (rule notin_keys)
    have b: "blk t (?st + k + 1) = blk s (?st + k + 1)" unfolding t(3) by (rule apply_writes_other [OF lk])
    have "?h ! k \<noteq> ?h ! i" if "i < k" for i using dist k(1) that by (simp add: nth_eq_iff_index_eq)
    then have hk: "?h ! k \<notin> fst ` set (?W k)" by (rule notin_keys)
    have hd: "?h ! k \<in> dirty_blocks t \<or> card (dirty_blocks t) + 1 < NBUF"
      unfolding dt using dirty k(1) hk by (auto simp: NBUF_def)
    have "wp (install_block k) (\<lambda>_. wrote (?h ! k) (blk t (?st + k + 1)) t) t"
    proof -
      have "?st + k + 1 < disksize t" "?h ! k < disksize t"
        using ok k(1) wf by (auto simp: f log_io_ok_def head_wf_def)
      moreover have "?st + k + 1 \<noteq> ?h ! k" using head_notin_region [OF wf k(1,1)] by simp
      moreover have "card (dirty_blocks t) < NBUF" using card_dirty_io [OF I] c by simp
      moreover have "lg_dev t = 1" using ok by (simp add: f log_io_ok_def)
      ultimately show ?thesis
        using wp_copy_onto_second [OF t(1), of "?st + k + 1" "?h ! k"] hd by (simp add: install_block_def f)
    qed
    then show "wp (install_block k) (\<lambda>_. io_writes (?W (length (dn @ [k]))) s) t"
    proof (rule wp_mono)
      fix r u
      assume "wrote (?h ! k) (blk t (?st + k + 1)) t u"
      then have "io_writes (?W k @ [(?h ! k, blk s (?st + k + 1))]) s u"
        unfolding b by (rule io_writes_append [OF I wrote_io])
      then show "io_writes (?W (length (dn @ [k]))) s u" using k(2) by simp
    qed
  qed (simp add: home_writes_def)
  then show ?thesis by (simp add: install_trans_def)
qed

section \<open>The invariant of the log\<close>

definition only_log :: "'a log_st_scheme \<Rightarrow> 'a log_st_scheme \<Rightarrow> bool" where
  "only_log s t \<longleftrightarrow> same_procs s t \<and> (\<exists>ps bs d w h oo c. t = s\<lparr>procs := ps, bufs := bs, disk := d, dwrites := w,
     lh := h, lg_outstanding := oo, lg_committing := c\<rparr>)"

lemma only_log_trans:
  assumes "only_log s t" "only_log t u"
  shows "only_log s u"
proof -
  obtain ps bs d w h oo c where t: "t = s\<lparr>procs := ps, bufs := bs, disk := d, dwrites := w,
     lh := h, lg_outstanding := oo, lg_committing := c\<rparr>"
    using assms(1) by (auto simp: only_log_def)
  obtain ps' bs' d' w' h' oo' c' where u: "u = t\<lparr>procs := ps', bufs := bs', disk := d', dwrites := w',
     lh := h', lg_outstanding := oo', lg_committing := c'\<rparr>"
    using assms(2) by (auto simp: only_log_def)
  have "u = s\<lparr>procs := ps', bufs := bs', disk := d', dwrites := w', lh := h', lg_outstanding := oo', lg_committing := c'\<rparr>"
    unfolding u t by simp
  moreover have "same_procs s u" using assms same_procs_trans by (auto simp: only_log_def)
  ultimately show ?thesis unfolding only_log_def by blast
qed

lemma only_logI:
  assumes "same_procs s t" "t = s\<lparr>procs := ps, bufs := bs, disk := d, dwrites := w, lh := h, lg_outstanding := oo, lg_committing := c\<rparr>"
  shows "only_log s t"
  unfolding only_log_def using assms by blast

lemma only_io_only_log:
  assumes "only_io s t"
  shows "only_log s (t\<lparr>lh := h\<rparr>)"
proof -
  obtain ps bs d w where t: "t = s\<lparr>procs := ps, bufs := bs, disk := d, dwrites := w\<rparr>"
    using assms by (auto simp: only_io_def)
  have "same_procs s (t\<lparr>lh := h\<rparr>)" using only_ioD(4) [OF assms] by (simp add: same_procs_def)
  moreover have "t\<lparr>lh := h\<rparr> = s\<lparr>procs := ps, bufs := bs, disk := d, dwrites := w, lh := h,
      lg_outstanding := lg_outstanding s, lg_committing := lg_committing s\<rparr>" unfolding t by simp
  ultimately show ?thesis by (rule only_logI)
qed

lemma only_io_log': "only_io s t \<Longrightarrow> only_log s t"
  using only_io_only_log [of s t "lh t"] by simp

lemma only_log_refl [simp, intro]: "only_log s s"
  by (rule only_io_log') simp

lemma only_logD:
  assumes "only_log s t"
  shows "lg_start t = lg_start s" "lg_size t = lg_size s" "lg_dev t = lg_dev s" "disksize t = disksize s"
    "same_procs s t" "held t = held s" "cur t = cur s"
proof -
  show sp: "same_procs s t" using assms by (simp add: only_log_def)
  show "held t = held s" "cur t = cur s" using same_procs_held [OF sp] same_procs_cur [OF sp] .
  show "lg_start t = lg_start s" "lg_size t = lg_size s" "lg_dev t = lg_dev s" "disksize t = disksize s"
    using assms by (auto simp: only_log_def)
qed

text \<open>The cache does not depend on the fields of the log.\<close>

lemma bio_ok_log_fields [simp]:
  "bio_ok H (s\<lparr>lh := h\<rparr>) = bio_ok H s" "bio_ok H (s\<lparr>lg_outstanding := oo\<rparr>) = bio_ok H s"
  "bio_ok H (s\<lparr>lg_committing := c\<rparr>) = bio_ok H s" "blk (s\<lparr>lh := h\<rparr>) = blk s"
  "blk (s\<lparr>lg_outstanding := oo\<rparr>) = blk s" "blk (s\<lparr>lg_committing := c\<rparr>) = blk s"
  "dirty_blocks (s\<lparr>lh := h\<rparr>) = dirty_blocks s" "dirty_blocks (s\<lparr>lg_outstanding := oo\<rparr>) = dirty_blocks s"
  "dirty_blocks (s\<lparr>lg_committing := c\<rparr>) = dirty_blocks s"
  by (simp_all add: bio_ok_def bio_ctx_def my_pid_def blk_def fun_eq_iff dirty_blocks_def cong: option.case_cong)

text \<open>
  Between two operations on the log: the dirty blocks are exactly the logged ones, so nothing logged is
  evicted and everything dirty is committed; the log on disk is empty.
\<close>

definition log_ok :: "nat set \<Rightarrow> 'a log_st_scheme \<Rightarrow> bool" where
  "log_ok H s \<longleftrightarrow> bio_ok H s \<and> lg_dev s = 1 \<and> ''log'' \<notin> held s \<and>
     head_wf (lg_start s) (lg_size s) (lh s) \<and> lg_start s + lg_size s \<le> disksize s \<and>
     disksize s \<le> 2 ^ 32 \<and> dirty_blocks s = set (lh s) \<and> get_head (disk s (lg_start s)) = []"

lemma blk_clean:
  assumes "bio_ok {} s" "n \<notin> dirty_blocks s"
  shows "blk s n = disk s n"
proof (cases "\<exists>i. holds_block (bufs s) n i")
  case True
  then obtain i where i: "holds_block (bufs s) n i" by auto
  then have "buf_wf (disk s) (disksize s) (my_pid s) False (bufs s ! i)"
    using bio_ok_bufs(3) [OF assms(1), of i] by (auto simp: holds_block_def)
  moreover have "\<not> dirty (bufs s ! i)" using assms(2) i by (auto simp: dirty_blocks_def)
  ultimately show ?thesis using i blk_cached [OF assms(1) i] by (auto simp: buf_wf_def holds_block_def split: if_splits)
next
  case False
  then show ?thesis by (simp add: blk_uncached)
qed

lemma dirty_in_disk:
  assumes "bio_ok H s" "n \<in> dirty_blocks s"
  shows "n < disksize s"
proof -
  obtain i where i: "holds_block (bufs s) n i" using assms(2) by (auto simp: dirty_blocks_def)
  then have "buf_wf (disk s) (disksize s) (my_pid s) (i \<in> H) (bufs s ! i)"
    using bio_ok_bufs(3) [OF assms(1), of i] by (auto simp: holds_block_def)
  then show ?thesis using i by (auto simp: buf_wf_def holds_block_def)
qed

lemma log_ok_card:
  assumes "log_ok H s"
  shows "card (dirty_blocks s) = length (lh s)" "length (lh s) < NBUF"
  using assms distinct_card [of "lh s"] by (auto simp: log_ok_def head_wf_def NBUF_def LOGSIZE_def)

lemma log_ok_io: "log_ok {} s \<Longrightarrow> log_io_ok s"
  using log_ok_card [of "{}" s] by (auto simp: log_ok_def log_io_ok_def intro: dirty_in_disk)

section \<open>Commit\<close>

definition commit_post :: "'a log_st_scheme \<Rightarrow> 'a log_st_scheme \<Rightarrow> bool" where
  "commit_post s t \<longleftrightarrow> log_ok {} t \<and> lh t = [] \<and> only_log s t \<and>
     lg_outstanding t = lg_outstanding s \<and> lg_committing t = lg_committing s \<and>
     dwrites t = dwrites s @ (if lh s = [] then [] else commit_writes (lg_start s) (lh s) (blk s)) \<and>
     (\<forall>n. \<not> log_region (lg_start s) (lg_size s) n \<longrightarrow> blk t n = blk s n \<and> disk t n = blk s n)"

lemma commit_writes_post:
  assumes ok: "log_ok {} s" and u: "io_writes (log_writes st h (blk s) @ [(st, hb)] @ home_writes h (\<lambda>i. blk s (h ! i))) s u"
    and t: "io_writes [(st, put_head [] hb)] (u\<lparr>lh := []\<rparr>) t"
    and d: "st = lg_start s" "h = lh s" "hb = put_head h (blk s st)" "h \<noteq> []"
  shows "commit_post s t"
proof -
  let ?W = "commit_writes st h (blk s)"
  have io: "only_io s u" "only_io (u\<lparr>lh := []\<rparr>) t" using u t by (simp_all add: io_writes_def)
  have ol: "only_log s t"
    by (rule only_log_trans [OF only_io_only_log [OF io(1)] only_io_log' [OF io(2)]])
  note f = only_logD [OF ol] only_io_log [OF io(1)] only_io_log [OF io(2)]
  have wf: "head_wf st (lg_size s) h" and len: "length (blk s st) = BSIZE"
    using ok d length_blk [of "{}" s] by (simp_all add: log_ok_def)
  have hl: "length h \<le> LOGSIZE" using wf by (simp add: head_wf_def)
  have st: "st \<notin> set h" using wf by (auto simp: head_wf_def log_region_def)
  have bt: "blk t = apply_writes ?W (blk s)" and dt: "disk t = apply_writes ?W (disk s)"
    and wt: "dwrites t = dwrites s @ ?W" and okt: "bio_ok {} t"
    using u t by (simp_all add: io_writes_def commit_writes_def d(3) apply_writes_append)
  have "dirty_blocks t \<subseteq> dirty_blocks s - set h"
    using u t fst_home_writes [of h "\<lambda>i. blk s (h ! i)"] by (auto simp: io_writes_def image_Un)
  then have dirt: "dirty_blocks t = {}" using ok d(2) by (auto simp: log_ok_def)
  have vals: "apply_writes ?W D n = (if n \<in> set h then blk s n else D n)" if "\<not> log_region st (lg_size s) n" for D n
  proof -
    have n: "n \<noteq> st" "n \<notin> {st + 1..<st + 1 + length h}" using that wf by (auto simp: log_region_def head_wf_def)
    show ?thesis
    proof (cases "n \<in> set h")
      case True
      then obtain i where "i < length h" "h ! i = n" by (auto simp: in_set_conv_nth)
      moreover have "distinct h" using wf by (simp add: head_wf_def)
      ultimately show ?thesis
        using apply_home_writes [of h i "\<lambda>i. blk s (h ! i)"] n(1) True by (auto simp: commit_writes_def apply_writes_append)
    next
      case False
      then have "n \<notin> fst ` set ?W" using n by (auto simp: commit_writes_def fst_home_writes fst_log_writes image_Un)
      then show ?thesis using False by (simp add: apply_writes_other)
    qed
  qed
  have new: "blk t n = blk s n \<and> disk t n = blk s n" if "\<not> log_region st (lg_size s) n" for n
  proof -
    have "disk s n = blk s n" if "n \<notin> set h" using that ok d(2) blk_clean [of s n] by (simp add: log_ok_def)
    then show ?thesis unfolding bt dt vals [OF that] by auto
  qed
  have "disk t st = put_head [] hb" unfolding dt by (simp add: commit_writes_def apply_writes_append d(3))
  then have "get_head (disk t st) = []"
    using get_put_head [of "[]" hb] length_put_head [OF hl len] d(3) by simp
  moreover have "lh t = []" by (simp add: f)
  ultimately have "log_ok {} t"
    using ok okt dirt f d by (simp add: log_ok_def head_wf_def)
  then show ?thesis
    using ol new wt f d by (simp add: commit_post_def)
qed

lemma wp_commit:
  assumes ok: "log_ok {} s"
  shows "wp commit (\<lambda>_. commit_post s) s"
proof (cases "lh s = []")
  case True
  have "disk s n = blk s n" for n
    using blk_clean [of s n] ok True by (auto simp: log_ok_def)
  then have "commit_post s s" using ok True by (simp add: commit_post_def)
  then show ?thesis using True by (simp add: commit_def)
next
  case False
  let ?st = "lg_start s" and ?h = "lh s" let ?hd = "put_head ?h (blk s ?st)"
  note lio = log_ok_io [OF ok]
  have wf: "head_wf ?st (lg_size s) ?h" and size: "?st + lg_size s \<le> disksize s" and dirty: "dirty_blocks s = set ?h"
    and dev: "lg_dev s = 1" using ok by (simp_all add: log_ok_def)
  have hl: "length ?h \<le> LOGSIZE" and st: "?st < disksize s" "?st \<notin> set ?h"
    using wf size by (auto simp: head_wf_def log_region_def)
  note c = log_ok_card [OF ok]
  let ?L = "log_writes ?st ?h (blk s)"
  have 1: "wp write_log (\<lambda>_. io_writes ?L s) s" using dirty by (intro wp_write_log [OF lio]) simp
  have 2: "wp write_head (\<lambda>_. io_writes (?L @ [(?st, ?hd)]) s) t" if t: "io_writes ?L s t" for t
  proof -
    have io: "only_io s t" using t by (simp add: io_writes_def)
    note f = only_io_log [OF io] only_ioD(1) [OF io]
    have "blk t ?st = blk s ?st"
      using t by (simp add: io_writes_def apply_writes_other fst_log_writes)
    moreover have "wp write_head (\<lambda>_. io_writes [(lg_start t, put_head (lh t) (blk t (lg_start t)))] t) t"
      using t f st hl dev card_dirty_io [OF t] c by (intro wp_write_head) (auto simp: io_writes_def)
    ultimately have "wp write_head (\<lambda>_. io_writes [(?st, ?hd)] t) t" using f by simp
    then show ?thesis by (rule wp_mono) (rule io_writes_append [OF t])
  qed
  let ?LH = "?L @ [(?st, ?hd)]"
  have 3: "wp install_trans (\<lambda>_. io_writes (?LH @ home_writes ?h (\<lambda>i. blk s (?h ! i))) s) t"
    if t: "io_writes ?LH s t" for t
  proof -
    have io: "only_io s t" and okt: "bio_ok {} t" and bt: "blk t = apply_writes ?LH (blk s)"
      using t by (simp_all add: io_writes_def)
    note f = only_io_log [OF io] only_ioD(1) [OF io]
    have "dirty_blocks t = set ?h"
    proof -
      have "set ?h \<inter> fst ` set ?LH = {}"
        using wf st(2) by (auto simp: fst_log_writes image_Un head_wf_def log_region_def)
      then show ?thesis using t dirty by (auto simp: io_writes_def)
    qed
    moreover from this have "log_io_ok t"
      using lio okt dirty by (simp add: log_io_ok_def f)
    ultimately have "wp install_trans (\<lambda>_. io_writes (home_writes (lh t) (\<lambda>i. blk t (lg_start t + i + 1))) t) t"
      by (intro wp_install_trans) (simp_all add: f)
    moreover have "blk t (?st + i + 1) = blk s (?h ! i)" if "i < length ?h" for i
      using that by (simp add: bt apply_writes_append apply_log_writes)
    then have "home_writes ?h (\<lambda>i. blk t (?st + i + 1)) = home_writes ?h (\<lambda>i. blk s (?h ! i))"
      by (simp add: home_writes_def)
    ultimately have "wp install_trans (\<lambda>_. io_writes (home_writes ?h (\<lambda>i. blk s (?h ! i))) t) t" by (simp add: f)
    then show ?thesis by (rule wp_mono) (rule io_writes_append [OF t])
  qed
  let ?A = "?LH @ home_writes ?h (\<lambda>i. blk s (?h ! i))"
  have 4: "wp write_head (\<lambda>_. commit_post s) (u\<lparr>lh := []\<rparr>)" if u: "io_writes ?A s u" for u
  proof -
    have io: "only_io s u" and bu: "blk u = apply_writes ?A (blk s)" using u by (simp_all add: io_writes_def)
    note f = only_io_log [OF io] only_ioD(1) [OF io]
    have "blk u ?st = ?hd" unfolding bu using st(2) by (simp add: apply_writes_append apply_writes_other fst_home_writes)
    moreover have "wp write_head (\<lambda>_. io_writes [(lg_start (u\<lparr>lh := []\<rparr>), put_head (lh (u\<lparr>lh := []\<rparr>)) (blk (u\<lparr>lh := []\<rparr>) (lg_start (u\<lparr>lh := []\<rparr>))))] (u\<lparr>lh := []\<rparr>)) (u\<lparr>lh := []\<rparr>)"
      using u f st dev card_dirty_io [OF u] c by (intro wp_write_head) (auto simp: io_writes_def)
    ultimately have "wp write_head (\<lambda>_. io_writes [(?st, put_head [] ?hd)] (u\<lparr>lh := []\<rparr>)) (u\<lparr>lh := []\<rparr>)"
      using f by simp
    then show ?thesis
      by (rule wp_mono) (rule commit_writes_post [OF ok _ _ refl refl refl False], use u in simp_all)
  qed
  have 5: "wp install_trans (\<lambda>_ u. wp write_head (\<lambda>_. commit_post s) (u\<lparr>lh := []\<rparr>)) t" if "io_writes ?LH s t" for t
    by (rule wp_mono [OF 3 [OF that] 4])
  have 6: "wp write_head (\<lambda>_. wp install_trans (\<lambda>_ u. wp write_head (\<lambda>_. commit_post s) (u\<lparr>lh := []\<rparr>))) t"
    if "io_writes ?L s t" for t by (rule wp_mono [OF 2 [OF that] 5])
  have "wp write_log (\<lambda>_. wp write_head (\<lambda>_. wp install_trans (\<lambda>_ u. wp write_head (\<lambda>_. commit_post s) (u\<lparr>lh := []\<rparr>)))) s"
    by (rule wp_mono [OF 1 6])
  then show ?thesis using False by (simp add: commit_def)
qed

section \<open>Recovery\<close>

lemma settled_lh [simp]: "settled (s\<lparr>lh := h\<rparr>) i = settled s i"
  by (simp add: settled_def)

lemma only_bufs_lh: "only_bufs (s\<lparr>lh := h\<rparr>) t \<Longrightarrow> \<exists>u. only_bufs s u \<and> t = u\<lparr>lh := h\<rparr>"
proof -
  assume a: "only_bufs (s\<lparr>lh := h\<rparr>) t"
  then obtain ps bs where t: "t = s\<lparr>lh := h, procs := ps, bufs := bs\<rparr>" by (auto simp: only_bufs_def)
  have "only_bufs s (s\<lparr>procs := ps, bufs := bs\<rparr>)"
    using a unfolding only_bufs_def t same_procs_def by auto
  moreover have "t = (s\<lparr>procs := ps, bufs := bs\<rparr>)\<lparr>lh := h\<rparr>" unfolding t by simp
  ultimately show ?thesis by blast
qed

lemma wp_read_head:
  assumes "bio_ok {} s" "lg_dev s = 1" "lg_start s < disksize s" "card (dirty_blocks s) < NBUF"
    and len: "length (get_head (blk s (lg_start s))) \<le> LOGSIZE"
  shows "wp read_head (\<lambda>_ t. lh t = get_head (blk s (lg_start s)) \<and> (\<exists>u. reads {} s u \<and> t = u\<lparr>lh := lh t\<rparr>)) s"
proof -
  let ?h = "get_head (blk s (lg_start s))"
  have "wp (bind (bread 1 (lg_start s)) (\<lambda>i. bind (gets (\<lambda>s. b_data (bufs s ! i))) (\<lambda>d.
     if length (get_head d) > LOGSIZE then fail Fault
     else andthen (modify (\<lambda>s. s\<lparr>lh := get_head d\<rparr>)) (brelse i))))
     (\<lambda>_ t. lh t = ?h \<and> (\<exists>u. reads {} s u \<and> t = u\<lparr>lh := lh t\<rparr>)) s"
  proof (rule wp_read1 [OF assms(1,3,4)])
    fix i t
    assume r: "reads {i} s t" and i: "b_data (bufs t ! i) = blk s (lg_start s)"
    have "wp (forK brelse [i]) (\<lambda>_ v. bio_ok {} v \<and> blk v = blk (t\<lparr>lh := ?h\<rparr>) \<and>
        dirty_blocks v = dirty_blocks (t\<lparr>lh := ?h\<rparr>) \<and> only_bufs (t\<lparr>lh := ?h\<rparr>) v) (t\<lparr>lh := ?h\<rparr>)"
      using r by (intro wp_release_all) (auto simp: reads_def)
    then have "wp (forK brelse [i]) (\<lambda>_ v. lh v = ?h \<and> (\<exists>u. reads {} s u \<and> v = u\<lparr>lh := lh v\<rparr>)) (t\<lparr>lh := ?h\<rparr>)"
    proof (rule wp_mono)
      fix x v
      assume v: "bio_ok {} v \<and> blk v = blk (t\<lparr>lh := ?h\<rparr>) \<and> dirty_blocks v = dirty_blocks (t\<lparr>lh := ?h\<rparr>) \<and>
        only_bufs (t\<lparr>lh := ?h\<rparr>) v"
      then obtain u where u: "only_bufs t u" "v = u\<lparr>lh := ?h\<rparr>" using only_bufs_lh by blast
      then have "reads {} s u" using v r only_bufs_trans [of s t u] by (auto simp: reads_def)
      moreover have "lh v = ?h" "v = u\<lparr>lh := lh v\<rparr>" using u(2) by simp_all
      ultimately show "lh v = ?h \<and> (\<exists>u. reads {} s u \<and> v = u\<lparr>lh := lh v\<rparr>)" by blast
    qed
    then show "wp (bind (gets (\<lambda>s. b_data (bufs s ! i))) (\<lambda>d.
        if length (get_head d) > LOGSIZE then fail Fault
        else andthen (modify (\<lambda>s. s\<lparr>lh := get_head d\<rparr>)) (brelse i)))
        (\<lambda>_ t. lh t = ?h \<and> (\<exists>u. reads {} s u \<and> t = u\<lparr>lh := lh t\<rparr>)) t"
      using i len by simp
  qed
  then show ?thesis using assms(2) by (simp add: read_head_def)
qed

text \<open>Recovery on a freshly booted machine: nothing dirty, the header on disk one a commit wrote.\<close>

definition boot_ok :: "'a log_st_scheme \<Rightarrow> bool" where
  "boot_ok s \<longleftrightarrow> bio_ok {} s \<and> dirty_blocks s = {} \<and> lg_dev s = 1 \<and> ''log'' \<notin> held s \<and>
     head_wf (lg_start s) (lg_size s) (get_head (disk s (lg_start s))) \<and>
     (\<forall>b \<in> set (get_head (disk s (lg_start s))). b < disksize s) \<and>
     lg_start s + lg_size s \<le> disksize s \<and> disksize s \<le> 2 ^ 32"

definition recover_post :: "'a log_st_scheme \<Rightarrow> 'a log_st_scheme \<Rightarrow> bool" where
  "recover_post s t \<longleftrightarrow> log_ok {} t \<and> lh t = [] \<and> only_log s t \<and>
     lg_outstanding t = lg_outstanding s \<and> lg_committing t = lg_committing s \<and>
     disk t = recover_disk (lg_start s) (disk s) \<and> blk t = disk t \<and>
     dwrites t = dwrites s @ recover_writes (lg_start s) (disk s)"

lemma recover_writes_post:
  assumes b: "boot_ok s" and u: "only_log s u" "bio_ok {} u" "blk u = disk s" "disk u = disk s" "dwrites u = dwrites s"
    "dirty_blocks u = {}" "lg_outstanding u = lg_outstanding s" "lg_committing u = lg_committing s"
    and v: "io_writes (home_writes h (\<lambda>i. disk s (st + i + 1))) u v"
    and t: "io_writes [(st, put_head [] (disk s st))] (v\<lparr>lh := []\<rparr>) t"
    and d: "st = lg_start s" "h = get_head (disk s st)"
  shows "recover_post s t"
proof -
  let ?W = "recover_writes st (disk s)"
  have io: "only_io u v" "only_io (v\<lparr>lh := []\<rparr>) t" using v t by (simp_all add: io_writes_def)
  have ol: "only_log s t"
    by (rule only_log_trans [OF u(1) only_log_trans [OF only_io_only_log [OF io(1)] only_io_log' [OF io(2)]]])
  note f = only_logD [OF ol]
  have wf: "head_wf st (lg_size s) h" using b d by (simp add: boot_ok_def)
  have bt: "blk t = apply_writes ?W (disk s)" "disk t = apply_writes ?W (disk s)" "dwrites t = dwrites s @ ?W"
    "bio_ok {} t" "dirty_blocks t = {}"
    using u v t d(2) by (auto simp: io_writes_def recover_writes_def apply_writes_append)
  have len: "length (disk s st) = BSIZE" using b by (simp add: boot_ok_def bio_ok_def bio_ctx_def)
  have "disk t st = put_head [] (disk s st)" unfolding bt by (simp add: recover_writes_def apply_writes_append)
  then have "get_head (disk t st) = []" using get_put_head [of "[]" "disk s st"] len by simp
  moreover have "lh t = []" using only_io_log(6) [OF io(2)] by simp
  moreover have "head_wf st (lg_size s) []" using wf by (auto simp: head_wf_def)
  ultimately have "log_ok {} t" using b bt f d by (simp add: log_ok_def boot_ok_def)
  moreover have "lg_outstanding t = lg_outstanding s" "lg_committing t = lg_committing s"
    using only_io_log(3,4) [OF io(1)] only_io_log(3,4) [OF io(2)] u by simp_all
  ultimately show ?thesis using bt ol \<open>lh t = []\<close> d by (simp add: recover_post_def recover_disk_def)
qed

lemma wp_recover:
  assumes b: "boot_ok s"
  shows "wp recover_from_log (\<lambda>_. recover_post s) s"
proof -
  let ?st = "lg_start s" let ?h = "get_head (disk s ?st)"
  have bo: "bio_ok {} s" "dirty_blocks s = {}" "lg_dev s = 1" and wf: "head_wf ?st (lg_size s) ?h"
    and size: "?st + lg_size s \<le> disksize s" and hb: "\<forall>b \<in> set ?h. b < disksize s"
    using b by (simp_all add: boot_ok_def)
  have bd: "blk s = disk s" using blk_clean [OF bo(1)] bo(2) by (auto simp: fun_eq_iff)
  have st: "?st < disksize s" "?st \<notin> set ?h" "length ?h \<le> LOGSIZE"
    using wf size by (auto simp: head_wf_def log_region_def)
  have 1: "wp read_head (\<lambda>_ t. lh t = ?h \<and> (\<exists>u. reads {} s u \<and> t = u\<lparr>lh := lh t\<rparr>)) s"
    using wp_read_head [of s] bo st bd by (simp add: NBUF_def)
  have 2: "wp install_trans (\<lambda>_. wp (andthen (modify (\<lambda>s. s\<lparr>lh := []\<rparr>)) write_head) (\<lambda>_. recover_post s)) t"
    if t: "lh t = ?h \<and> (\<exists>u. reads {} s u \<and> t = u\<lparr>lh := lh t\<rparr>)" for t
  proof -
    obtain u where u: "reads {} s u" "t = u\<lparr>lh := ?h\<rparr>" using t by auto
    have ob: "only_bufs s u" and bu: "bio_ok {} u" "blk u = blk s" "dirty_blocks u = dirty_blocks s"
      using u(1) by (simp_all add: reads_def)
    have ol: "only_log s t" unfolding u(2) by (rule only_io_only_log [OF only_bufs_io [OF ob]])
    note f = only_logD [OF ol]
    have bt: "bio_ok {} t" "blk t = disk s" "dirty_blocks t = {}" "disk t = disk s" "dwrites t = dwrites s"
      "lg_outstanding t = lg_outstanding s" "lg_committing t = lg_committing s"
      using bu bo bd only_bufsD(1,3) [OF ob] only_io_log(3,4) [OF only_bufs_io [OF ob]] by (simp_all add: u(2))
    have lt: "lh t = ?h" using t by simp
    have "log_io_ok t" using bt f bo wf size hb lt by (simp add: log_io_ok_def NBUF_def)
    from wp_install_trans [OF this] bt lt f
    have "wp install_trans (\<lambda>_. io_writes (home_writes ?h (\<lambda>i. disk s (?st + i + 1))) t) t" by simp
    then show ?thesis
    proof (rule wp_mono)
      fix r v
      assume v: "io_writes (home_writes ?h (\<lambda>i. disk s (?st + i + 1))) t v"
      have io: "only_io t v" using v by (simp add: io_writes_def)
      note g = only_io_log [OF io] only_ioD(1) [OF io]
      have bv: "blk v ?st = disk s ?st"
        using v bt st(2) by (simp add: io_writes_def apply_writes_other fst_home_writes)
      have "wp write_head (\<lambda>_. io_writes [(lg_start (v\<lparr>lh := []\<rparr>), put_head (lh (v\<lparr>lh := []\<rparr>))
          (blk (v\<lparr>lh := []\<rparr>) (lg_start (v\<lparr>lh := []\<rparr>))))] (v\<lparr>lh := []\<rparr>)) (v\<lparr>lh := []\<rparr>)"
        using v f g st bo card_dirty_io [OF v] bt by (intro wp_write_head) (auto simp: io_writes_def NBUF_def)
      then have "wp write_head (\<lambda>_. io_writes [(?st, put_head [] (disk s ?st))] (v\<lparr>lh := []\<rparr>)) (v\<lparr>lh := []\<rparr>)"
        using f g bv by simp
      then have "wp write_head (\<lambda>_. recover_post s) (v\<lparr>lh := []\<rparr>)"
        by (rule wp_mono) (rule recover_writes_post [OF b ol bt(1,2,4,5,3,6,7) v _ refl refl])
      then show "wp (andthen (modify (\<lambda>s. s\<lparr>lh := []\<rparr>)) write_head) (\<lambda>_. recover_post s) v" by simp
    qed
  qed
  show ?thesis unfolding recover_from_log_def wp_andthen [of read_head] wp_andthen [of install_trans]
    by (rule wp_mono [OF 1 2])
qed

section \<open>Writing within a transaction\<close>

text \<open>
  A state in which the running system call may still log \<open>k\<close> blocks while it holds the buffers \<open>H\<close>.
\<close>

definition trans_ok :: "nat set \<Rightarrow> nat \<Rightarrow> 'a log_st_scheme \<Rightarrow> bool" where
  "trans_ok H k s \<longleftrightarrow> log_ok H s \<and> finite H \<and> 1 \<le> lg_outstanding s \<and> length (lh s) + k < lg_size s \<and>
     card H + length (lh s) + k < NBUF"

definition add_block :: "nat \<Rightarrow> nat list \<Rightarrow> nat list" where
  "add_block n h = (if n \<in> set h then h else h @ [n])"

lemma add_block_simps [simp]: "set (add_block n h) = insert n (set h)" "length (add_block n h) \<le> Suc (length h)"
  by (auto simp: add_block_def)

lemma wp_log_write:
  assumes ok: "log_ok H s" and i: "i \<in> H" and reg: "1 < b_blockno (bufs s ! i)" "\<not> log_region (lg_start s) (lg_size s) (b_blockno (bufs s ! i))"
    and out: "1 \<le> lg_outstanding s" and room: "length (lh s) + 1 < lg_size s"
  defines "t \<equiv> s\<lparr>lh := add_block (b_blockno (bufs s ! i)) (lh s),
      bufs := (bufs s)[i := (bufs s ! i)\<lparr>b_flags := B_VALID OR B_DIRTY\<rparr>]\<rparr>"
  shows "wp (log_write i) (\<lambda>_ u. u = t) s" "log_ok H t" "blk t = blk s" "only_log s t"
proof -
  let ?n = "b_blockno (bufs s ! i)" let ?nb = "(bufs s ! i)\<lparr>b_flags := B_VALID OR B_DIRTY\<rparr>"
  have bo: "bio_ok H s" using ok by (simp add: log_ok_def)
  note h = held_buf [OF bo i]
  have sz: "lg_size s \<le> LOGSIZE" and lk: "''log'' \<notin> held s" using ok by (simp_all add: log_ok_def head_wf_def)
  have fl: "b_flags (bufs s ! i) OR B_DIRTY = B_VALID OR B_DIRTY" using h(10) by (auto simp: flag_defs)
  have "\<not> (length (lh s) \<ge> LOGSIZE \<or> int (length (lh s)) \<ge> int (lg_size s) - 1)" using room sz by linarith
  then show "wp (log_write i) (\<lambda>_ u. u = t) s"
    using out lk fl by (simp add: log_write_def upd_buf_def Let_def add_block_def t_def)
  have nb: "?nb = (bufs s ! i)\<lparr>b_data := b_data (bufs s ! i), b_flags := B_VALID OR B_DIRTY\<rparr>" by simp
  note u = bio_ok_change [OF bo i nb h(8) disjI2 [OF refl]]
  let ?u = "s\<lparr>bufs := (bufs s)[i := ?nb]\<rparr>"
  have tu: "t = ?u\<lparr>lh := add_block ?n (lh s)\<rparr>" by (simp add: t_def)
  show "blk t = blk s" unfolding tu using u(2) blk_cached [OF bo h(9)] by (auto simp: fun_eq_iff)
  have "n \<in> dirty_blocks ?u \<longleftrightarrow> n \<in> insert ?n (dirty_blocks s)" for n
    unfolding dirty_blocks_update [OF bo h(1)] using h(1,3)
    by (auto simp: dirty_blocks_def flag_defs holds_block_def)
  then have "dirty_blocks t = insert ?n (dirty_blocks s)" unfolding tu by auto
  moreover have "bio_ok H t" unfolding tu using u(1) by simp
  moreover have "head_wf (lg_start s) (lg_size s) (add_block ?n (lh s))"
    using ok reg room h(7) by (auto simp: log_ok_def head_wf_def add_block_def)
  ultimately show "log_ok H t" using ok by (simp add: log_ok_def t_def)
  show "only_log s t"
    unfolding tu by (rule only_io_only_log [OF only_bufs_io]) simp
qed

text \<open>The effect of a piece of a transaction on the state: the contents of the blocks change as given,
  and buffers held before are as they were.\<close>

definition blk_step :: "nat set \<Rightarrow> nat \<Rightarrow> blocks \<Rightarrow> 'a log_st_scheme \<Rightarrow> 'a log_st_scheme \<Rightarrow> bool" where
  "blk_step H k B s t \<longleftrightarrow> trans_ok H k t \<and> blk t = B \<and> only_log s t \<and> lg_outstanding t = lg_outstanding s \<and>
     lg_committing t = lg_committing s \<and>
     (\<forall>j \<in> H. same_buf (bufs s ! j) (bufs t ! j))"

lemma only_bufs_log:
  assumes "only_bufs s t"
  shows "lh t = lh s" "lg_outstanding t = lg_outstanding s" "only_log s t" "lg_committing t = lg_committing s"
  using only_io_log [OF only_bufs_io [OF assms]] only_io_log' [OF only_bufs_io [OF assms]] by auto

lemma log_ok_bufs:
  assumes "log_ok H s" "only_bufs s t" "bio_ok H' t" "dirty_blocks t = dirty_blocks s"
  shows "log_ok H' t"
  using assms only_bufs_log [OF assms(2)] only_logD [OF only_bufs_log(3) [OF assms(2)]] only_bufsD(1) [OF assms(2)]
  by (simp add: log_ok_def)

lemma trans_bread:
  assumes ok: "trans_ok H k s" and n: "n < disksize s" "\<And>i. i \<in> H \<Longrightarrow> \<not> holds_block (bufs s) n i" and k: "0 < k"
  shows "wp (bread 1 n) (\<lambda>i t. bread_post H n s i t \<and> log_ok (insert i H) t) s"
proof -
  have lo: "log_ok H s" using ok by (simp add: trans_ok_def)
  then have bo: "bio_ok H s" by (simp add: log_ok_def)
  have "avail H s" using ok log_ok_card [OF lo] by (simp add: avail_def trans_ok_def)
  then have "wp (bread 1 n) (bread_post H n s) s" using wp_bread [OF bo n] by blast
  then show ?thesis
  proof (rule wp_mono)
    fix i t
    assume p: "bread_post H n s i t"
    then have "log_ok (insert i H) t" by (intro log_ok_bufs [OF lo]) (auto simp: bread_post_def)
    with p show "bread_post H n s i t \<and> log_ok (insert i H) t" by simp
  qed
qed

lemma trans_brelse:
  assumes lo: "log_ok (insert i H) s" and i: "i \<notin> H" and st: "settled s i"
  shows "wp (brelse i) (\<lambda>_ t. log_ok H t \<and> blk t = blk s \<and> only_bufs s t \<and>
    (\<forall>j \<in> H. same_buf (bufs s ! j) (bufs t ! j))) s"
proof -
  have bo: "bio_ok (insert i H) s" using lo by (simp add: log_ok_def)
  have "wp (brelse i) (\<lambda>_. brelse_post (insert i H) i s) s" by (rule wp_brelse [OF bo _ st]) simp
  then show ?thesis
  proof (rule wp_mono)
    fix r t
    assume p: "brelse_post (insert i H) i s t"
    have "insert i H - {i} = H" using i by auto
    then have "log_ok H t" using p by (intro log_ok_bufs [OF lo]) (auto simp: brelse_post_def)
    then show "log_ok H t \<and> blk t = blk s \<and> only_bufs s t \<and> (\<forall>j \<in> H. same_buf (bufs s ! j) (bufs t ! j))"
      using p bio_ok_bufs(2) [OF bo] by (auto simp: brelse_post_def)
  qed
qed

lemma trans_ok_frame:
  "trans_ok H k s \<Longrightarrow> log_ok H t \<Longrightarrow> lh t = lh s \<Longrightarrow> lg_outstanding t = lg_outstanding s \<Longrightarrow> lg_size t = lg_size s \<Longrightarrow>
   trans_ok H k t"
  by (simp add: trans_ok_def)

text \<open>Reading a block within a transaction.\<close>

lemma trans_read:
  assumes ok: "trans_ok H k s" and n: "n < disksize s" "\<And>i. i \<in> H \<Longrightarrow> \<not> holds_block (bufs s) n i" and k: "0 < k"
  shows "wp (bind (bread 1 n) (\<lambda>i. bind (gets (\<lambda>s. b_data (bufs s ! i))) (\<lambda>d. andthen (brelse i) (ret d))))
    (\<lambda>d t. d = blk s n \<and> blk_step H k (blk s) s t) s"
proof -
  have "wp (brelse i) (\<lambda>_ u. b_data (bufs t ! i) = blk s n \<and> blk_step H k (blk s) s u) t"
    if p: "bread_post H n s i t \<and> log_ok (insert i H) t" for i t
  proof -
    have "settled t i" using p bread_post_settled by blast
    moreover have "i \<notin> H" "b_data (bufs t ! i) = blk s n" "blk t = blk s" "only_bufs s t" "\<forall>j \<in> H. bufs t ! j = bufs s ! j"
      using p by (auto simp: bread_post_def)
    ultimately show ?thesis
    proof (intro wp_mono [OF trans_brelse [OF conjunct2 [OF p]]])
      fix r u
      assume u: "log_ok H u \<and> blk u = blk t \<and> only_bufs t u \<and> (\<forall>j \<in> H. same_buf (bufs t ! j) (bufs u ! j))"
      have ob: "only_bufs s u" using u \<open>only_bufs s t\<close> only_bufs_trans by blast
      have "trans_ok H k u"
        using u only_bufs_log [OF ob] only_logD [OF only_bufs_log(3) [OF ob]] by (intro trans_ok_frame [OF ok]) auto
      then show "b_data (bufs t ! i) = blk s n \<and> blk_step H k (blk s) s u"
        using u only_bufs_log(2-4) [OF ob] \<open>b_data (bufs t ! i) = blk s n\<close> \<open>blk t = blk s\<close> \<open>\<forall>j \<in> H. bufs t ! j = bufs s ! j\<close>
        by (auto simp: blk_step_def)
    qed auto
  qed
  then show ?thesis using wp_mono [OF trans_bread [OF ok n k]] by simp
qed

text \<open>Storing new contents into a held buffer and logging it.\<close>

lemma trans_store:
  assumes lo: "log_ok (insert i H) s" and i: "i \<notin> H" and d: "length d = BSIZE"
    and reg: "1 < b_blockno (bufs s ! i)" "\<not> log_region (lg_start s) (lg_size s) (b_blockno (bufs s ! i))"
    and out: "1 \<le> lg_outstanding s" and room: "length (lh s) + 1 < lg_size s"
  shows "wp (andthen (set_data i d) (andthen (log_write i) (brelse i)))
    (\<lambda>_ t. log_ok H t \<and> blk t = (blk s)(b_blockno (bufs s ! i) := d) \<and> only_log s t \<and>
      lh t = add_block (b_blockno (bufs s ! i)) (lh s) \<and> lg_outstanding t = lg_outstanding s \<and> lg_committing t = lg_committing s \<and>
      (\<forall>j \<in> H. same_buf (bufs s ! j) (bufs t ! j))) s"
proof -
  let ?n = "b_blockno (bufs s ! i)" let ?u = "with_data i d s"
  have bo: "bio_ok (insert i H) s" using lo by (simp add: log_ok_def)
  note u = with_data [OF bo insertI1 d]
  note uf = only_bufs_log [OF u(4)] only_logD [OF only_bufs_log(3) [OF u(4)]]
  have lu: "log_ok (insert i H) ?u" by (rule log_ok_bufs [OF lo u(4,1,3)])
  have un: "b_blockno (bufs ?u ! i) = ?n" by (simp add: u(5))
  let ?t = "?u\<lparr>lh := add_block (b_blockno (bufs ?u ! i)) (lh ?u),
      bufs := (bufs ?u)[i := (bufs ?u ! i)\<lparr>b_flags := B_VALID OR B_DIRTY\<rparr>]\<rparr>"
  note w = wp_log_write [OF lu insertI1, unfolded un uf, OF reg out room]
  have lt: "log_ok (insert i H) ?t" and bt: "blk ?t = (blk s)(?n := d)" and ot: "only_log s ?t"
    using w(2-4) u(2) only_log_trans [OF uf(3)] by (simp_all add: un uf)
  have i': "i < NBUF" "length (bufs ?u) = NBUF + 1" using held_buf(1,2) [of "insert i H" ?u i] lu by (simp_all add: log_ok_def)
  have "settled ?t i" using i' by (simp add: settled_def flag_defs)
  note r = trans_brelse [OF lt i this]
  have "wp (brelse i) (\<lambda>_ t. log_ok H t \<and> blk t = (blk s)(?n := d) \<and> only_log s t \<and> lh t = add_block ?n (lh s) \<and>
      lg_outstanding t = lg_outstanding s \<and> lg_committing t = lg_committing s \<and> (\<forall>j \<in> H. same_buf (bufs s ! j) (bufs t ! j))) ?t"
  proof (rule wp_mono [OF r])
    fix x v
    assume v: "log_ok H v \<and> blk v = blk ?t \<and> only_bufs ?t v \<and> (\<forall>j \<in> H. same_buf (bufs ?t ! j) (bufs v ! j))"
    then have ob: "only_bufs ?t v" by simp
    have "bufs ?t ! j = bufs s ! j" if "j \<in> H" for j
    proof -
      have "j \<noteq> i" using that i by auto
      then show ?thesis using u(6) [of j] by simp
    qed
    then have "same_buf (bufs s ! j) (bufs v ! j)" if "j \<in> H" for j using v that by auto
    then show "log_ok H v \<and> blk v = (blk s)(?n := d) \<and> only_log s v \<and> lh v = add_block ?n (lh s) \<and>
      lg_outstanding v = lg_outstanding s \<and> lg_committing v = lg_committing s \<and> (\<forall>j \<in> H. same_buf (bufs s ! j) (bufs v ! j))"
      using v bt only_bufs_log [OF ob] only_log_trans [OF ot] un uf by simp
  qed
  then show ?thesis
    using wp_mono [OF w(1)] by (simp add: wp_set_data un uf)
qed

text \<open>The pattern of the comment above \<^verbatim>\<open>log_write\<close>: read a block, modify it, log it, release it.\<close>

lemma trans_update:
  assumes ok: "trans_ok H (Suc k) s" and n: "n < disksize s" "\<And>i. i \<in> H \<Longrightarrow> \<not> holds_block (bufs s) n i"
    and reg: "1 < n" "\<not> log_region (lg_start s) (lg_size s) n" and len: "length (f (blk s n)) = BSIZE"
  shows "wp (bind (bread 1 n) (\<lambda>i. bind (gets (\<lambda>s. b_data (bufs s ! i))) (\<lambda>d.
      andthen (set_data i (f d)) (andthen (log_write i) (brelse i)))))
    (\<lambda>_. blk_step H k ((blk s)(n := f (blk s n))) s) s"
proof -
  have "wp (andthen (set_data i (f (b_data (bufs t ! i)))) (andthen (log_write i) (brelse i)))
      (\<lambda>_. blk_step H k ((blk s)(n := f (blk s n))) s) t"
    if p: "bread_post H n s i t \<and> log_ok (insert i H) t" for i t
  proof -
    have i: "i \<notin> H" "b_data (bufs t ! i) = blk s n" "blk t = blk s" "\<forall>j \<in> H. bufs t ! j = bufs s ! j"
        "b_blockno (bufs t ! i) = n" and ob: "only_bufs s t"
      using p by (auto simp: bread_post_def holds_block_def)
    note f = only_bufs_log [OF ob] only_logD [OF only_bufs_log(3) [OF ob]]
    have "wp (andthen (set_data i (f (blk s n))) (andthen (log_write i) (brelse i)))
      (\<lambda>_ u. log_ok H u \<and> blk u = (blk t)(b_blockno (bufs t ! i) := f (blk s n)) \<and> only_log t u \<and>
        lh u = add_block (b_blockno (bufs t ! i)) (lh t) \<and> lg_outstanding u = lg_outstanding t \<and> lg_committing u = lg_committing t \<and>
        (\<forall>j \<in> H. same_buf (bufs t ! j) (bufs u ! j))) t"
      using ok reg len f i by (intro trans_store [OF conjunct2 [OF p] i(1)]) (auto simp: trans_ok_def)
    then show ?thesis
      unfolding i(2)
    proof (rule wp_mono)
      fix r u
      assume u: "log_ok H u \<and> blk u = (blk t)(b_blockno (bufs t ! i) := f (blk s n)) \<and> only_log t u \<and>
        lh u = add_block (b_blockno (bufs t ! i)) (lh t) \<and> lg_outstanding u = lg_outstanding t \<and> lg_committing u = lg_committing t \<and>
        (\<forall>j \<in> H. same_buf (bufs t ! j) (bufs u ! j))"
      then have "only_log s u" using f(3) only_log_trans by blast
      moreover have "length (lh u) \<le> Suc (length (lh s))" using u f(1) by simp
      then have "length (lh u) + k < lg_size u" "card H + length (lh u) + k < NBUF"
        using ok only_logD(2) [OF \<open>only_log s u\<close>] by (simp_all add: trans_ok_def)
      then have "trans_ok H k u" using u ok f(2) unfolding trans_ok_def by simp
      ultimately show "blk_step H k ((blk s)(n := f (blk s n))) s u"
        using u i f(2,4) by (auto simp: blk_step_def)
    qed
  qed
  then show ?thesis using wp_mono [OF trans_bread [OF ok n]] by simp
qed

lemma blk_step_trans:
  "blk_step H k B s t \<Longrightarrow> blk_step H l C t u \<Longrightarrow> blk_step H l C s u"
  by (auto simp: blk_step_def same_buf_def intro: only_log_trans)

section \<open>Transactions\<close>

lemma wp_begin_op:
  assumes "''log'' \<notin> held s" "\<not> lg_committing s" "int (length (lh s)) + (lg_outstanding s + 1) * int MAXOPBLOCKS \<le> int LOGSIZE"
  shows "wp begin_op (\<lambda>_ t. t = s\<lparr>lg_outstanding := lg_outstanding s + 1\<rparr>) s"
  using assms by (simp add: begin_op_def not_less [symmetric])

lemma log_ok_outstanding [simp]:
  "log_ok H (s\<lparr>lg_outstanding := x\<rparr>) = log_ok H s" "log_ok H (s\<lparr>lg_committing := c\<rparr>) = log_ok H s"
  by (simp_all add: log_ok_def)

lemma log_ok_held: "''log'' \<notin> held s \<Longrightarrow> log_ok H (s\<lparr>held := held s\<rparr>) = log_ok H s"
  by simp

text \<open>The last \<^verbatim>\<open>end_op\<close> commits.\<close>

lemma wp_end_op:
  assumes ok: "log_ok {} s" and out: "lg_outstanding s = 1" and c: "\<not> lg_committing s"
  shows "wp end_op (\<lambda>_ t. log_ok {} t \<and> lh t = [] \<and> lg_outstanding t = 0 \<and> \<not> lg_committing t \<and> only_log s t \<and>
    dwrites t = dwrites s @ (if lh s = [] then [] else commit_writes (lg_start s) (lh s) (blk s)) \<and>
    (\<forall>n. \<not> log_region (lg_start s) (lg_size s) n \<longrightarrow> blk t n = blk s n \<and> disk t n = blk s n)) s"
    (is "wp end_op (\<lambda>_. ?Q) s")
proof -
  have lk: "''log'' \<notin> held s" "''ptable'' \<notin> held s" using ok by (simp_all add: log_ok_def bio_ok_def bio_ctx_def)
  let ?u = "s\<lparr>lg_outstanding := 0, lg_committing := True\<rparr>"
  have "log_ok {} ?u" using ok by simp
  note cm = wp_commit [OF this]
  have "?Q (t\<lparr>lg_committing := False, procs := map (wake Ch_log) (procs t)\<rparr>)" if t: "commit_post ?u t" for t
  proof -
    let ?v = "t\<lparr>lg_committing := False, procs := map (wake Ch_log) (procs t)\<rparr>"
    have sp: "same_procs t ?v" by (simp add: same_procs_def comp_def)
    have ol: "only_log ?u t" and lt: "log_ok {} t" using t by (simp_all add: commit_post_def)
    have ob: "only_bufs (t\<lparr>lg_committing := False\<rparr>) ?v"
      unfolding only_bufs_def
      by (intro conjI exI [of _ "procs ?v"] exI [of _ "bufs t"]) (use sp in \<open>simp_all add: same_procs_def\<close>)
    have bo: "bio_ok {} (t\<lparr>lg_committing := False\<rparr>)" using lt by (simp add: log_ok_def)
    have ring: "\<exists>xs. bring xs (bufs t)" using lt by (auto simp: log_ok_def bio_ok_def)
    then obtain xs where "bring xs (bufs t)" by auto
    from bio_ok_relink [OF bo _ this, of "procs ?v"] sp
    have bv: "bio_ok {} ?v" "blk ?v = blk t" "dirty_blocks ?v = dirty_blocks t" by (simp_all add: same_procs_def)
    have "log_ok {} ?v" using log_ok_bufs [OF _ ob bv(1)] lt bv(3) by simp
    moreover have "only_log s ?v"
    proof -
      have "only_log s ?u" 
        by (rule only_logI [where ps = "procs s" and bs = "bufs s" and d = "disk s" and w = "dwrites s" and h = "lh s"
          and oo = 0 and c = True]) (simp_all add: same_procs_def)
      moreover have "only_log t ?v" 
        by (rule only_logI [where ps = "procs ?v" and bs = "bufs t" and d = "disk t" and w = "dwrites t" and h = "lh t"
          and oo = "lg_outstanding t" and c = False]) (simp_all add: sp)
      ultimately show ?thesis using ol only_log_trans by blast
    qed
    ultimately show ?thesis using t bv by (simp add: commit_post_def)
  qed
  moreover have "''log'' \<notin> held t" "''ptable'' \<notin> held t" if "commit_post ?u t" for t
    using that only_logD(6) [of ?u t] lk by (auto simp: commit_post_def)
  ultimately have "wp commit (\<lambda>_ t. ''log'' \<notin> held t \<and> ''ptable'' \<notin> held t \<and>
      ?Q (t\<lparr>lg_committing := False, procs := map (wake Ch_log) (procs t)\<rparr>)) ?u"
    by (intro wp_mono [OF cm]) blast
  moreover have "t\<lparr>lg_committing := False, procs := ps, held := held t - {''log''}\<rparr> = t\<lparr>lg_committing := False, procs := ps\<rparr>"
    if "''log'' \<notin> held t" for t :: "'a log_st_scheme" and ps using that by simp
  ultimately show ?thesis using lk out c by (simp add: end_op_def cong: conj_cong split del: if_split)
qed

end
