(* ===== verification/Crash.thy ===== *)
theory Crash
  imports Log
begin

text \<open>
  Crash safety of \<^verbatim>\<open>kernel/log.c\<close>: a machine that stops between any two disk writes of a commit, and again
  between any two disk writes of any number of recoveries, comes up with the file system before the
  transaction or after it.
\<close>

section \<open>Disks that recovery can handle\<close>

definition recoverable :: "nat \<Rightarrow> nat \<Rightarrow> nat \<Rightarrow> blocks \<Rightarrow> bool" where
  "recoverable st sz ds E \<longleftrightarrow> head_wf st sz (get_head (E st)) \<and> (\<forall>b \<in> set (get_head (E st)). b < ds) \<and>
     (\<forall>n. length (E n) = BSIZE)"

lemma apply_writes_cases: "apply_writes ws D n = D n \<or> (n, apply_writes ws D n) \<in> set ws"
proof (induction ws arbitrary: D)
  case (Cons w ws)
  obtain m e where "w = (m, e)" by (cases w)
  then show ?case using Cons.IH [of "D(m := e)"]
    by (metis apply_writes.simps(2) fun_upd_apply list.set_intros)
qed simp

lemma apply_writes_length:
  "(\<And>n. length (D n) = BSIZE) \<Longrightarrow> (\<And>n d. (n, d) \<in> set ws \<Longrightarrow> length d = BSIZE) \<Longrightarrow> length (apply_writes ws D n) = BSIZE"
  using apply_writes_cases [of ws D n] by auto

lemma recover_again:
  assumes r: "recoverable st sz ds E" and E': "E' = apply_writes (take k (recover_writes st E)) E"
  shows "recoverable st sz ds E'" "\<And>n. \<not> log_region st sz n \<Longrightarrow> recover_disk st E' n = recover_disk st E n"
    "\<And>n. n \<notin> set (get_head (E st)) \<Longrightarrow> n \<noteq> st \<Longrightarrow> E' n = E n"
proof -
  let ?h = "get_head (E st)" let ?w = "home_writes ?h (\<lambda>i. E (st + i + 1))"
  have wf: "head_wf st sz ?h" and len: "length (E n) = BSIZE" for n using r by (simp_all add: recoverable_def)
  have st: "st \<notin> set ?h" using wf by (auto simp: head_wf_def log_region_def)
  have lw: "length ?w = length ?h" by (simp add: home_writes_def)
  have other: "apply_writes (take k ?w) E n = E n" if "n \<notin> set ?h" for n
    using that set_take_subset [of k ?w] fst_home_writes [of ?h] by (intro apply_writes_other) fastforce
  have "length d = BSIZE" if "(n, d) \<in> set (take k (recover_writes st E))" for n d
    using in_set_takeD [OF that] len length_put_head [of "[]"] by (auto simp: recover_writes_def home_writes_def)
  then have lenE: "length (E' n) = BSIZE" for n unfolding E' by (rule apply_writes_length [OF len])
  have full: "recover_disk st E n = (if n \<in> set ?h then recover_disk st E n else E n)" if "\<not> log_region st sz n" for n
    using that wf st by (auto simp: recover_disk_def recover_writes_def apply_writes_append apply_writes_other
        fst_home_writes head_wf_def log_region_def)
  have "recoverable st sz ds E' \<and> (\<forall>n. \<not> log_region st sz n \<longrightarrow> recover_disk st E' n = recover_disk st E n) \<and>
      (\<forall>n. n \<notin> set ?h \<longrightarrow> n \<noteq> st \<longrightarrow> E' n = E n)"
  proof (cases "k \<le> length ?h")
    case True
    then have e: "E' = apply_writes (take k ?w) E" using lw by (simp add: E' recover_writes_def)
    have hd: "get_head (E' st) = ?h" using other [OF st] by (simp add: e)
    have reg: "E' (st + i + 1) = recover_disk st E (?h ! i)" if i: "i < length ?h" for i
    proof -
      have "st + i + 1 \<notin> set ?h" using i wf by (auto simp: head_wf_def log_region_def)
      then have "E' (st + i + 1) = E (st + i + 1)" by (simp add: e other)
      also have "\<dots> = apply_writes ?w E (?h ! i)"
        using wf i by (intro apply_home_writes [symmetric]) (auto simp: head_wf_def)
      also have "\<dots> = recover_disk st E (?h ! i)"
        using st nth_mem [OF i] by (simp add: recover_disk_def recover_writes_def apply_writes_append del: nth_mem) auto
      finally show ?thesis .
    qed
    have "recover_disk st E' n = recover_disk st E n" if "\<not> log_region st sz n" for n
      using recover_full [of E' st ?h sz n "recover_disk st E", OF hd wf that reg] full [OF that] other [of n]
      by (simp add: e split: if_splits)
    then show ?thesis using r hd lenE other by (simp add: recoverable_def e)
  next
    case False
    then have e: "E' = recover_disk st E" using lw by (simp add: E' recover_disk_def recover_writes_def)
    have "E' st = put_head [] (E st)" by (simp add: e recover_disk_def recover_writes_def apply_writes_append)
    then have hd: "get_head (E' st) = []" using get_put_head [of "[]" "E st"] len by simp
    have "recover_disk st E' n = recover_disk st E n" if n: "\<not> log_region st sz n" for n
    proof -
      have "n \<noteq> st" using n wf by (auto simp: log_region_def head_wf_def)
      then show ?thesis using recover_empty [of E' st n] hd by (simp add: e)
    qed
    moreover have "E' n = E n" if "n \<notin> set ?h" "n \<noteq> st" for n
      using that by (simp add: e recover_disk_def recover_writes_def apply_writes_append apply_writes_other fst_home_writes)
    moreover have "recoverable st sz ds E'" using wf hd lenE by (auto simp: recoverable_def head_wf_def)
    ultimately show ?thesis by blast
  qed
  then show "recoverable st sz ds E'" "\<And>n. \<not> log_region st sz n \<Longrightarrow> recover_disk st E' n = recover_disk st E n"
    "\<And>n. n \<notin> set (get_head (E st)) \<Longrightarrow> n \<noteq> st \<Longrightarrow> E' n = E n" by blast+
qed

section \<open>The boot sequence\<close>

lemma wp_readsb:
  assumes "bio_ok {} s" "1 < disksize s" "card (dirty_blocks s) < NBUF"
  shows "wp (readsb 1) (\<lambda>sb t. sb = decode_sb (blk s 1) \<and> reads {} s t) s"
proof -
  have "wp (bread 1 1) (\<lambda>i u. wp (brelse i) (\<lambda>_ t. b_data (bufs u ! i) = blk s 1 \<and> reads {} s t) u) s"
    using wp_read_block [OF assms] by simp
  then have "wp (bread 1 1) (\<lambda>i u. wp (brelse i) (\<lambda>_ t. decode_sb (b_data (bufs u ! i)) = decode_sb (blk s 1) \<and> reads {} s t) u) s"
  proof (rule wp_mono)
    fix i u
    assume "wp (brelse i) (\<lambda>_ t. b_data (bufs u ! i) = blk s 1 \<and> reads {} s t) u"
    then show "wp (brelse i) (\<lambda>_ t. decode_sb (b_data (bufs u ! i)) = decode_sb (blk s 1) \<and> reads {} s t) u"
      by (rule wp_mono) simp
  qed
  then show ?thesis by (simp add: readsb_def)
qed

text \<open>A machine as \<^verbatim>\<open>initlog\<close> finds it: an empty buffer cache over the disk \<open>E\<close>.\<close>

definition booted :: "nat \<Rightarrow> blocks \<Rightarrow> 'a log_st_scheme \<Rightarrow> bool" where
  "booted ds E b \<longleftrightarrow> bio_ok {} b \<and> dirty_blocks b = {} \<and> disk b = E \<and> disksize b = ds \<and> ''log'' \<notin> held b"

definition has_log :: "nat \<Rightarrow> nat \<Rightarrow> nat \<Rightarrow> blocks \<Rightarrow> bool" where
  "has_log st sz ds E \<longleftrightarrow> sb_logstart (decode_sb (E 1)) = st \<and> sb_nlog (decode_sb (E 1)) = sz \<and>
     1 < ds \<and> st + sz \<le> ds \<and> ds \<le> 2 ^ 32 \<and> \<not> log_region st sz 1"

lemma bio_ok_log_place [simp]:
  "bio_ok H (s\<lparr>lg_start := a, lg_size := b, lg_dev := c\<rparr>) = bio_ok H s"
  "dirty_blocks (s\<lparr>lg_start := a, lg_size := b, lg_dev := c\<rparr>) = dirty_blocks s"
  by (simp_all add: bio_ok_def bio_ctx_def my_pid_def dirty_blocks_def cong: option.case_cong)

lemma wp_initlog:
  assumes b: "booted ds E b" and sb: "has_log st sz ds E" and r: "recoverable st sz ds E"
  shows "wp (initlog 1) (\<lambda>_ u. log_ok {} u \<and> lh u = [] \<and> lg_start u = st \<and> lg_size u = sz \<and> disk u = recover_disk st E \<and>
    blk u = disk u \<and> dwrites u = dwrites b @ recover_writes st E \<and> lg_outstanding u = lg_outstanding b \<and>
    lg_committing u = lg_committing b \<and> disksize u = ds) b" (is "wp _ (\<lambda>_. ?P) b")
proof -
  have bo: "bio_ok {} b" "dirty_blocks b = {}" "disk b = E" "disksize b = ds" "''log'' \<notin> held b"
    using b by (simp_all add: booted_def)
  then have bE: "blk b = E" using blk_clean [of b] by (auto simp: fun_eq_iff)
  have 1: "wp (readsb 1) (\<lambda>x t. x = decode_sb (blk b 1) \<and> reads {} b t) b"
    using bo sb by (intro wp_readsb) (auto simp: has_log_def NBUF_def)
  have 2: "wp recover_from_log (\<lambda>_. ?P) (t\<lparr>lg_start := sb_logstart x, lg_size := sb_nlog x, lg_dev := 1\<rparr>)"
    if t: "x = decode_sb (blk b 1) \<and> reads {} b t" for x t
  proof -
    let ?t = "t\<lparr>lg_start := sb_logstart x, lg_size := sb_nlog x, lg_dev := 1\<rparr>"
    have x: "sb_logstart x = st" "sb_nlog x = sz" using t sb bE by (simp_all add: has_log_def)
    have ob: "only_bufs b t" and bt: "bio_ok {} t" "dirty_blocks t = {}" using t bo by (simp_all add: reads_def)
    note f = only_bufsD(1-4) [OF ob] only_io_log(3,4) [OF only_bufs_io [OF ob]]
    have "boot_ok ?t" using bt f x bo sb r by (simp add: boot_ok_def has_log_def recoverable_def)
    from wp_recover [OF this] show ?thesis
      by (rule wp_mono) (auto simp: recover_post_def x f bo dest: only_logD(1,2,4))
  qed
  have h: "b\<lparr>held := held b - {''log''}\<rparr> = b" using bo(5) by simp
  show ?thesis
    using wp_mono [OF 1 2] by (simp add: initlog_def initlock_def h LOGSIZE_def BSIZE_def)
qed

section \<open>Crashes\<close>

text \<open>The disks that a machine can be found with after boots that were cut short: each one writes a prefix
  of what \<^verbatim>\<open>initlog\<close> writes.\<close>

inductive crashes :: "nat \<Rightarrow> blocks \<Rightarrow> blocks \<Rightarrow> bool" for ds :: nat and D :: blocks where
  crashes_none: "crashes ds D D"
| crashes_boot: "crashes ds D E \<Longrightarrow> booted ds E (b :: log_st) \<Longrightarrow> initlog 1 b = Inr ((), u) \<Longrightarrow>
    dwrites u = dwrites b @ ws \<Longrightarrow> crashes ds D (apply_writes (take k ws) E)"

lemma crashes_recover:
  assumes "crashes ds D E" "has_log st sz ds D" "recoverable st sz ds D"
  shows "has_log st sz ds E \<and> recoverable st sz ds E \<and>
    (\<forall>n. \<not> log_region st sz n \<longrightarrow> recover_disk st E n = recover_disk st D n)"
  using assms
proof (induction rule: crashes.induct)
  case crashes_none
  then show ?case by simp
next
  case (crashes_boot E b u ws k)
  then have sb: "has_log st sz ds E" and r: "recoverable st sz ds E" by blast+
  have w: "ws = recover_writes st E"
    using wp_result [OF wp_initlog [OF crashes_boot(2) sb r] crashes_boot(3)] crashes_boot(4) by simp
  note a = recover_again [OF r, of _ k, folded w, OF refl]
  have "1 \<notin> set (get_head (E st))" "1 \<noteq> st" using r sb by (auto simp: recoverable_def has_log_def log_region_def head_wf_def)
  then have "apply_writes (take k ws) E 1 = E 1" by (rule a(3))
  then have "has_log st sz ds (apply_writes (take k ws) E)" using sb by (simp add: has_log_def)
  then show ?case using crashes_boot a by simp
qed

text \<open>The disk after a prefix of the writes of a commit.\<close>

lemma commit_prefix:
  assumes ok: "log_ok {} s" and sb: "has_log (lg_start s) (lg_size s) (disksize s) (disk s)"
    and ne: "lh s \<noteq> []"
    and E: "E = apply_writes (take k (commit_writes (lg_start s) (lh s) (blk s))) (disk s)"
  shows "has_log (lg_start s) (lg_size s) (disksize s) E" "recoverable (lg_start s) (lg_size s) (disksize s) E"
    "(\<forall>n. \<not> log_region (lg_start s) (lg_size s) n \<longrightarrow> recover_disk (lg_start s) E n = disk s n) \<or>
     (\<forall>n. \<not> log_region (lg_start s) (lg_size s) n \<longrightarrow> recover_disk (lg_start s) E n = blk s n)"
proof -
  let ?st = "lg_start s" let ?sz = "lg_size s" let ?h = "lh s" let ?W = "commit_writes ?st ?h (blk s)"
  have bo: "bio_ok {} s" and wf: "head_wf ?st ?sz ?h" and d: "dirty_blocks s = set ?h" and g: "get_head (disk s ?st) = []"
    using ok by (simp_all add: log_ok_def)
  have hb: "b < disksize s" if "b \<in> set ?h" for b using dirty_in_disk [OF bo] d that by simp
  have len: "length (disk s n) = BSIZE" "length (blk s n) = BSIZE" for n
    using bo length_blk [OF bo] by (simp_all add: bio_ok_def bio_ctx_def)
  have st: "?st \<notin> set ?h" using wf by (auto simp: head_wf_def log_region_def)
  have one: "1 \<notin> set ?h" using wf by (auto simp: head_wf_def)
  have nst: "?h ! i \<noteq> ?st" if "i < length ?h" for i using st that nth_mem by metis
  have bst: "blk s ?st = disk s ?st" using blk_clean [OF bo] d st by simp
  have hl: "length ?h \<le> LOGSIZE" using wf by (simp add: head_wf_def)
  have hb32: "b < 2 ^ 32" if "b \<in> set ?h" for b using wf that by (auto simp: head_wf_def)
  have W: "x = ?st \<and> (e = put_head ?h (blk s ?st) \<or> e = put_head [] (put_head ?h (blk s ?st))) \<or>
      x \<noteq> ?st \<and> (x \<in> set ?h \<or> log_region ?st ?sz x) \<and> length e = BSIZE" if "(x, e) \<in> set ?W" for x e
    using that st len wf nst
    by (auto simp: commit_writes_def log_writes_def home_writes_def head_wf_def log_region_def)
  have gh: "get_head (put_head ?h (blk s ?st)) = ?h" "length (put_head ?h (blk s ?st)) = BSIZE"
    using get_put_head [OF hl len(2) hb32] length_put_head [OF hl len(2)] by simp_all
  have g0: "get_head (put_head [] (put_head ?h (blk s ?st))) = []" "length (put_head [] (put_head ?h (blk s ?st))) = BSIZE"
    using get_put_head [of "[]", OF _ gh(2)] length_put_head [of "[]", OF _ gh(2)] by simp_all
  have c: "E n = disk s n \<or> (n, E n) \<in> set ?W" for n
    using apply_writes_cases [of "take k ?W" "disk s" n] by (auto simp: E dest: in_set_takeD)
  have "get_head (E ?st) = [] \<or> get_head (E ?st) = ?h" using c [of ?st] W [of ?st "E ?st"] g gh g0 by auto
  moreover have "length (E n) = BSIZE" for n using c [of n] W [of n "E n"] gh g0 len by auto
  ultimately show "recoverable ?st ?sz (disksize s) E"
    using wf hb one by (auto simp: recoverable_def head_wf_def)
  have "\<not> log_region ?st ?sz 1" "1 \<noteq> ?st" using sb wf by (auto simp: has_log_def log_region_def head_wf_def)
  then have "E 1 = disk s 1" using c [of 1] W [of 1 "E 1"] one by auto
  then show "has_log ?st ?sz (disksize s) E" using sb by (simp add: has_log_def)
  have same: "disk s n = blk s n" if "n \<notin> set ?h" for n using blk_clean [OF bo] d that by simp
  note cc = commit_crash [where D = "disk s" and B = "blk s" and k = k, OF wf g len(1) bst, folded E]
  show "(\<forall>n. \<not> log_region ?st ?sz n \<longrightarrow> recover_disk ?st E n = disk s n) \<or>
     (\<forall>n. \<not> log_region ?st ?sz n \<longrightarrow> recover_disk ?st E n = blk s n)"
    using cc same by (cases "k \<le> length ?h") auto
qed

text \<open>C4: Crash atomicity of a transaction. When the last system call of a transaction reaches \<^verbatim>\<open>end_op\<close>, the
  call returns, and wherever the machine stops between two of its disk writes, and however often it then
  stops again while it recovers, the first boot whose \<^verbatim>\<open>initlog\<close> is not cut short returns and leaves the whole
  file system (every block outside the log) as before the transaction or as after it.\<close>

theorem commit_atomic:
  assumes "log_ok {} s" "lg_outstanding s = 1" "\<not> lg_committing s"
    and "has_log (lg_start s) (lg_size s) (disksize s) (disk s)"
  shows "\<exists>t ws. end_op s = Inr ((), t) \<and> dwrites t = dwrites s @ ws \<and>
    (\<forall>k E b. crashes (disksize s) (apply_writes (take k ws) (disk s)) E \<longrightarrow> booted (disksize s) E (b :: log_st) \<longrightarrow>
      (\<exists>u. initlog 1 b = Inr ((), u) \<and> log_ok {} u \<and> lh u = [] \<and>
        ((\<forall>n. \<not> log_region (lg_start s) (lg_size s) n \<longrightarrow> blk u n = disk s n) \<or>
         (\<forall>n. \<not> log_region (lg_start s) (lg_size s) n \<longrightarrow> blk u n = blk s n))))"
proof -
  let ?st = "lg_start s" let ?sz = "lg_size s"
  let ?W = "if lh s = [] then [] else commit_writes ?st (lh s) (blk s)"
  obtain t where t: "end_op s = Inr ((), t)" "dwrites t = dwrites s @ ?W"
    using wp_returns [OF wp_end_op [OF assms(1-3)]] by auto
  have "\<exists>u. initlog 1 b = Inr ((), u) \<and> log_ok {} u \<and> lh u = [] \<and>
        ((\<forall>n. \<not> log_region ?st ?sz n \<longrightarrow> blk u n = disk s n) \<or>
         (\<forall>n. \<not> log_region ?st ?sz n \<longrightarrow> blk u n = blk s n))"
    if cr: "crashes (disksize s) (apply_writes (take k ?W) (disk s)) E" and b: "booted (disksize s) E b" for k E and b :: log_st
  proof -
    let ?D = "apply_writes (take k ?W) (disk s)"
    have D: "has_log ?st ?sz (disksize s) ?D \<and> recoverable ?st ?sz (disksize s) ?D \<and>
      ((\<forall>n. \<not> log_region ?st ?sz n \<longrightarrow> recover_disk ?st ?D n = disk s n) \<or>
       (\<forall>n. \<not> log_region ?st ?sz n \<longrightarrow> recover_disk ?st ?D n = blk s n))"
    proof (cases "lh s = []")
      case True
      have "recoverable ?st ?sz (disksize s) (disk s)"
        using assms(1) by (auto simp: log_ok_def recoverable_def head_wf_def bio_ok_def bio_ctx_def)
      moreover have "recover_disk ?st (disk s) n = disk s n" if "\<not> log_region ?st ?sz n" for n
        using that assms(1) by (intro recover_empty) (auto simp: log_ok_def log_region_def head_wf_def)
      ultimately show ?thesis using True assms(4) by simp
    next
      case False
      show ?thesis using commit_prefix [OF assms(1,4) False refl, of k] False by simp
    qed
    with crashes_recover [OF cr] have E: "has_log ?st ?sz (disksize s) E" "recoverable ?st ?sz (disksize s) E"
      and eq: "(\<forall>n. \<not> log_region ?st ?sz n \<longrightarrow> recover_disk ?st E n = disk s n) \<or>
        (\<forall>n. \<not> log_region ?st ?sz n \<longrightarrow> recover_disk ?st E n = blk s n)"
      by auto
    obtain u where u: "initlog 1 b = Inr ((), u)" "log_ok {} u" "lh u = []" "blk u = recover_disk ?st E"
      using wp_returns [OF wp_initlog [OF b E]] by auto
    then show ?thesis using eq by (intro exI [of _ u]) auto
  qed
  then show ?thesis using t by blast
qed

text \<open>A transaction that has changed block 100, on a disk with a log of 30 blocks at block 2.\<close>

definition sb_block :: "byte list" where
  "sb_block = write_uint 12 30 (write_uint 16 2 (replicate BSIZE 0))"

definition log_boot :: log_st where
  "log_boot = \<lparr>held = {}, km_use_lock = True, km_freelist = 0, km_mem = (\<lambda>_. 0), km_end = 0, km_kmap = [], km_cur = 0,
     procs = [proc_demo], nextpid = 2, initproc = Some 0, cur = Some 0,
     bufs = replicate (NBUF + 1) buf_boot, disk = (\<lambda>n. if n = 1 then sb_block else replicate BSIZE 0), disksize = 1000,
     dwrites = [], lg_start = 0, lg_size = 0, lg_outstanding = 0, lg_committing = False, lg_dev = 0, lh = []\<rparr>"

definition tx_boot :: "(log_st, unit) kop" where
  "tx_boot = andthen binit (initlog 1)"

definition tx_run :: "(log_st, unit) kop" where
  "tx_run = andthen begin_op (bind (bread 1 100) (\<lambda>i. bind (gets (\<lambda>s. b_data (bufs s ! i))) (\<lambda>d.
      andthen (set_data i (replicate BSIZE 7)) (andthen (log_write i) (brelse i)))))"

lemma sb_block_simps: "length sb_block = BSIZE" "sb_logstart (decode_sb sb_block) = 2" "sb_nlog (decode_sb sb_block) = 30"
  by (simp_all add: sb_block_def decode_sb_def read_write_uint read_write_uint_other BSIZE_def)

lemma le_word_zero: "le_word (replicate m 0) = 0"
  by (induction m) simp_all

lemma get_le_zero: "off + k \<le> n \<Longrightarrow> get_le k off (replicate n 0) = 0"
  by (simp add: get_le_def chunk_def min_def le_word_zero)

lemma get_head_zero: "get_head (replicate BSIZE 0) = []"
proof -
  have "get_le 4 0 (replicate BSIZE (0 :: byte)) = (0 :: uint)"
    by (rule get_le_zero) (simp add: BSIZE_def)
  then show ?thesis by (simp add: get_head_def)
qed

lemma tx_boot_ok:
  "\<exists>t. tx_boot log_boot = Inr ((), t) \<and> log_ok {} t \<and> lh t = [] \<and> lg_start t = 2 \<and> lg_size t = 30 \<and> lg_outstanding t = 0 \<and>
    \<not> lg_committing t \<and> disksize t = 1000 \<and> blk t 1 = sb_block"
proof -
  have "bio_ctx log_boot" "length (bufs log_boot) = NBUF + 1" "list_all buf_zero (bufs log_boot)"
    by (simp_all add: log_boot_def bio_ctx_def buf_boot_def buf_zero_def list_all_length sb_block_simps)
  from wp_returns [OF wp_binit [OF this]] obtain u bs where u: "binit log_boot = Inr ((), u)" "bio_ok {} u" "dirty_blocks u = {}"
    "u = log_boot\<lparr>bufs := bs\<rparr>" by auto
  have b: "booted 1000 (disk log_boot) u" using u by (auto simp: booted_def log_boot_def)
  have sb: "has_log 2 30 1000 (disk log_boot)"
    by (simp add: has_log_def log_boot_def sb_block_simps log_region_def)
  have r: "recoverable 2 30 1000 (disk log_boot)"
    by (simp add: recoverable_def log_boot_def sb_block_simps get_head_zero head_wf_def LOGSIZE_def)
  obtain t where t: "initlog 1 u = Inr ((), t)" "log_ok {} t" "lh t = []" "lg_start t = 2" "lg_size t = 30"
      "blk t = recover_disk 2 (disk log_boot)" "lg_outstanding t = 0" "\<not> lg_committing t" "disksize t = 1000"
    using wp_returns [OF wp_initlog [OF b sb r]] u(4) by (auto simp: log_boot_def)
  have "blk t 1 = sb_block" using t(6) by (simp add: recover_empty log_boot_def get_head_zero)
  then show ?thesis using t u(1) by (simp add: tx_boot_def andthen_def bind_def)
qed

lemma tx_run_ok:
  assumes "log_ok {} s" "lh s = []" "lg_start s = 2" "lg_size s = 30" "lg_outstanding s = 0" "\<not> lg_committing s" "disksize s = 1000"
  shows "wp tx_run (\<lambda>_ t. log_ok {} t \<and> lg_outstanding t = 1 \<and> \<not> lg_committing t \<and> lg_start t = 2 \<and> lg_size t = 30 \<and>
    disksize t = 1000 \<and> blk t = (blk s)(100 := replicate BSIZE 7)) s"
proof -
  let ?u = "s\<lparr>lg_outstanding := 1\<rparr>"
  have 1: "wp begin_op (\<lambda>_ t. t = s\<lparr>lg_outstanding := lg_outstanding s + 1\<rparr>) s"
    using assms by (intro wp_begin_op) (auto simp: log_ok_def MAXOPBLOCKS_def LOGSIZE_def)
  have "trans_ok {} (Suc 0) ?u" using assms by (simp add: trans_ok_def NBUF_def)
  have 2: "wp (bind (bread 1 100) (\<lambda>i. bind (gets (\<lambda>s. b_data (bufs s ! i))) (\<lambda>d.
      andthen (set_data i (replicate BSIZE 7)) (andthen (log_write i) (brelse i)))))
    (\<lambda>_. blk_step {} 0 ((blk ?u)(100 := replicate BSIZE 7)) ?u) ?u"
    using assms by (intro trans_update [OF \<open>trans_ok {} (Suc 0) ?u\<close>]) (simp_all add: log_region_def)
  show ?thesis
    unfolding tx_run_def wp_andthen [of begin_op]
  proof (rule wp_mono [OF 1])
    fix x t
    assume "t = s\<lparr>lg_outstanding := lg_outstanding s + 1\<rparr>"
    then have "t = ?u" using assms by simp
    then show "wp (bind (bread 1 100) (\<lambda>i. bind (gets (\<lambda>s. b_data (bufs s ! i))) (\<lambda>d.
      andthen (set_data i (replicate BSIZE 7)) (andthen (log_write i) (brelse i)))))
      (\<lambda>_ t. log_ok {} t \<and> lg_outstanding t = 1 \<and> \<not> lg_committing t \<and> lg_start t = 2 \<and> lg_size t = 30 \<and>
        disksize t = 1000 \<and> blk t = (blk s)(100 := replicate BSIZE 7)) t"
      by (simp only:) (rule wp_mono [OF 2], use assms in \<open>auto simp: blk_step_def trans_ok_def dest: only_logD(1,2,4)\<close>)
  qed
qed

definition tx_demo :: log_st where
  "tx_demo = snd (projr (andthen tx_boot tx_run log_boot))"

lemma tx_demo_ok:
  "log_ok {} tx_demo" "lg_outstanding tx_demo = 1" "\<not> lg_committing tx_demo" "blk tx_demo 100 = replicate BSIZE 7"
  "lg_start tx_demo = 2" "lg_size tx_demo = 30" "disksize tx_demo = 1000"
  "has_log (lg_start tx_demo) (lg_size tx_demo) (disksize tx_demo) (disk tx_demo)"
proof -
  obtain s where s: "tx_boot log_boot = Inr ((), s)" "log_ok {} s" "lh s = []" "lg_start s = 2" "lg_size s = 30" "lg_outstanding s = 0"
    "\<not> lg_committing s" "disksize s = 1000" "blk s 1 = sb_block" using tx_boot_ok by blast
  obtain t where t: "tx_run s = Inr ((), t)" and p: "log_ok {} t" "lg_outstanding t = 1" "\<not> lg_committing t" "lg_start t = 2"
    "lg_size t = 30" "disksize t = 1000" "blk t = (blk s)(100 := replicate BSIZE 7)"
    using wp_returns [OF tx_run_ok [OF s(2-8)]] by auto
  have d: "tx_demo = t" using s(1) t by (simp add: tx_demo_def andthen_def bind_def)
  have "1 \<notin> dirty_blocks t" using p(1) by (auto simp: log_ok_def head_wf_def)
  then have "disk t 1 = sb_block" using blk_clean [of t 1] p s(9) by (simp add: log_ok_def)
  then have "has_log 2 30 1000 (disk t)" by (simp add: has_log_def sb_block_simps log_region_def)
  then show "log_ok {} tx_demo" "lg_outstanding tx_demo = 1" "\<not> lg_committing tx_demo" "blk tx_demo 100 = replicate BSIZE 7"
    "lg_start tx_demo = 2" "lg_size tx_demo = 30" "disksize tx_demo = 1000"
    "has_log (lg_start tx_demo) (lg_size tx_demo) (disksize tx_demo) (disk tx_demo)"
    using p d by simp_all
qed

theorem commit_atomic_witness:
  "blk tx_demo 100 = replicate BSIZE 7 \<and> (\<exists>t ws. end_op tx_demo = Inr ((), t) \<and> dwrites t = dwrites tx_demo @ ws \<and>
    (\<forall>k E b. crashes 1000 (apply_writes (take k ws) (disk tx_demo)) E \<longrightarrow> booted 1000 E (b :: log_st) \<longrightarrow>
      (\<exists>u. initlog 1 b = Inr ((), u) \<and> log_ok {} u \<and> lh u = [] \<and>
        ((\<forall>n. \<not> log_region 2 30 n \<longrightarrow> blk u n = disk tx_demo n) \<or>
         (\<forall>n. \<not> log_region 2 30 n \<longrightarrow> blk u n = blk tx_demo n)))))"
  using commit_atomic [OF tx_demo_ok(1-3) tx_demo_ok(8)] tx_demo_ok(4) unfolding tx_demo_ok(5-7) by blast

text \<open>C5: Durability. The \<^verbatim>\<open>end_op\<close> of the last system call of a transaction returns with every block of the file
  system on disk as the transaction left it, the log empty again, and admission open for the next.\<close>

theorem end_op_durable:
  assumes "log_ok {} s" "lg_outstanding s = 1" "\<not> lg_committing s"
  shows "wp end_op (\<lambda>_ t. log_ok {} t \<and> lh t = [] \<and> lg_outstanding t = 0 \<and> \<not> lg_committing t \<and>
    (\<forall>n. \<not> log_region (lg_start s) (lg_size s) n \<longrightarrow> disk t n = blk s n)) s"
  by (rule wp_mono [OF wp_end_op [OF assms]]) simp

theorem end_op_durable_witness:
  "wp end_op (\<lambda>_ t. log_ok {} t \<and> disk t 100 = replicate BSIZE 7) tx_demo"
  by (rule wp_mono [OF end_op_durable [OF tx_demo_ok(1-3)]])
    (auto simp: tx_demo_ok(4-6) log_region_def)

text \<open>C15: The log header on disk. Reading back a header block that \<^verbatim>\<open>write_head\<close> filled gives the block numbers
  it was given, whatever else the block holds.\<close>

theorem head_round_trip:
  assumes "length h \<le> LOGSIZE" "length d = BSIZE" "\<forall>b \<in> set h. b < 2 ^ 32"
  shows "length (put_head h d) = BSIZE \<and> get_head (put_head h d) = h"
  using assms get_put_head [of h d] length_put_head [of h d] by blast

theorem head_round_trip_witness:
  "get_head (put_head [100, 7, 4000000000] (replicate BSIZE 255)) = [100, 7, 4000000000]"
  using head_round_trip [of "[100, 7, 4000000000]" "replicate BSIZE 255"] by (simp add: LOGSIZE_def)

text \<open>One block of a system call's transaction, as \<^verbatim>\<open>writei\<close> and the others update it.\<close>

definition log_block :: "(nat \<Rightarrow> byte list) \<Rightarrow> nat \<Rightarrow> ('a log_st_scheme, unit) kop" where
  "log_block f n = bind (bread 1 n) (\<lambda>i. andthen (set_data i (f n)) (andthen (log_write i) (brelse i)))"

definition loggable :: "'a log_st_scheme \<Rightarrow> nat \<Rightarrow> bool" where
  "loggable s n \<longleftrightarrow> 1 < n \<and> n < disksize s \<and> \<not> log_region (lg_start s) (lg_size s) n"

lemma wp_log_block:
  assumes ok: "log_ok {} s" and out: "1 \<le> lg_outstanding s" and room: "length (lh s) + 1 < lg_size s"
    and n: "loggable s n" "n \<notin> set (lh s)" and f: "length (f n) = BSIZE"
  shows "wp (log_block f n) (\<lambda>_ t. log_ok {} t \<and> lh t = lh s @ [n] \<and> lg_outstanding t = lg_outstanding s \<and> only_log s t) s"
proof -
  have sz: "lg_size s \<le> LOGSIZE" using ok by (simp add: log_ok_def head_wf_def)
  have tr: "trans_ok {} 1 s" using ok out room sz by (simp add: trans_ok_def NBUF_def LOGSIZE_def)
  have "wp (andthen (set_data i (f n)) (andthen (log_write i) (brelse i)))
      (\<lambda>_ t. log_ok {} t \<and> lh t = lh s @ [n] \<and> lg_outstanding t = lg_outstanding s \<and> only_log s t) u"
    if p: "bread_post {} n s i u \<and> log_ok {i} u" for i u
  proof -
    have b: "b_blockno (bufs u ! i) = n" "only_bufs s u" using p by (auto simp: bread_post_def holds_block_def)
    note g = only_bufs_log [OF b(2)] only_logD [OF only_bufs_log(3) [OF b(2)]]
    show ?thesis
      by (rule wp_mono [OF trans_store [of i "{}" u]])
        (use p b g out room n f in \<open>auto simp: loggable_def add_block_def intro: only_log_trans\<close>)
  qed
  then show ?thesis unfolding log_block_def wp_bind
    using n by (intro wp_mono [OF trans_bread [OF tr]]) (simp_all add: loggable_def)
qed

lemma log_block_full:
  assumes ok: "log_ok {} s" and full: "length (lh s) + 1 = lg_size s" and n: "loggable s n" "n \<notin> set (lh s)"
  shows "log_block f n s = Inl (Panic ''too big a transaction'')"
proof -
  have "bio_ok {} s" "avail {} s" using ok log_ok_card [OF ok] by (simp_all add: log_ok_def avail_def)
  then have "wp (bread 1 n) (bread_post {} n s) s" using n by (intro wp_bread) (simp_all add: loggable_def)
  from wp_returns [OF this] obtain i u where u: "bread 1 n s = Inr (i, u)" "only_bufs s u"
    by (auto simp: bread_post_def)
  note g = only_bufs_log [OF u(2)] only_logD [OF only_bufs_log(3) [OF u(2)]]
  have "log_write i v = Inl (Panic ''too big a transaction'')" if "lh v = lh s" "lg_size v = lg_size s" for v :: "'a log_st_scheme"
    using full that by (simp add: log_write_def bind_def gets_def panic_def fail_def)
  then show ?thesis using u(1) g
    by (simp add: log_block_def bind_def andthen_def set_data_def modify_def upd_buf_def)
qed

lemma forK_append: "forK f (xs @ ys) = andthen (forK f xs) (forK f ys)"
  by (induction xs) (simp_all add: fun_eq_iff andthen_def bind_def skip_def ret_def split: sum.split)

lemma wp_begin_ops:
  assumes "log_ok {} s" "lh s = []" "lg_outstanding s = 0" "\<not> lg_committing s"
  shows "wp (forK (\<lambda>_. begin_op) [0 :: nat, 1, 2]) (\<lambda>_ t. t = s\<lparr>lg_outstanding := 3\<rparr>) s"
proof -
  have lk: "''log'' \<notin> held s" using assms(1) by (simp add: log_ok_def)
  have "begin_op (s\<lparr>lg_outstanding := k\<rparr>) = Inr ((), s\<lparr>lg_outstanding := k + 1\<rparr>)" if "k \<le> 2" for k
  proof -
    have "wp begin_op (\<lambda>_ t. t = s\<lparr>lg_outstanding := k + 1\<rparr>) (s\<lparr>lg_outstanding := k\<rparr>)"
      using wp_begin_op [of "s\<lparr>lg_outstanding := k\<rparr>"] lk assms(2,4) that by (simp add: MAXOPBLOCKS_def LOGSIZE_def)
    from wp_returns [OF this] show ?thesis by auto
  qed
  from this [of 0] this [of 1] this [of 2] have "forK (\<lambda>_. begin_op) [0 :: nat, 1, 2] (s\<lparr>lg_outstanding := 0\<rparr>) = Inr ((), s\<lparr>lg_outstanding := 3\<rparr>)"
    by (simp add: andthen_def bind_def skip_def ret_def)
  moreover have "s\<lparr>lg_outstanding := 0\<rparr> = s" using assms(3) by simp
  ultimately show ?thesis by (simp only: wp_def sum.case prod.case)
qed

text \<open>C16: The admission rule of \<^verbatim>\<open>begin_op\<close> promises more than \<^verbatim>\<open>log_write\<close> delivers. Start with an empty log of
  \<open>LOGSIZE\<close> blocks and no system call under way. \<^verbatim>\<open>begin_op\<close> admits three system calls, and each of them updates
  \<open>MAXOPBLOCKS\<close> blocks, as the rule allows; together the blocks \<open>ns\<close>. All but the last update
  succeed, and the last one panics, because the log keeps one of its blocks for the header.\<close>

theorem log_write_overcommit:
  assumes s: "log_ok {} s" "lh s = []" "lg_outstanding s = 0" "\<not> lg_committing s" "lg_size s = LOGSIZE"
    and ns: "length ns = 3 * MAXOPBLOCKS" "distinct ns" "\<And>n. n \<in> set ns \<Longrightarrow> loggable s n" "\<And>n. length (f n) = BSIZE"
  shows "(\<exists>t. andthen (forK (\<lambda>_. begin_op) [0 :: nat, 1, 2]) (forK (log_block f) (butlast ns)) s = Inr ((), t) \<and> lh t = butlast ns) \<and>
    andthen (forK (\<lambda>_. begin_op) [0 :: nat, 1, 2]) (forK (log_block f) ns) s = Inl (Panic ''too big a transaction'')"
proof -
  let ?s = "s\<lparr>lg_outstanding := 3\<rparr>" and ?ms = "butlast ns"
  have b: "forK (\<lambda>_. begin_op) [0 :: nat, 1, 2] s = Inr ((), ?s)" using wp_returns [OF wp_begin_ops [OF s(1-4)]] by auto
  have ne: "ns \<noteq> []" using ns(1) by (auto simp: MAXOPBLOCKS_def)
  then have app: "?ms @ [last ns] = ns" by simp
  have len: "length ?ms = 29" "lg_size s = 30" using ns(1) s(5) by (simp_all add: MAXOPBLOCKS_def LOGSIZE_def)
  have lastn: "last ns \<notin> set ?ms" "loggable s (last ns)" using ns(2,3) app by (metis distinct_append disjoint_insert(2) list.simps(15), simp add: ne)
  let ?I = "\<lambda>ds t. log_ok {} t \<and> lh t = ds \<and> lg_outstanding t = 3 \<and> only_log ?s t"
  have step: "wp (log_block f n) (\<lambda>_. ?I (ds @ [n])) t" if d: "?ms = ds @ n # rest" "?I ds t" for ds n rest t
  proof -
    have f: "lg_start t = lg_start s" "lg_size t = lg_size s" "disksize t = disksize s" using only_logD [of ?s t] d(2) by simp_all
    have "distinct (ds @ n # rest)" using ns(2) d(1) by (metis distinct_butlast)
    moreover have "loggable t n" using ns(3) [of n] in_set_butlastD [of n ns] d(1) f by (simp add: loggable_def)
    moreover have "length (ds @ n # rest) = 29" using d(1) len(1) by simp
    ultimately show ?thesis
      using d(2) f(2) len(2) ns(4) by (intro wp_mono [OF wp_log_block]) (auto intro: only_log_trans)
  qed
  have "wp (forK (log_block f) ?ms) (\<lambda>_. ?I ?ms) ?s"
    by (rule wp_forK [where I = ?I]) (use s step in auto)
  from wp_returns [OF this] obtain t where t: "forK (log_block f) ?ms ?s = Inr ((), t)" "?I ?ms t" by auto
  have f: "lg_start t = lg_start s" "lg_size t = lg_size s" "disksize t = disksize s" using only_logD [of ?s t] t(2) by simp_all
  have "log_block f (last ns) t = Inl (Panic ''too big a transaction'')"
    using t(2) f len lastn by (intro log_block_full) (simp_all add: loggable_def)
  then have "forK (log_block f) (?ms @ [last ns]) ?s = Inl (Panic ''too big a transaction'')"
    using t(1) unfolding forK_append by (simp add: andthen_def bind_def)
  then show ?thesis using b t unfolding app by (auto simp: andthen_def bind_def)
qed

theorem log_write_overcommit_witness:
  "\<exists>s. tx_boot log_boot = Inr ((), s) \<and>
     andthen (forK (\<lambda>_. begin_op) [0 :: nat, 1, 2]) (forK (log_block (\<lambda>_. replicate BSIZE 7)) [100..<130]) s =
       Inl (Panic ''too big a transaction'')"
proof -
  obtain s where s: "tx_boot log_boot = Inr ((), s)" "log_ok {} s" "lh s = []" "lg_start s = 2" "lg_size s = 30"
    "lg_outstanding s = 0" "\<not> lg_committing s" "disksize s = 1000" using tx_boot_ok by blast
  have "loggable s n" if "n \<in> set [100..<130]" for n
  proof -
    have "100 \<le> n \<and> n < 130" using that by (simp only: set_upt atLeastLessThan_iff)
    then show ?thesis using s(4,5,8) by (simp add: loggable_def log_region_def)
  qed
  then show ?thesis
    using log_write_overcommit [OF s(2,3,6,7), of "[100..<130]" "\<lambda>_. replicate BSIZE 7"] s(1,5)
    by (simp add: LOGSIZE_def MAXOPBLOCKS_def)
qed

end
