(* ===== verification/Sprintf.thy ===== *)
theory Sprintf
  imports Cstring "HOL-Library.Signed_Division"
begin

text \<open>
  \<^verbatim>\<open>kernel/sprintf.c\<close>: the formatter behind \<^verbatim>\<open>cprintf\<close>. A string is the list of its characters up to the
  terminating NUL; what a function stores through its \<^verbatim>\<open>dst\<close> is its result. \<open>None\<close> stands for what the C
  code leaves undefined: running under a local buffer, using an uninitialised \<^verbatim>\<open>spec.type\<close>, overflowing
  the width, or asking for an argument that was not passed.
\<close>

datatype format_type = CHAR_F | DECIMAL | HEX | STRING | PERCENT

record spec =
  sp_zero_padding :: bool
  sp_width :: nat
  sp_type :: "format_type option"

datatype vararg = Va_int uint | Va_long ulong | Va_str "byte list"

text \<open>A C string literal.\<close>

definition lit :: "string \<Rightarrow> byte list" where
  "lit s = map of_char s"

section \<open>Operations\<close>

text \<open>\<^verbatim>\<open>copy_str\<close> gives up after 257 characters.\<close>

definition copy_str :: "byte list \<Rightarrow> byte list" where
  "copy_str src = take 257 src"

text \<open>The digits a loop leaves in \<^verbatim>\<open>buf\<close>, the last one first; \<open>%\<close> and \<open>/\<close> of C truncate towards zero.\<close>

function dec_digits :: "int \<Rightarrow> byte list" where
  "dec_digits src = (if src = 0 then [] else (48 + of_int (src smod 10)) # dec_digits (src sdiv 10))"
  by auto
termination
  by (relation "measure (\<lambda>n. nat \<bar>n\<bar>)") (auto simp: signed_divide_int_def abs_mult)

function hex_digits :: "ulong \<Rightarrow> byte list" where
  "hex_digits src = (if src = 0 then []
     else (let nibble = ucast (src AND 0xf) :: byte in if nibble < 10 then nibble + 48 else nibble - 10 + 97)
       # hex_digits (drop_bit 4 src))"
  by auto
termination
proof (relation "measure unat")
  fix src :: ulong
  assume "src \<noteq> 0"
  then have "0 < unat src" by (simp add: unat_gt_0)
  then show "(drop_bit 4 src, src) \<in> measure unat" by (simp add: drop_bit_eq_div unat_div_distrib)
qed simp

declare dec_digits.simps [simp del] hex_digits.simps [simp del]

text \<open>The tail shared by \<^verbatim>\<open>long2str\<close> and \<^verbatim>\<open>ulong2hexstr\<close>: a digit at least, padding up to the width, all within
  a buffer that has room for \<open>cap\<close> characters.\<close>

definition pad_number :: "nat \<Rightarrow> nat \<Rightarrow> bool \<Rightarrow> byte list \<Rightarrow> byte list option" where
  "pad_number cap width zero_padding ds =
     (let ds' = (if ds = [] then [48] else ds);
          c = (if zero_padding then 48 else 32);
          padded = ds' @ replicate (width - length ds') c
      in if length padded > cap then None else Some (copy_str (rev padded)))"

definition long2str :: "int \<Rightarrow> nat \<Rightarrow> bool \<Rightarrow> byte list option" where
  "long2str src width zero_padding = pad_number 19 width zero_padding (dec_digits src)"

definition ulong2hexstr :: "ulong \<Rightarrow> nat \<Rightarrow> bool \<Rightarrow> byte list option" where
  "ulong2hexstr src width zero_padding = pad_number 16 width zero_padding (hex_digits src)"

definition is_digit :: "byte \<Rightarrow> bool" where
  "is_digit c \<longleftrightarrow> 48 \<le> c \<and> c \<le> 57"

fun str2int_loop :: "nat \<Rightarrow> nat \<Rightarrow> byte list \<Rightarrow> (nat \<times> nat) option" where
  "str2int_loop w r [] = Some (w, r)"
| "str2int_loop w r (c # src) =
     (if \<not> is_digit c then Some (w, r)
      else let w' = w * 10 + unat (c - 48) in if w' \<ge> 2 ^ 31 then None else str2int_loop w' (r + 1) src)"

definition str2int :: "byte list \<Rightarrow> (nat \<times> nat) option" where
  "str2int src = str2int_loop 0 0 src"

definition spec_type :: "byte list \<Rightarrow> format_type option" where
  "spec_type src =
     (case src of [] \<Rightarrow> None
      | c # _ \<Rightarrow> if c = 37 then Some PERCENT else if c = 99 then Some CHAR_F else if c = 115 then Some STRING
          else if c = 100 then Some DECIMAL else if c = 120 \<or> c = 112 then Some HEX else None)"

definition read_spec :: "byte list \<Rightarrow> (spec \<times> nat) option" where
  "read_spec src =
     (let z = (case src of [] \<Rightarrow> False | c # _ \<Rightarrow> c = 48);
          src1 = (if z then tl src else src);
          rd1 = (if z then 1 else 0);
          w = (case src1 of [] \<Rightarrow> Some (0, 0)
               | c # _ \<Rightarrow> if 49 \<le> c \<and> c \<le> 57 then str2int src1 else Some (0, 0))
      in case w of None \<Rightarrow> None
         | Some (width, r) \<Rightarrow>
             Some (\<lparr>sp_zero_padding = z, sp_width = width, sp_type = spec_type (drop r src1)\<rparr>, rd1 + r + 1))"

text \<open>
  An argument occupies an eight-byte slot. \<^verbatim>\<open>va_arg(arg, int)\<close> of a \<^verbatim>\<open>long\<close> reads the low half; \<^verbatim>\<open>va_arg(arg, long)\<close> of an
  \<^verbatim>\<open>int\<close> also reads the upper half, which the caller leaves unspecified.
\<close>

definition fmt_arg :: "spec \<Rightarrow> vararg list \<Rightarrow> (byte list \<times> vararg list) option" where
  "fmt_arg sp args =
     (case sp_type sp of
        None \<Rightarrow> None
      | Some PERCENT \<Rightarrow> Some ([37], args)
      | Some CHAR_F \<Rightarrow> (case args of Va_int v # as \<Rightarrow> Some ([ucast v], as) | _ \<Rightarrow> None)
      | Some STRING \<Rightarrow> (case args of Va_str v # as \<Rightarrow> Some (copy_str v, as) | _ \<Rightarrow> None)
      | Some DECIMAL \<Rightarrow> (case args of Va_int v # as \<Rightarrow>
            map_option (\<lambda>d. (d, as)) (long2str (sint v) (sp_width sp) (sp_zero_padding sp))
          | Va_long v # as \<Rightarrow>
            map_option (\<lambda>d. (d, as)) (long2str (sint (ucast v :: uint)) (sp_width sp) (sp_zero_padding sp)) | _ \<Rightarrow> None)
      | Some HEX \<Rightarrow> (case args of Va_long v # as \<Rightarrow>
            map_option (\<lambda>d. (d, as)) (ulong2hexstr v (sp_width sp) (sp_zero_padding sp)) | _ \<Rightarrow> None))"

text \<open>The characters \<^verbatim>\<open>vsprintf\<close> stores before the NUL.\<close>

function vsprintf :: "byte list \<Rightarrow> vararg list \<Rightarrow> byte list option" where
  "vsprintf [] args = Some []"
| "vsprintf (c # fmt) args =
     (if c \<noteq> 37 then map_option (\<lambda>r. c # r) (vsprintf fmt args)
      else case read_spec fmt of None \<Rightarrow> None
        | Some (sp, n) \<Rightarrow>
            (case fmt_arg sp args of None \<Rightarrow> None
             | Some (out, args') \<Rightarrow> map_option (\<lambda>r. out @ r) (vsprintf (drop n fmt) args')))"
  by pat_completeness auto
termination
  by (relation "measure (\<lambda>(fmt, _). length fmt)") auto

text \<open>\<^verbatim>\<open>sprintf\<close> stores the characters and a NUL.\<close>

definition sprintf :: "byte list \<Rightarrow> vararg list \<Rightarrow> byte list option" where
  "sprintf fmt args = map_option (\<lambda>r. r @ [0]) (vsprintf fmt args)"

section \<open>Decimal and hexadecimal numbers\<close>

text \<open>What the printed digits denote.\<close>

definition dec_value :: "byte list \<Rightarrow> nat" where
  "dec_value ds = foldl (\<lambda>n c. n * 10 + unat (c - 48)) 0 ds"

definition hex_value :: "byte list \<Rightarrow> nat" where
  "hex_value ds = foldl (\<lambda>n c. n * 16 + unat (if c \<le> 57 then c - 48 else c - 97 + 10)) 0 ds"

lemma dec_value_snoc: "dec_value (ds @ [c]) = dec_value ds * 10 + unat (c - 48)"
  by (simp add: dec_value_def)

lemma hex_value_snoc: "hex_value (ds @ [c]) = hex_value ds * 16 + unat (if c \<le> 57 then c - 48 else c - 97 + 10)"
  by (simp add: hex_value_def)

lemma sdiv_nonneg: "0 \<le> n \<Longrightarrow> n sdiv 10 = n div 10" "0 \<le> n \<Longrightarrow> n smod 10 = n mod (10 :: int)"
  by (cases "n = 0"; simp add: signed_divide_int_def signed_modulo_int_def minus_mult_div_eq_mod mult.commute)+

lemma small_digit:
  assumes "0 \<le> n"
  shows "unat ((48 + of_int (n smod 10) :: byte) - 48) = nat (n mod 10)" "is_digit (48 + of_int (n smod 10))"
proof -
  note m = sdiv_nonneg(2) [OF assms]
  obtain k where k: "k = n mod 10" by simp
  then have "0 \<le> k" "k < 10" by simp_all
  then have "k = 0 \<or> k = 1 \<or> k = 2 \<or> k = 3 \<or> k = 4 \<or> k = 5 \<or> k = 6 \<or> k = 7 \<or> k = 8 \<or> k = 9" by arith
  then have "unat ((48 + of_int k :: byte) - 48) = nat k \<and> is_digit (48 + of_int k)"
    by (elim disjE) (simp_all add: is_digit_def)
  then show "unat ((48 + of_int (n smod 10) :: byte) - 48) = nat (n mod 10)" "is_digit (48 + of_int (n smod 10))"
    unfolding m k by simp_all
qed

lemma dec_digits_value: "0 \<le> n \<Longrightarrow> dec_value (rev (dec_digits n)) = nat n \<and> list_all is_digit (dec_digits n)"
proof (induction n rule: dec_digits.induct)
  case (1 n)
  show ?case
  proof (cases "n = 0")
    case True
    then show ?thesis by (simp add: dec_digits.simps dec_value_def)
  next
    case False
    note d = sdiv_nonneg(1) [OF "1.prems"]
    have ih: "dec_value (rev (dec_digits (n div 10))) = nat (n div 10)" "list_all is_digit (dec_digits (n div 10))"
      using "1.IH" [OF False] "1.prems" d by simp_all
    have "dec_value (rev (dec_digits n)) = nat (n div 10) * 10 + nat (n mod 10)"
      using False small_digit(1) [OF "1.prems"] d ih by (subst dec_digits.simps) (simp add: dec_value_snoc)
    also have "\<dots> = nat n" using "1.prems" by (simp add: nat_div_distrib nat_mod_distrib)
    finally show ?thesis using False ih d small_digit(2) [OF "1.prems"]
      by (subst (2) dec_digits.simps) simp
  qed
qed

lemma dec_digits_length: "0 \<le> n \<Longrightarrow> n < 10 ^ k \<Longrightarrow> length (dec_digits n) \<le> k"
proof (induction k arbitrary: n)
  case 0
  then have "n = 0" by simp
  then show ?case by (simp add: dec_digits.simps)
next
  case (Suc k)
  then have "n div 10 < 10 ^ k" "0 \<le> n div 10" by simp_all
  with Suc show ?case by (subst dec_digits.simps) (simp add: sdiv_nonneg)
qed

definition hex_char :: "byte \<Rightarrow> bool" where
  "hex_char c \<longleftrightarrow> is_digit c \<or> 97 \<le> c \<and> c \<le> 102"

lemma nibble_char_byte:
  fixes x :: byte
  assumes "unat x < 16"
  defines "c \<equiv> (if x < 10 then x + 48 else x - 10 + 97)"
  shows "unat (if c \<le> 57 then c - 48 else c - 97 + 10) = unat x \<and> hex_char c"
proof -
  obtain k where k: "k = unat x" by simp
  then have x: "x = of_nat k" by simp
  have "k = 0 \<or> k = 1 \<or> k = 2 \<or> k = 3 \<or> k = 4 \<or> k = 5 \<or> k = 6 \<or> k = 7 \<or> k = 8 \<or> k = 9 \<or> k = 10 \<or> k = 11 \<or>
      k = 12 \<or> k = 13 \<or> k = 14 \<or> k = 15" using assms(1) k by arith
  then show ?thesis unfolding c_def x hex_char_def is_digit_def by (elim disjE) simp_all
qed

lemma nibble_char:
  fixes src :: ulong
  defines "c \<equiv> (let nibble = ucast (src AND 0xf) :: byte in if nibble < 10 then nibble + 48 else nibble - 10 + 97)"
  shows "unat (if c \<le> 57 then c - 48 else c - 97 + 10) = unat src mod 16" "hex_char c"
proof -
  have "src AND 0xf = take_bit 4 src" by (simp add: take_bit_eq_mask mask_eq_exp_minus_1)
  then have "unat (src AND 0xf) = unat src mod 16" by (simp add: take_bit_eq_mod unat_mod_distrib)
  then have u: "unat (ucast (src AND 0xf) :: byte) = unat src mod 16"
    by (simp add: unsigned_ucast_eq take_bit_nat_eq_self_iff)
  have "unat (ucast (src AND 0xf) :: byte) < 16" unfolding u by simp
  from nibble_char_byte [OF this] show "unat (if c \<le> 57 then c - 48 else c - 97 + 10) = unat src mod 16" "hex_char c"
    unfolding c_def Let_def u by blast+
qed

lemma hex_digits_value: "hex_value (rev (hex_digits n)) = unat n \<and> list_all hex_char (hex_digits n)"
proof (induction n rule: hex_digits.induct)
  case (1 n)
  show ?case
  proof (cases "n = 0")
    case True
    then show ?thesis by (simp add: hex_digits.simps hex_value_def)
  next
    case False
    have d: "unat (drop_bit 4 n) = unat n div 16" by (simp add: drop_bit_eq_div unat_div_distrib)
    note nc = nibble_char [of n]
    from 1 [OF False] d have ih: "hex_value (rev (hex_digits (drop_bit 4 n))) = unat n div 16"
      "list_all hex_char (hex_digits (drop_bit 4 n))" by simp_all
    have "hex_value (rev (hex_digits n)) = unat n div 16 * 16 + unat n mod 16"
      using False ih(1) nc(1) by (subst hex_digits.simps) (simp add: hex_value_snoc del: div_mult_mod_eq)
    then have "hex_value (rev (hex_digits n)) = unat n" by simp
    then show ?thesis using False ih(2) nc(2) by (subst (2) hex_digits.simps) simp
  qed
qed

lemma hex_digits_length: "unat n < 16 ^ k \<Longrightarrow> length (hex_digits n) \<le> k"
proof (induction k arbitrary: n)
  case 0
  then have "n = 0" by (simp add: unat_eq_zero)
  then show ?case by (simp add: hex_digits.simps)
next
  case (Suc k)
  have "unat (drop_bit 4 n) = unat n div 16" by (simp add: drop_bit_eq_div unat_div_distrib)
  then have "unat (drop_bit 4 n) < 16 ^ k" using Suc.prems by (simp add: less_mult_imp_div_less mult.commute)
  with Suc.IH show ?case by (subst hex_digits.simps) simp
qed

section \<open>The formatter\<close>

lemma dec_value_zeros: "dec_value (replicate k 48 @ ds) = dec_value ds"
  by (induction k) (simp_all add: dec_value_def)

lemma hex_value_zeros: "hex_value (replicate k 48 @ ds) = hex_value ds"
  by (induction k) (simp_all add: hex_value_def)

lemma dropWhile_space: "list_all P ds \<Longrightarrow> \<not> P 32 \<Longrightarrow> dropWhile (\<lambda>c. c = 32) (replicate k 32 @ ds) = ds"
  by (induction k) (cases ds; auto)+

lemma pad_number_value:
  assumes "length ds \<le> cap" "width \<le> cap" "1 \<le> cap" "cap \<le> 257" "list_all P ds" "P 48" "\<not> P 32"
    and "\<And>k es. f (replicate k 48 @ es) = f es" "f [] = (0 :: nat)"
  shows "\<exists>out. pad_number cap width z ds = Some out \<and> width \<le> length out \<and> out \<noteq> [] \<and>
    f (dropWhile (\<lambda>c. c = 32) out) = f (rev ds)"
proof -
  let ?ds = "if ds = [] then [48] else ds" let ?c = "if z then 48 else 32 :: byte"
  let ?out = "replicate (width - length ?ds) ?c @ rev ?ds"
  have ds: "list_all P (rev ?ds)" "?ds \<noteq> []" "length ?ds \<le> cap" using assms by (auto simp: list_all_rev)
  have p: "pad_number cap width z ds = Some ?out" using ds assms by (simp add: pad_number_def copy_str_def Let_def)
  have fr: "f (rev ?ds) = f (rev ds)" using assms(8) [of 1 "[]"] assms(9) by (simp add: replicate_Suc numeral_eq_Suc)
  have "f (dropWhile (\<lambda>c. c = 32) ?out) = f (rev ?ds)"
  proof (cases z)
    case True
    have "list_all P ?out" using ds(1) True assms(6) by (auto simp: list_all_iff)
    then have "dropWhile (\<lambda>c. c = 32) ?out = ?out" using dropWhile_space [of P ?out 0] assms(7) by simp
    then show ?thesis using True assms(8) by simp
  next
    case False
    then show ?thesis using dropWhile_space [OF ds(1) assms(7)] by simp
  qed
  then show ?thesis using p fr ds(2) by (intro exI [of _ ?out]) simp
qed

text \<open>C18: \<^verbatim>\<open>%d\<close> prints a non-negative \<^verbatim>\<open>int\<close> in decimal, padded to the width: reading the digits back after the
  blanks gives the number. The local buffer is large enough for every width up to 19.\<close>

theorem long2str_decimal:
  assumes "0 \<le> sint (v :: uint)" "width \<le> 19"
  shows "\<exists>out. long2str (sint v) width z = Some out \<and> width \<le> length out \<and> out \<noteq> [] \<and>
    dec_value (dropWhile (\<lambda>c. c = 32) out) = nat (sint v)"
proof -
  note d = dec_digits_value [OF assms(1)]
  have "sint v < 2 ^ 31" using sint_lt [of v] by simp
  then have "length (dec_digits (sint v)) \<le> 19"
    using dec_digits_length [OF assms(1), of 19] by simp
  moreover have "dec_value [] = 0" "is_digit 48" "\<not> is_digit 32" by (simp_all add: dec_value_def is_digit_def)
  ultimately show ?thesis
    using pad_number_value [of "dec_digits (sint v)" 19 width is_digit dec_value z] d assms(2) dec_value_zeros
    by (simp add: long2str_def)
qed

theorem long2str_decimal_witness:
  "0 \<le> sint (1234 :: uint) \<and> (\<exists>out. long2str 1234 8 True = Some out \<and> dec_value (dropWhile (\<lambda>c. c = 32) out) = 1234)"
  using long2str_decimal [of 1234 8 True] by auto

text \<open>C19: \<^verbatim>\<open>%x\<close> and \<^verbatim>\<open>%p\<close> print any \<^verbatim>\<open>long\<close> in hexadecimal, padded to the width: reading the digits back
  after the blanks gives the number. The local buffer is large enough for every width up to 16.\<close>

theorem ulong2hexstr_hexadecimal:
  assumes "width \<le> 16"
  shows "\<exists>out. ulong2hexstr v width z = Some out \<and> width \<le> length out \<and> out \<noteq> [] \<and>
    hex_value (dropWhile (\<lambda>c. c = 32) out) = unat v"
proof -
  have "unat v < 16 ^ 16" using unsigned_less [of v] by simp
  then have "length (hex_digits v) \<le> 16" by (rule hex_digits_length)
  moreover have "hex_value [] = 0" "hex_char 48" "\<not> hex_char 32" by (simp_all add: hex_value_def hex_char_def is_digit_def)
  ultimately show ?thesis
    using pad_number_value [of "hex_digits v" 16 width hex_char hex_value z] hex_digits_value [of v] assms hex_value_zeros
    by (simp add: ulong2hexstr_def)
qed

theorem ulong2hexstr_hexadecimal_witness:
  "\<exists>out. ulong2hexstr 0xffffffff80100000 0 False = Some out \<and> hex_value (dropWhile (\<lambda>c. c = 32) out) = 0xffffffff80100000"
  using ulong2hexstr_hexadecimal [of 0 "0xffffffff80100000" False] by auto

lemma dec_digits_neg: "dec_digits (- n) = map (\<lambda>c. 96 - c) (dec_digits n)"
proof (induction n rule: dec_digits.induct)
  case (1 n)
  show ?case
  proof (cases "n = 0")
    case True
    then show ?thesis by (simp add: dec_digits.simps)
  next
    case False
    have "(- n) smod 10 = - (n smod 10)" "(- n) sdiv 10 = - (n sdiv 10)"
      by (simp_all add: signed_modulo_int_def signed_divide_int_def)
    with False 1 [OF False] show ?thesis
      by (subst dec_digits.simps, subst (2) dec_digits.simps) simp
  qed
qed

text \<open>C20: A negative \<^verbatim>\<open>int\<close> is not printed in decimal: no sign is written, and each digit \<open>d\<close> of the number
  comes out as the character \<open>d\<close> places below \<^verbatim>\<open>'0'\<close>, because \<open>%\<close> of a negative number is negative in C
  (so \<open>-1\<close> is printed as a slash).\<close>

theorem long2str_negative:
  "long2str (- n) 0 z = map_option (map (\<lambda>c. if n = 0 then c else 96 - c)) (long2str n 0 z)"
proof (cases "n = 0")
  case False
  then have "dec_digits n \<noteq> []" by (subst dec_digits.simps) simp
  then show ?thesis using False
    by (simp add: long2str_def pad_number_def Let_def dec_digits_neg copy_str_def take_map rev_map)
qed (simp add: option.map_ident)

end
