(* ===== verification/Ring.thy ===== *)
theory Ring
  imports Xv6_Prelude
begin

text \<open>
  Ring buffers whose 32-bit read and write counters run freely and wrap, as in the console's input buffer and in
  pipes. The arithmetic needs only that the size divides \<open>2 ^ 32\<close>.
\<close>

definition ring_bytes :: "nat \<Rightarrow> byte list \<Rightarrow> uint \<Rightarrow> nat \<Rightarrow> byte list" where
  "ring_bytes N buf r n = map (\<lambda>i. buf ! (unat (r + of_nat i) mod N)) [0..<n]"

lemma length_ring_bytes [simp]: "length (ring_bytes N buf r n) = n"
  by (simp add: ring_bytes_def)

lemma ring_bytes_0 [simp]: "ring_bytes N buf r 0 = []"
  by (simp add: ring_bytes_def)

lemma take_ring_bytes: "take k (ring_bytes N buf r n) = ring_bytes N buf r (min k n)"
  by (simp add: ring_bytes_def take_map min_def)

lemma ring_bytes_Suc: "ring_bytes N buf r (Suc n) = buf ! (unat r mod N) # ring_bytes N buf (r + 1) n"
proof -
  have "ring_bytes N buf r (Suc n) = map (\<lambda>i. buf ! (unat (r + of_nat i) mod N)) (0 # map Suc [0..<n])"
    by (simp only: ring_bytes_def upt_conv_Cons map_Suc_upt zero_less_Suc)
  then show ?thesis by (simp add: ring_bytes_def comp_def algebra_simps)
qed

locale ring =
  fixes N :: nat
  assumes N_dvd: "N dvd 2 ^ 32" and N_pos: "0 < N" and N_less: "N < 2 ^ 32"
begin

lemma index: "unat (a + of_nat i :: uint) mod N = (unat a + i) mod N"
proof -
  have "unat (a + of_nat i) = (unat a + i) mod 2 ^ 32"
    unfolding unat_word_ariths(1) unat_of_nat by (simp add: mod_add_right_eq)
  then show ?thesis by (simp only: mod_mod_cancel [OF N_dvd])
qed

lemma unat_suc: "unat (e - r :: uint) < N \<Longrightarrow> unat (e + 1 - r) = Suc (unat (e - r))"
proof -
  assume a: "unat (e - r) < N"
  have "e + 1 - r = (e - r) + 1" by simp
  then show ?thesis using a N_less by (simp only: unat_word_ariths) simp
qed

lemma room_iff: "e - r < of_nat N \<longleftrightarrow> unat (e - r :: uint) < N"
  using N_less by (simp add: word_less_nat_alt unat_of_nat)

lemma full_iff: "e = r + of_nat N \<longleftrightarrow> unat (e - r :: uint) = N"
proof -
  have "e = r + of_nat N \<longleftrightarrow> e - r = of_nat N" by (auto simp: algebra_simps)
  also have "\<dots> \<longleftrightarrow> unat (e - r) = N" using N_less by (auto simp: word_unat_eq_iff unat_of_nat)
  finally show ?thesis .
qed

lemma push:
  assumes "length buf = N" "unat (e - r) < N"
  shows "ring_bytes N (buf[unat e mod N := b]) r (Suc (unat (e - r))) = ring_bytes N buf r (unat (e - r)) @ [b]"
proof -
  let ?n = "unat (e - r)"
  have pos: "unat e mod N = (unat r + ?n) mod N" using index [of r ?n] by simp
  have "(unat r + i) mod N \<noteq> (unat r + ?n) mod N" if "i < ?n" for i
    using that assms(2) mod_eq_dvd_iff_nat [of "unat r + i" "unat r + ?n" N] nat_dvd_not_less [of "?n - i" N] by auto
  then have "buf[unat e mod N := b] ! ((unat r + i) mod N) = buf ! ((unat r + i) mod N)" if "i < ?n" for i
    using that pos by (metis nth_list_update_neq)
  then show ?thesis using pos assms(1) N_pos by (simp add: ring_bytes_def index)
qed

end

end
