(* ===== verification/Console.thy ===== *)
theory Console
  imports Crash Sprintf Ring
begin

text \<open>
  \<^verbatim>\<open>kernel/console.c\<close> up to the device functions, and \<^verbatim>\<open>procdump\<close> of \<^verbatim>\<open>kernel/proc.c\<close>: formatted output, and the
  line discipline of the input, whose ring buffer \<^verbatim>\<open>input\<close> is refined to the committed bytes and the line
  being edited. What the console sends to the serial port and to the frame buffer is the list \<open>con_out\<close>;
  both devices get the same characters.
\<close>

section \<open>State\<close>

definition INPUT_BUF :: nat where "INPUT_BUF = 128"
definition BACKSPACE :: int where "BACKSPACE = 0x100"

text \<open>\<^verbatim>\<open>C('P')\<close> is control-P.\<close>

definition C_key :: "char \<Rightarrow> int" where
  "C_key x = of_char x - of_char CHR ''@''"

record input =
  in_buf :: "byte list"
  in_r :: uint
  in_w :: uint
  in_e :: uint

record con_st = log_st +
  con_locking :: bool
  con_panicked :: bool
  con_out :: "int list"
  con_input :: input

section \<open>Output\<close>

text \<open>After a panic on another CPU \<^verbatim>\<open>consputc\<close> spins for ever.\<close>

definition consputc :: "int \<Rightarrow> ('a con_st_scheme, unit) kop" where
  "consputc c =
     bind (gets con_panicked) (\<lambda>p.
     if p then fail Diverge
     else if c = BACKSPACE then modify (\<lambda>s. s\<lparr>con_out := con_out s @ [8, 32, 8]\<rparr>)
     else modify (\<lambda>s. s\<lparr>con_out := con_out s @ [c]\<rparr>))"

text \<open>The characters of \<^verbatim>\<open>buf\<close> up to the NUL; \<^verbatim>\<open>char\<close> is signed. \<^verbatim>\<open>buf\<close> has room for 512 bytes.\<close>

definition cprintf :: "byte list \<Rightarrow> vararg list \<Rightarrow> ('a con_st_scheme, unit) kop" where
  "cprintf fmt args =
     bind (gets con_locking) (\<lambda>locking.
     andthen (whenK locking (acquire ''console''))
    (case vsprintf fmt args of
       None \<Rightarrow> fail Fault
     | Some buf \<Rightarrow>
         if length buf + 1 > 512 then fail Fault
         else andthen (forK (\<lambda>c. consputc (sint c)) (takeWhile (\<lambda>c. c \<noteq> 0) buf))
                      (whenK locking (release ''console''))))"

text \<open>The states in the words of \<^verbatim>\<open>procdump\<close>.\<close>

definition state_name :: "procstate \<Rightarrow> byte list" where
  "state_name st =
     (case st of UNUSED \<Rightarrow> lit ''unused'' | EMBRYO \<Rightarrow> lit ''embryo'' | SLEEPING \<Rightarrow> lit ''sleep ''
      | RUNNABLE \<Rightarrow> lit ''runble'' | RUNNING \<Rightarrow> lit ''run   '' | ZOMBIE \<Rightarrow> lit ''zombie'')"

definition name_str :: "byte list \<Rightarrow> byte list" where
  "name_str nm = takeWhile (\<lambda>c. c \<noteq> 0) nm"

text \<open>One turn of the loop of \<^verbatim>\<open>procdump\<close>; \<open>rbp\<close> is the frame pointer \<^verbatim>\<open>getcallerpcs\<close> starts from.\<close>

definition procdump_slot :: "ulong \<Rightarrow> nat \<Rightarrow> ('a con_st_scheme, unit) kop" where
  "procdump_slot rbp i =
     bind (gets (\<lambda>s. procs s ! i)) (\<lambda>p.
     whenK (p_state p \<noteq> UNUSED)
       (andthen (cprintf (lit ''%d %s %s'') [Va_int (of_int (p_pid p)), Va_str (state_name (p_state p)), Va_str (name_str (p_name p))])
       (andthen (whenK (p_state p = SLEEPING)
          (bind (gets (\<lambda>s. getcallerpcs (km_mem s) rbp)) (\<lambda>pcs.
           forK (\<lambda>pc. cprintf (lit '' %x'') [Va_long pc]) (takeWhile (\<lambda>pc. pc \<noteq> 0) pcs))))
       (cprintf [10] []))))"

definition procdump :: "ulong \<Rightarrow> ('a con_st_scheme, unit) kop" where
  "procdump rbp = bind (gets (\<lambda>s. length (procs s))) (\<lambda>n. forK (procdump_slot rbp) [0..<n])"

section \<open>Input\<close>

definition in_char :: "input \<Rightarrow> uint \<Rightarrow> byte" where
  "in_char inp i = in_buf inp ! (unat i mod INPUT_BUF)"

text \<open>How far the loop of \<^verbatim>\<open>C('U')\<close> moves the edit index back.\<close>

function kill_line :: "input \<Rightarrow> nat" where
  "kill_line inp =
     (if in_e inp = in_w inp \<or> in_char inp (in_e inp - 1) = 10 then 0
      else Suc (kill_line (inp\<lparr>in_e := in_e inp - 1\<rparr>)))"
  by auto
termination
proof (relation "measure (\<lambda>inp. unat (in_e inp - in_w inp))")
  fix inp :: input
  assume "\<not> (in_e inp = in_w inp \<or> in_char inp (in_e inp - 1) = 10)"
  then have "in_e inp - in_w inp \<noteq> 0" by simp
  then have "unat (in_e inp - in_w inp - 1) < unat (in_e inp - in_w inp)"
    using measure_unat by blast
  then show "(inp\<lparr>in_e := in_e inp - 1\<rparr>, inp) \<in> measure (\<lambda>inp. unat (in_e inp - in_w inp))"
    by (simp add: algebra_simps)
qed simp

declare kill_line.simps [simp del]

definition cons_erase :: "nat \<Rightarrow> ('a con_st_scheme, unit) kop" where
  "cons_erase n =
     forK (\<lambda>_. andthen (modify (\<lambda>s. s\<lparr>con_input := (con_input s)\<lparr>in_e := in_e (con_input s) - 1\<rparr>\<rparr>)) (consputc BACKSPACE)) [0..<n]"

text \<open>One character of \<^verbatim>\<open>consoleintr\<close>; the result says whether a process listing was asked for.\<close>

definition cons_char :: "int \<Rightarrow> ('a con_st_scheme, bool) kop" where
  "cons_char c =
     (if c = C_key CHR ''P'' then ret True
      else if c = C_key CHR ''U'' then bind (gets (\<lambda>s. kill_line (con_input s))) (\<lambda>n. andthen (cons_erase n) (ret False))
      else if c = C_key CHR ''H'' \<or> c = 0x7f then
        bind (gets con_input) (\<lambda>inp. andthen (whenK (in_e inp \<noteq> in_w inp) (cons_erase 1)) (ret False))
      else bind (gets con_input) (\<lambda>inp.
        andthen (whenK (c \<noteq> 0 \<and> in_e inp - in_r inp < of_nat INPUT_BUF)
          (let c' = (if c = 13 then 10 else c); e' = in_e inp + 1 in
           andthen (modify (\<lambda>s. s\<lparr>con_input := inp\<lparr>in_buf := (in_buf inp)[unat (in_e inp) mod INPUT_BUF := of_int c'],
              in_e := e'\<rparr>\<rparr>))
          (andthen (consputc c')
             (whenK (c' = 10 \<or> c' = C_key CHR ''D'' \<or> e' = in_r inp + of_nat INPUT_BUF)
               (andthen (modify (\<lambda>s. s\<lparr>con_input := (con_input s)\<lparr>in_w := e'\<rparr>\<rparr>)) (wakeup Ch_input))))))
        (ret False)))"

fun cons_chars :: "int list \<Rightarrow> ('a con_st_scheme, bool) kop" where
  "cons_chars [] = ret False"
| "cons_chars (c # cs) = bind (cons_char c) (\<lambda>d. bind (cons_chars cs) (\<lambda>d'. ret (d \<or> d')))"

text \<open>\<open>cs\<close> are the characters \<^verbatim>\<open>getc\<close> returns before it returns a negative number.\<close>

definition consoleintr :: "ulong \<Rightarrow> int list \<Rightarrow> ('a con_st_scheme, unit) kop" where
  "consoleintr rbp cs =
     andthen (acquire ''console'')
    (bind (cons_chars cs) (\<lambda>doprocdump.
     andthen (release ''console'')
       (whenK doprocdump (procdump rbp))))"

section \<open>The line discipline\<close>

text \<open>The bytes in the ring from the read index to the edit index: first those that may be read, then the
  line being edited.\<close>

definition in_all :: "input \<Rightarrow> byte list" where
  "in_all inp = ring_bytes INPUT_BUF (in_buf inp) (in_r inp) (unat (in_e inp - in_r inp))"

definition in_lines :: "input \<Rightarrow> byte list \<times> byte list" where
  "in_lines inp = (let n = unat (in_w inp - in_r inp) in (take n (in_all inp), drop n (in_all inp)))"

definition in_ok :: "input \<Rightarrow> bool" where
  "in_ok inp \<longleftrightarrow> length (in_buf inp) = INPUT_BUF \<and> unat (in_w inp - in_r inp) \<le> unat (in_e inp - in_r inp) \<and>
     unat (in_e inp - in_r inp) \<le> INPUT_BUF \<and> 10 \<notin> set (snd (in_lines inp))"

text \<open>What a character does to the two lists.\<close>

definition line_spec :: "int \<Rightarrow> byte list \<times> byte list \<Rightarrow> byte list \<times> byte list" where
  "line_spec c l =
     (let (com, ed) = l in
      if c = 16 then (com, ed)
      else if c = 21 then (com, [])
      else if c = 8 \<or> c = 127 then (com, butlast ed)
      else if c = 0 \<or> length com + length ed \<ge> INPUT_BUF then (com, ed)
      else let c' = (if c = 13 then 10 else c); ed' = ed @ [of_int c'] in
        if c' = 10 \<or> c' = 4 \<or> length com + length ed' = INPUT_BUF then (com @ ed', []) else (com, ed'))"

interpretation in_ring: ring INPUT_BUF
  by unfold_locales (simp_all add: INPUT_BUF_def)

lemma length_in_all [simp]: "length (in_all inp) = unat (in_e inp - in_r inp)"
  by (simp add: in_all_def)

lemma in_all_w [simp]: "in_all (inp\<lparr>in_w := w\<rparr>) = in_all inp"
  by (simp add: in_all_def)

lemma in_push:
  assumes "unat (in_e inp - in_r inp) < INPUT_BUF" "length (in_buf inp) = INPUT_BUF"
  shows "in_all (inp\<lparr>in_buf := (in_buf inp)[unat (in_e inp) mod INPUT_BUF := b], in_e := in_e inp + 1\<rparr>) = in_all inp @ [b]"
  using in_ring.push [OF assms(2,1)] in_ring.unat_suc [OF assms(1)] by (simp add: in_all_def)

lemma unat_edit_sub: "n \<le> unat (e - r :: uint) \<Longrightarrow> unat (e - of_nat n - r) = unat (e - r) - n"
proof -
  assume a: "n \<le> unat (e - r)"
  then have u: "unat (of_nat n :: uint) = n" by (rule le_unat_uoi)
  have "e - of_nat n - r = (e - r) - of_nat n" by simp
  moreover have "(of_nat n :: uint) \<le> e - r" using a u by (simp add: word_le_nat_alt)
  ultimately show ?thesis using u by (metis unat_sub)
qed

lemma in_pop_n:
  assumes "n \<le> unat (in_e inp - in_r inp)"
  shows "in_all (inp\<lparr>in_e := in_e inp - of_nat n\<rparr>) = take (unat (in_e inp - in_r inp) - n) (in_all inp)"
  using unat_edit_sub [OF assms] by (simp add: in_all_def take_ring_bytes)

lemma in_okD:
  assumes "in_ok inp"
  shows "length (fst (in_lines inp)) = unat (in_w inp - in_r inp)"
    "length (snd (in_lines inp)) = unat (in_e inp - in_r inp) - unat (in_w inp - in_r inp)"
    "snd (in_lines inp) = [] \<longleftrightarrow> in_e inp = in_w inp"
proof -
  have "unat (in_e inp - in_r inp) = unat (in_w inp - in_r inp) \<longleftrightarrow> in_e inp = in_w inp"
    by (metis word_unat_eq_iff diff_add_cancel)
  then show "length (fst (in_lines inp)) = unat (in_w inp - in_r inp)"
    "length (snd (in_lines inp)) = unat (in_e inp - in_r inp) - unat (in_w inp - in_r inp)"
    "snd (in_lines inp) = [] \<longleftrightarrow> in_e inp = in_w inp"
    using assms by (auto simp: in_lines_def in_ok_def Let_def)
qed

text \<open>Moving the edit index back within the line.\<close>

lemma in_back:
  assumes ok: "in_ok inp" and n: "n \<le> length (snd (in_lines inp))"
  defines "j \<equiv> inp\<lparr>in_e := in_e inp - of_nat n\<rparr>"
  shows "in_ok j" "in_lines j = (fst (in_lines inp), take (length (snd (in_lines inp)) - n) (snd (in_lines inp)))"
proof -
  let ?k = "unat (in_w inp - in_r inp)" let ?l = "unat (in_e inp - in_r inp)"
  have "?k \<le> ?l" "n \<le> ?l - ?k" using ok n in_okD(2) [OF ok] by (simp_all add: in_ok_def)
  then have kl: "?k \<le> ?l" "n \<le> ?l - ?k" "?k \<le> ?l - n" by arith+
  then have e: "unat (in_e inp - of_nat n - in_r inp) = ?l - n" by (intro unat_edit_sub) simp
  have "in_all j = take (?l - n) (in_all inp)" unfolding j_def using kl by (intro in_pop_n) simp
  then show l: "in_lines j = (fst (in_lines inp), take (length (snd (in_lines inp)) - n) (snd (in_lines inp)))"
    using kl by (simp add: in_lines_def Let_def j_def drop_take min_def add.commute)
  then have "10 \<notin> set (snd (in_lines j))" using ok in_set_takeD by (fastforce simp: in_ok_def)
  moreover have "?l \<le> INPUT_BUF" using ok by (simp add: in_ok_def)
  then have "?l - n \<le> INPUT_BUF" by linarith
  ultimately show "in_ok j" using ok e kl by (simp add: in_ok_def j_def)
qed

lemma in_last:
  assumes ok: "in_ok inp" and ne: "in_e inp \<noteq> in_w inp"
  shows "in_char inp (in_e inp - 1) \<noteq> 10"
proof -
  let ?l = "unat (in_e inp - in_r inp)"
  have ed: "snd (in_lines inp) \<noteq> []" using ne in_okD(3) [OF ok] by simp
  then have l: "0 < ?l" by (auto simp: in_lines_def Let_def)
  then have e: "in_r inp + of_nat (?l - 1) = in_e inp - 1" by (simp add: of_nat_diff)
  have "in_all inp \<noteq> []" using l length_in_all [of inp] by (metis length_0_conv less_numeral_extra(3))
  then have "last (in_all inp) = in_char inp (in_r inp + of_nat (?l - 1))"
    using l by (simp add: in_all_def ring_bytes_def in_char_def last_conv_nth)
  moreover have "last (in_all inp) = last (snd (in_lines inp))"
    using ed by (simp add: in_lines_def Let_def last_drop)
  ultimately show ?thesis using last_in_set [OF ed] ok e by (auto simp: in_ok_def)
qed

lemma kill_line_eq: "in_ok inp \<Longrightarrow> kill_line inp = length (snd (in_lines inp))"
proof (induction inp rule: kill_line.induct)
  case (1 inp)
  show ?case
  proof (cases "in_e inp = in_w inp")
    case True
    then show ?thesis using in_okD(3) [OF "1.prems"] by (simp add: kill_line.simps)
  next
    case False
    then have l: "1 \<le> length (snd (in_lines inp))" using in_okD(3) [OF "1.prems"] by (cases "snd (in_lines inp)") auto
    note b = in_back [OF "1.prems" l]
    have "kill_line inp = Suc (kill_line (inp\<lparr>in_e := in_e inp - 1\<rparr>))"
      using False in_last [OF "1.prems" False] by (subst kill_line.simps) simp
    also have "\<dots> = length (snd (in_lines inp))"
      using 1(1) b False in_last [OF "1.prems" False] l by simp
    finally show ?thesis .
  qed
qed

lemma wp_consputc [simp]:
  "\<not> con_panicked s \<Longrightarrow> wp (consputc c) Q s =
     Q () (s\<lparr>con_out := con_out s @ (if c = BACKSPACE then [8, 32, 8] else [c])\<rparr>)"
  by (simp add: consputc_def)

lemma wp_erase:
  "\<not> con_panicked s \<Longrightarrow> wp (forK (\<lambda>_. andthen (modify (\<lambda>s. s\<lparr>con_input := (con_input s)\<lparr>in_e := in_e (con_input s) - 1\<rparr>\<rparr>))
      (consputc BACKSPACE)) xs) (\<lambda>_ t. t = s\<lparr>con_input := (con_input s)\<lparr>in_e := in_e (con_input s) - of_nat (length xs)\<rparr>,
        con_out := con_out s @ concat (replicate (length xs) [8, 32, 8])\<rparr>) s"
proof (induction xs arbitrary: s)
  case Nil
  then show ?case by simp
next
  case (Cons x xs)
  have e: "in_e (con_input s) - 1 - of_nat (length xs) = in_e (con_input s) - (1 + of_nat (length xs))" by simp
  show ?case using Cons.prems Cons.IH [of "s\<lparr>con_input := (con_input s)\<lparr>in_e := in_e (con_input s) - 1\<rparr>, con_out := con_out s @ [8, 32, 8]\<rparr>"]
    by (simp add: e BACKSPACE_def)
qed

text \<open>A character typed into a line with room for it.\<close>

lemma in_type:
  assumes ok: "in_ok inp" and room: "unat (in_e inp - in_r inp) < INPUT_BUF" and b: "fin \<or> b \<noteq> 10"
  defines "j \<equiv> inp\<lparr>in_buf := (in_buf inp)[unat (in_e inp) mod INPUT_BUF := b], in_e := in_e inp + 1\<rparr>"
  shows "in_ok (if fin then j\<lparr>in_w := in_e inp + 1\<rparr> else j)"
    "in_lines (if fin then j\<lparr>in_w := in_e inp + 1\<rparr> else j) =
       (if fin then (fst (in_lines inp) @ snd (in_lines inp) @ [b], []) else (fst (in_lines inp), snd (in_lines inp) @ [b]))"
proof -
  let ?l = "unat (in_e inp - in_r inp)" let ?k = "unat (in_w inp - in_r inp)"
  have len: "length (in_buf inp) = INPUT_BUF" "?k \<le> ?l" using ok by (simp_all add: in_ok_def)
  have a: "in_all j = in_all inp @ [b]" unfolding j_def by (rule in_push [OF room len(1)])
  note e = in_ring.unat_suc [OF room]
  show l: "in_lines (if fin then j\<lparr>in_w := in_e inp + 1\<rparr> else j) =
       (if fin then (fst (in_lines inp) @ snd (in_lines inp) @ [b], []) else (fst (in_lines inp), snd (in_lines inp) @ [b]))"
    using a e len(2) by (simp add: in_lines_def Let_def) (simp add: j_def)
  show "in_ok (if fin then j\<lparr>in_w := in_e inp + 1\<rparr> else j)"
    using l ok e room len b by (cases fin) (simp_all add: in_ok_def, simp_all add: j_def)
qed

lemma in_lines_le: "in_ok inp \<Longrightarrow> length (fst (in_lines inp)) + length (snd (in_lines inp)) = unat (in_e inp - in_r inp)"
  using in_okD(1,2) [of inp] by (simp add: in_ok_def)

lemma of_int_char: "0 \<le> c \<Longrightarrow> c < 256 \<Longrightarrow> (of_int c :: byte) = 10 \<longleftrightarrow> c = 10"
proof -
  assume "0 \<le> c" "c < 256"
  then have "uint (of_int c :: byte) = c" by (simp add: uint_word_of_int)
  then have "of_int c = (10 :: byte) \<Longrightarrow> c = 10" by (drule_tac arg_cong [of _ _ uint]) simp
  then show ?thesis by auto
qed

text \<open>C17: The console's line discipline. Each character that an interrupt delivers acts on the bytes that may be
  read and on the line being edited as \<open>line_spec\<close> says (append, erase, erase the line, end the line; a
  carriage return is a newline, a full buffer ends the line), the ring buffer is never overrun, and the
  handler asks for a process listing exactly for control-P.\<close>

theorem cons_char_refines:
  assumes "in_ok (con_input s)" "\<not> con_panicked s" "''ptable'' \<notin> held s" "0 \<le> c" "c < 256"
  shows "wp (cons_char c) (\<lambda>d t. in_ok (con_input t) \<and> in_lines (con_input t) = line_spec c (in_lines (con_input s)) \<and>
    (d \<longleftrightarrow> c = 16)) s"
proof -
  let ?inp = "con_input s"
  obtain com ed where l: "in_lines ?inp = (com, ed)" by (cases "in_lines ?inp")
  note len = in_lines_le [OF assms(1)]
  have keys: "C_key CHR ''P'' = 16" "C_key CHR ''U'' = 21" "C_key CHR ''H'' = 8" "C_key CHR ''D'' = 4"
    by (simp_all add: C_key_def)
  have er: "wp (cons_erase n) (\<lambda>_ t. in_ok (con_input t) \<and> in_lines (con_input t) = (com, take (length ed - n) ed)) s"
    if "n \<le> length ed" for n
    unfolding cons_erase_def
    by (rule wp_mono [OF wp_erase [OF assms(2)]]) (use in_back [OF assms(1), of n] that l in simp)
  consider "c = 16" | "c = 21" | "c = 8 \<or> c = 127" | "c \<noteq> 16" "c \<noteq> 21" "\<not> (c = 8 \<or> c = 127)" by blast
  then show ?thesis
  proof cases
    case 1
    then show ?thesis using assms l by (simp add: cons_char_def keys line_spec_def)
  next
    case 2
    have "kill_line ?inp = length ed" using kill_line_eq [OF assms(1)] l by simp
    then show ?thesis using er [of "length ed"] l 2 by (simp add: cons_char_def keys line_spec_def)
  next
    case 3
    show ?thesis
    proof (cases "in_e ?inp = in_w ?inp")
      case True
      then show ?thesis using in_okD(3) [OF assms(1)] assms l 3 by (auto simp: cons_char_def keys line_spec_def)
    next
      case False
      then have "1 \<le> length ed" using in_okD(3) [OF assms(1)] l by (cases ed) auto
      from er [OF this] show ?thesis using False l 3 by (auto simp: cons_char_def keys line_spec_def butlast_conv_take)
    qed
  next
    case 4
    show ?thesis
    proof (cases "c = 0 \<or> \<not> unat (in_e ?inp - in_r ?inp) < INPUT_BUF")
      case True
      then show ?thesis using 4 len l assms by (auto simp: cons_char_def keys line_spec_def in_ring.room_iff Let_def not_less)
    next
      case False
      let ?c = "if c = 13 then 10 else c"
      let ?fin = "?c = 10 \<or> ?c = 4 \<or> in_e ?inp + 1 = in_r ?inp + of_nat INPUT_BUF"
      have b: "?fin \<or> (of_int ?c :: byte) \<noteq> 10" using of_int_char [of ?c] assms by auto
      have room: "unat (in_e ?inp - in_r ?inp) < INPUT_BUF" using False by simp
      note ty = in_type [OF assms(1) room b]
      have bs: "?c \<noteq> BACKSPACE" using assms by (auto simp: BACKSPACE_def)
      have fin: "?fin \<longleftrightarrow> ?c = 10 \<or> ?c = 4 \<or> length com + length (ed @ [of_int ?c]) = INPUT_BUF"
        using in_ring.full_iff [of "in_e ?inp + 1"] in_ring.unat_suc [OF room] len l by simp
      have spec: "line_spec c (com, ed) = (if ?fin then (com @ ed @ [of_int ?c], []) else (com, ed @ [of_int ?c]))"
        using 4 False len l unfolding fin by (simp add: line_spec_def Let_def)
      show ?thesis
        unfolding l spec using ty 4 False assms l bs
        by (cases ?fin) (simp_all add: cons_char_def keys in_ring.room_iff Let_def)
    qed
  qed
qed

definition con_boot :: con_st where
  "con_boot = log_st.extend log_boot (con_st.fields True False []
     \<lparr>in_buf = replicate INPUT_BUF 0, in_r = 0xffffffff, in_w = 0xffffffff, in_e = 0xffffffff\<rparr>)"

lemma con_boot_simps [simp]:
  "held con_boot = {}" "\<not> con_panicked con_boot" "con_out con_boot = []" "cur con_boot = Some 0" "procs con_boot = [proc_demo]"
  "con_input con_boot = \<lparr>in_buf = replicate INPUT_BUF 0, in_r = 0xffffffff, in_w = 0xffffffff, in_e = 0xffffffff\<rparr>"
  by (simp_all add: con_boot_def log_st.defs con_st.defs log_boot_def)

theorem cons_char_refines_witness:
  "in_ok (con_input con_boot) \<and>
   wp (cons_char 97) (\<lambda>d t. in_ok (con_input t) \<and> in_lines (con_input t) = ([], [97]) \<and> \<not> d) con_boot"
proof -
  have ok: "in_ok (con_input con_boot)" "in_lines (con_input con_boot) = ([], [])"
    by (simp_all add: in_ok_def in_lines_def in_all_def)
  have "line_spec 97 ([], []) = ([], [97])" by (simp add: line_spec_def INPUT_BUF_def)
  then show ?thesis using cons_char_refines [OF ok(1), of 97] ok by simp
qed

end
