(* ===== verification/Inode.thy ===== *)
theory Inode
  imports Console
begin

text \<open>
  \<^verbatim>\<open>kernel/fs.c\<close> up to the inode layer: the block allocator, the inode cache, inodes on disk, the block map of
  an inode and truncation. An inode pointer is an index into \<^verbatim>\<open>icache.inode\<close>; a null pointer is \<open>None\<close>.
\<close>

section \<open>On-disk layout\<close>

type_synonym short = "16 word"

definition NDIRECT :: nat where "NDIRECT = 12"
definition NINDIRECT :: nat where "NINDIRECT = BSIZE div 4"
definition MAXFILE :: nat where "MAXFILE = NDIRECT + NINDIRECT"
definition NINODE :: nat where "NINODE = 50"
definition NDEV :: nat where "NDEV = 10"
definition ROOTDEV :: nat where "ROOTDEV = 1"
definition ROOTINO :: nat where "ROOTINO = 1"

definition T_DIR :: short where "T_DIR = 1"
definition T_FILE :: short where "T_FILE = 2"
definition T_DEV :: short where "T_DEV = 3"

record dinode =
  d_type :: short
  d_major :: short
  d_minor :: short
  d_nlink :: short
  d_size :: uint
  d_addrs :: "nat list"

text \<open>\<^verbatim>\<open>sizeof(struct dinode)\<close> is 64.\<close>

definition IPB :: nat where "IPB = BSIZE div 64"
definition BPB :: nat where "BPB = BSIZE * 8"

definition IBLOCK :: "nat \<Rightarrow> superblock \<Rightarrow> nat" where
  "IBLOCK i sb = i div IPB + sb_inodestart sb"

definition BBLOCK :: "nat \<Rightarrow> superblock \<Rightarrow> nat" where
  "BBLOCK b sb = b div BPB + sb_bmapstart sb"

definition get_uints :: "nat \<Rightarrow> nat \<Rightarrow> byte list \<Rightarrow> nat list" where
  "get_uints off n d = map (\<lambda>i. read_uint (off + 4 * i) d) [0..<n]"

fun put_uints :: "nat \<Rightarrow> nat list \<Rightarrow> byte list \<Rightarrow> byte list" where
  "put_uints off [] d = d"
| "put_uints off (v # vs) d = put_uints (off + 4) vs (write_uint off v d)"

definition get_dinode :: "nat \<Rightarrow> byte list \<Rightarrow> dinode" where
  "get_dinode off d = \<lparr>d_type = get_le 2 off d, d_major = get_le 2 (off + 2) d, d_minor = get_le 2 (off + 4) d,
     d_nlink = get_le 2 (off + 6) d, d_size = get_le 4 (off + 8) d, d_addrs = get_uints (off + 12) (NDIRECT + 1) d\<rparr>"

definition put_dinode :: "nat \<Rightarrow> dinode \<Rightarrow> byte list \<Rightarrow> byte list" where
  "put_dinode off x d = put_uints (off + 12) (d_addrs x) (put_le 4 (off + 8) (d_size x)
     (put_le 2 (off + 6) (d_nlink x) (put_le 2 (off + 4) (d_minor x)
     (put_le 2 (off + 2) (d_major x) (put_le 2 off (d_type x) d)))))"

section \<open>State\<close>

record inode =
  i_dev :: nat
  i_inum :: nat
  i_ref :: int
  i_lock :: sleeplock
  i_valid :: bool
  i_type :: short
  i_major :: short
  i_minor :: short
  i_nlink :: short
  i_size :: uint
  i_addrs :: "nat list"

text \<open>The device functions a slot of \<^verbatim>\<open>devsw\<close> can hold: only the console has any.\<close>

datatype dev = Console_dev

record fs_st = con_st +
  fs_sb :: superblock
  inodes :: "inode list"
  devsw :: "dev option list"

definition upd_inode :: "nat \<Rightarrow> (inode \<Rightarrow> inode) \<Rightarrow> 'a fs_st_scheme \<Rightarrow> 'a fs_st_scheme" where
  "upd_inode i f s = s\<lparr>inodes := (inodes s)[i := f (inodes s ! i)]\<rparr>"

definition get_inode_lock :: "nat \<Rightarrow> 'a fs_st_scheme \<Rightarrow> sleeplock" where
  "get_inode_lock i s = i_lock (inodes s ! i)"

definition upd_inode_lock :: "nat \<Rightarrow> (sleeplock \<Rightarrow> sleeplock) \<Rightarrow> 'a fs_st_scheme \<Rightarrow> 'a fs_st_scheme" where
  "upd_inode_lock i f = upd_inode i (\<lambda>x. x\<lparr>i_lock := f (i_lock x)\<rparr>)"

section \<open>Blocks\<close>

definition bzero :: "nat \<Rightarrow> nat \<Rightarrow> ('a log_st_scheme, unit) kop" where
  "bzero dev bno =
     bind (bread dev bno) (\<lambda>bp.
     andthen (set_data bp (replicate BSIZE 0))
    (andthen (log_write bp) (brelse bp)))"

definition bm_test :: "byte list \<Rightarrow> nat \<Rightarrow> bool" where
  "bm_test d bi \<longleftrightarrow> d ! (bi div 8) AND push_bit (bi mod 8) 1 \<noteq> 0"

definition bm_set :: "byte list \<Rightarrow> nat \<Rightarrow> byte list" where
  "bm_set d bi = d[bi div 8 := d ! (bi div 8) OR push_bit (bi mod 8) 1]"

definition bm_clear :: "byte list \<Rightarrow> nat \<Rightarrow> byte list" where
  "bm_clear d bi = d[bi div 8 := d ! (bi div 8) AND NOT (push_bit (bi mod 8) 1)]"

text \<open>The inner loop of \<^verbatim>\<open>balloc\<close>: the first free block whose bit is in the block that covers \<open>b\<close>.\<close>

definition bm_free :: "nat \<Rightarrow> nat \<Rightarrow> byte list \<Rightarrow> nat option" where
  "bm_free sz b d = find (\<lambda>bi. b + bi < sz \<and> \<not> bm_test d bi) [0..<BPB]"

fun balloc_loop :: "nat \<Rightarrow> superblock \<Rightarrow> nat list \<Rightarrow> ('a log_st_scheme, nat) kop" where
  "balloc_loop dev sb [] = panic ''balloc: out of blocks''"
| "balloc_loop dev sb (b # bs) =
     bind (bread dev (BBLOCK b sb)) (\<lambda>bp.
     bind (gets (\<lambda>s. b_data (bufs s ! bp))) (\<lambda>d.
     case bm_free (sb_size sb) b d of
       Some bi \<Rightarrow>
         andthen (set_data bp (bm_set d bi))
        (andthen (log_write bp)
        (andthen (brelse bp)
        (andthen (bzero dev (b + bi)) (ret (b + bi)))))
     | None \<Rightarrow> andthen (brelse bp) (balloc_loop dev sb bs)))"

text \<open>The values of \<open>b\<close> in the outer loop: the multiples of \<open>BPB\<close> below the size.\<close>

definition bm_bases :: "nat \<Rightarrow> nat list" where
  "bm_bases sz = map (\<lambda>k. k * BPB) [0..<(sz + BPB - 1) div BPB]"

definition balloc :: "nat \<Rightarrow> ('a fs_st_scheme, nat) kop" where
  "balloc dev = bind (gets fs_sb) (\<lambda>sb. balloc_loop dev sb (bm_bases (sb_size sb)))"

definition bfree :: "nat \<Rightarrow> nat \<Rightarrow> ('a fs_st_scheme, unit) kop" where
  "bfree dev b =
     bind (gets fs_sb) (\<lambda>sb.
     bind (bread dev (BBLOCK b sb)) (\<lambda>bp.
     bind (gets (\<lambda>s. b_data (bufs s ! bp))) (\<lambda>d.
     let bi = b mod BPB in
     if \<not> bm_test d bi then panic ''freeing free block''
     else andthen (set_data bp (bm_clear d bi))
         (andthen (log_write bp) (brelse bp)))))"

section \<open>The inode cache\<close>

text \<open>Reading the disk waits, so \<^verbatim>\<open>iinit\<close> runs in the first process.\<close>

definition iinit :: "nat \<Rightarrow> ('a fs_st_scheme, unit) kop" where
  "iinit dev =
     andthen (initlock ''icache'')
    (andthen (forK (\<lambda>i. initsleeplock (upd_inode_lock i)) [0..<NINODE])
    (bind (readsb dev) (\<lambda>sb.
     andthen (modify (\<lambda>s. s\<lparr>fs_sb := sb\<rparr>))
       (cprintf (lit ''sb: size %d nblocks %d ninodes %d nlog %d logstart %d inodestart %d bmap start %d'' @ [10])
          (map (\<lambda>v. Va_int (of_nat v)) [sb_size sb, sb_nblocks sb, sb_ninodes sb, sb_nlog sb, sb_logstart sb,
             sb_inodestart sb, sb_bmapstart sb])))))"

definition iget :: "nat \<Rightarrow> nat \<Rightarrow> ('a fs_st_scheme, nat) kop" where
  "iget dev inum =
     andthen (acquire ''icache'')
    (bind (gets inodes) (\<lambda>ips.
     case find (\<lambda>i. i_ref (ips ! i) > 0 \<and> i_dev (ips ! i) = dev \<and> i_inum (ips ! i) = inum) [0..<length ips] of
       Some i \<Rightarrow>
         andthen (modify (upd_inode i (\<lambda>x. x\<lparr>i_ref := i_ref x + 1\<rparr>)))
        (andthen (release ''icache'') (ret i))
     | None \<Rightarrow>
         (case find (\<lambda>i. i_ref (ips ! i) = 0) [0..<length ips] of
            None \<Rightarrow> panic ''iget: no inodes''
          | Some i \<Rightarrow>
              andthen (modify (upd_inode i (\<lambda>x. x\<lparr>i_dev := dev, i_inum := inum, i_ref := 1, i_valid := False\<rparr>)))
             (andthen (release ''icache'') (ret i)))))"

fun ialloc_loop :: "nat \<Rightarrow> short \<Rightarrow> superblock \<Rightarrow> nat list \<Rightarrow> ('a fs_st_scheme, nat) kop" where
  "ialloc_loop dev type sb [] = panic ''ialloc: no inodes''"
| "ialloc_loop dev type sb (inum # is) =
     bind (bread dev (IBLOCK inum sb)) (\<lambda>bp.
     bind (gets (\<lambda>s. b_data (bufs s ! bp))) (\<lambda>d.
     let off = 64 * (inum mod IPB) in
     if d_type (get_dinode off d) = 0 then
       andthen (set_data bp (put_le 2 off type (patch off (replicate 64 0) d)))
      (andthen (log_write bp)
      (andthen (brelse bp)
         (iget dev inum)))
     else andthen (brelse bp) (ialloc_loop dev type sb is)))"

definition ialloc :: "nat \<Rightarrow> short \<Rightarrow> ('a fs_st_scheme, nat) kop" where
  "ialloc dev type = bind (gets fs_sb) (\<lambda>sb. ialloc_loop dev type sb [1..<sb_ninodes sb])"

definition iupdate :: "nat \<Rightarrow> ('a fs_st_scheme, unit) kop" where
  "iupdate ip =
     bind (gets (\<lambda>s. inodes s ! ip)) (\<lambda>x.
     bind (gets fs_sb) (\<lambda>sb.
     bind (bread (i_dev x) (IBLOCK (i_inum x) sb)) (\<lambda>bp.
     bind (gets (\<lambda>s. b_data (bufs s ! bp))) (\<lambda>d.
     andthen (set_data bp (put_dinode (64 * (i_inum x mod IPB))
        \<lparr>d_type = i_type x, d_major = i_major x, d_minor = i_minor x, d_nlink = i_nlink x, d_size = i_size x,
         d_addrs = i_addrs x\<rparr> d))
    (andthen (log_write bp) (brelse bp))))))"

definition idup :: "nat \<Rightarrow> ('a fs_st_scheme, nat) kop" where
  "idup ip =
     andthen (acquire ''icache'')
    (andthen (modify (upd_inode ip (\<lambda>x. x\<lparr>i_ref := i_ref x + 1\<rparr>)))
    (andthen (release ''icache'') (ret ip)))"

definition load_dinode :: "dinode \<Rightarrow> inode \<Rightarrow> inode" where
  "load_dinode dip x = x\<lparr>i_type := d_type dip, i_major := d_major dip, i_minor := d_minor dip, i_nlink := d_nlink dip,
     i_size := d_size dip, i_addrs := d_addrs dip\<rparr>"

definition ilock :: "nat option \<Rightarrow> ('a fs_st_scheme, unit) kop" where
  "ilock ipp =
     (case ipp of None \<Rightarrow> panic ''ilock''
      | Some ip \<Rightarrow>
          bind (gets (\<lambda>s. i_ref (inodes s ! ip))) (\<lambda>r.
          if r < 1 then panic ''ilock''
          else
            andthen (acquiresleep (Ch_inodelock ip) (get_inode_lock ip) (upd_inode_lock ip))
           (bind (gets (\<lambda>s. inodes s ! ip)) (\<lambda>x.
            whenK (\<not> i_valid x)
              (bind (gets fs_sb) (\<lambda>sb.
               bind (bread (i_dev x) (IBLOCK (i_inum x) sb)) (\<lambda>bp.
               bind (gets (\<lambda>s. get_dinode (64 * (i_inum x mod IPB)) (b_data (bufs s ! bp)))) (\<lambda>dip.
               andthen (modify (upd_inode ip (load_dinode dip)))
              (andthen (brelse bp)
              (andthen (modify (upd_inode ip (\<lambda>y. y\<lparr>i_valid := True\<rparr>)))
                 (if d_type dip = 0 then panic ''ilock: no type'' else skip)))))))))))"

definition iunlock :: "nat option \<Rightarrow> ('a fs_st_scheme, unit) kop" where
  "iunlock ipp =
     (case ipp of None \<Rightarrow> panic ''iunlock''
      | Some ip \<Rightarrow>
          bind (holdingsleep (get_inode_lock ip)) (\<lambda>h.
          bind (gets (\<lambda>s. i_ref (inodes s ! ip))) (\<lambda>r.
          if \<not> h \<or> r < 1 then panic ''iunlock''
          else releasesleep (Ch_inodelock ip) (upd_inode_lock ip))))"

section \<open>Inode content\<close>

definition set_addr :: "nat \<Rightarrow> nat \<Rightarrow> nat \<Rightarrow> ('a fs_st_scheme, unit) kop" where
  "set_addr ip k a = modify (upd_inode ip (\<lambda>x. x\<lparr>i_addrs := (i_addrs x)[k := a]\<rparr>))"

definition bmap :: "nat \<Rightarrow> nat \<Rightarrow> ('a fs_st_scheme, nat) kop" where
  "bmap ip bn =
     bind (gets (\<lambda>s. inodes s ! ip)) (\<lambda>x.
     if bn < NDIRECT then
       (if i_addrs x ! bn = 0
        then bind (balloc (i_dev x)) (\<lambda>addr. andthen (set_addr ip bn addr) (ret addr))
        else ret (i_addrs x ! bn))
     else let bn = bn - NDIRECT in
       if bn < NINDIRECT then
         bind (if i_addrs x ! NDIRECT = 0
               then bind (balloc (i_dev x)) (\<lambda>addr. andthen (set_addr ip NDIRECT addr) (ret addr))
               else ret (i_addrs x ! NDIRECT)) (\<lambda>ind.
         bind (bread (i_dev x) ind) (\<lambda>bp.
         bind (gets (\<lambda>s. read_uint (4 * bn) (b_data (bufs s ! bp)))) (\<lambda>a.
         if a = 0 then
           bind (balloc (i_dev x)) (\<lambda>addr.
           bind (gets (\<lambda>s. b_data (bufs s ! bp))) (\<lambda>d.
           andthen (set_data bp (write_uint (4 * bn) addr d))
          (andthen (log_write bp)
          (andthen (brelse bp) (ret addr)))))
         else andthen (brelse bp) (ret a))))
       else panic ''bmap: out of range'')"

definition itrunc_direct :: "nat \<Rightarrow> nat \<Rightarrow> ('a fs_st_scheme, unit) kop" where
  "itrunc_direct ip i =
     bind (gets (\<lambda>s. inodes s ! ip)) (\<lambda>x.
     whenK (i_addrs x ! i \<noteq> 0)
       (andthen (bfree (i_dev x) (i_addrs x ! i)) (set_addr ip i 0)))"

definition itrunc_indirect :: "nat \<Rightarrow> nat \<Rightarrow> nat \<Rightarrow> ('a fs_st_scheme, unit) kop" where
  "itrunc_indirect dev bp j =
     bind (gets (\<lambda>s. read_uint (4 * j) (b_data (bufs s ! bp)))) (\<lambda>a.
     whenK (a \<noteq> 0) (bfree dev a))"

definition itrunc :: "nat \<Rightarrow> ('a fs_st_scheme, unit) kop" where
  "itrunc ip =
     andthen (forK (itrunc_direct ip) [0..<NDIRECT])
    (bind (gets (\<lambda>s. inodes s ! ip)) (\<lambda>x.
     andthen (whenK (i_addrs x ! NDIRECT \<noteq> 0)
       (bind (bread (i_dev x) (i_addrs x ! NDIRECT)) (\<lambda>bp.
        andthen (forK (itrunc_indirect (i_dev x) bp) [0..<NINDIRECT])
       (andthen (brelse bp)
       (andthen (bfree (i_dev x) (i_addrs x ! NDIRECT))
          (set_addr ip NDIRECT 0))))))
    (andthen (modify (upd_inode ip (\<lambda>y. y\<lparr>i_size := 0\<rparr>)))
       (iupdate ip))))"

definition ifree :: "nat \<Rightarrow> ('a fs_st_scheme, unit) kop" where
  "ifree ip =
     andthen (itrunc ip)
    (andthen (modify (upd_inode ip (\<lambda>y. y\<lparr>i_type := 0\<rparr>)))
    (andthen (iupdate ip)
       (modify (upd_inode ip (\<lambda>y. y\<lparr>i_valid := False\<rparr>)))))"

definition iput :: "nat \<Rightarrow> ('a fs_st_scheme, unit) kop" where
  "iput ip =
     andthen (acquiresleep (Ch_inodelock ip) (get_inode_lock ip) (upd_inode_lock ip))
    (bind (gets (\<lambda>s. inodes s ! ip)) (\<lambda>x.
     andthen (whenK (i_valid x \<and> i_nlink x = 0)
       (andthen (acquire ''icache'')
       (bind (gets (\<lambda>s. i_ref (inodes s ! ip))) (\<lambda>r.
        andthen (release ''icache'') (whenK (r = 1) (ifree ip))))))
    (andthen (releasesleep (Ch_inodelock ip) (upd_inode_lock ip))
    (andthen (acquire ''icache'')
    (andthen (modify (upd_inode ip (\<lambda>y. y\<lparr>i_ref := i_ref y - 1\<rparr>)))
       (release ''icache''))))))"

definition iunlockput :: "nat \<Rightarrow> ('a fs_st_scheme, unit) kop" where
  "iunlockput ip = andthen (iunlock (Some ip)) (iput ip)"

record stat =
  st_type :: short
  st_dev :: int
  st_ino :: nat
  st_nlink :: short
  st_size :: uint

definition stati :: "nat \<Rightarrow> ('a fs_st_scheme, stat) kop" where
  "stati ip = gets (\<lambda>s. let x = inodes s ! ip in
     \<lparr>st_type = i_type x, st_dev = int (i_dev x), st_ino = i_inum x, st_nlink = i_nlink x, st_size = i_size x\<rparr>)"

section \<open>The console as a device\<close>

fun consoleread_loop :: "nat \<Rightarrow> nat \<Rightarrow> ('a con_st_scheme, int \<times> byte list) kop" where
  "consoleread_loop target 0 = ret (0, [])"
| "consoleread_loop target (Suc n) =
     bind (gets con_input) (\<lambda>inp.
     if in_r inp = in_w inp then
       bind curproc (\<lambda>p.
       bind (gets (\<lambda>s. p_killed (procs s ! p))) (\<lambda>killed.
       if killed then ret (- 1, []) else bind (sleep Ch_input ''console'') (\<lambda>_. ret (0, []))))
     else
       let c = in_char inp (in_r inp) in
       andthen (modify (\<lambda>s. s\<lparr>con_input := inp\<lparr>in_r := in_r inp + 1\<rparr>\<rparr>))
      (if c = of_int (C_key CHR ''D'') then
         andthen (whenK (Suc n < target) (modify (\<lambda>s. s\<lparr>con_input := inp\<rparr>))) (ret (0, []))
       else if c = 10 then ret (1, [c])
       else bind (consoleread_loop target n) (\<lambda>(r, cs). ret (if r < 0 then r else r + 1, c # cs))))"

text \<open>The result is the return value and the bytes stored at \<^verbatim>\<open>dst\<close>.\<close>

definition consoleread :: "nat \<Rightarrow> int \<Rightarrow> ('a fs_st_scheme, int \<times> byte list) kop" where
  "consoleread ip n =
     andthen (iunlock (Some ip))
    (andthen (acquire ''console'')
    (bind (consoleread_loop (nat n) (nat n)) (\<lambda>(r, cs).
     andthen (release ''console'')
    (andthen (ilock (Some ip)) (ret (r, cs))))))"

definition consolewrite :: "nat \<Rightarrow> byte list \<Rightarrow> ('a fs_st_scheme, int) kop" where
  "consolewrite ip cs =
     andthen (iunlock (Some ip))
    (andthen (acquire ''console'')
    (andthen (forK (\<lambda>c. consputc (sint c)) cs)
    (andthen (release ''console'')
    (andthen (ilock (Some ip)) (ret (int (length cs)))))))"

definition consoleinit :: "('a fs_st_scheme, unit) kop" where
  "consoleinit =
     andthen (initlock ''console'')
    (modify (\<lambda>s. s\<lparr>devsw := (devsw s)[1 := Some Console_dev], con_locking := True\<rparr>))"

end
