(* ===== verification/Fs.thy ===== *)
theory Fs
  imports Inode
begin

text \<open>
  The rest of \<^verbatim>\<open>kernel/fs.c\<close>: reading and writing the contents of an inode, directories and path names. What a
  read stores through its \<^verbatim>\<open>dst\<close> is part of its result; a write gets the bytes its \<^verbatim>\<open>src\<close> points to.
\<close>

section \<open>Inode data\<close>

definition has_dev :: "'a fs_st_scheme \<Rightarrow> short \<Rightarrow> bool" where
  "has_dev s major \<longleftrightarrow> \<not> (sint major < 0 \<or> sint major \<ge> int NDEV \<or> devsw s ! unat major = None)"

function readi_loop :: "nat \<Rightarrow> nat \<Rightarrow> nat \<Rightarrow> ('a fs_st_scheme, byte list) kop" where
  "readi_loop ip off n =
     (if n = 0 then ret []
      else
        let m = min n (BSIZE - off mod BSIZE) in
        bind (bmap ip (off div BSIZE)) (\<lambda>a.
        bind (gets (\<lambda>s. i_dev (inodes s ! ip))) (\<lambda>dev.
        bind (bread dev a) (\<lambda>bp.
        bind (gets (\<lambda>s. chunk (off mod BSIZE) m (b_data (bufs s ! bp)))) (\<lambda>d.
        andthen (brelse bp)
       (bind (readi_loop ip (off + m) (n - m)) (\<lambda>rest. ret (d @ rest))))))))"
  by auto
termination
  by (relation "measure (\<lambda>(_, _, n). n)") (auto simp: BSIZE_def)

declare readi_loop.simps [simp del]

definition readi :: "nat \<Rightarrow> uint \<Rightarrow> uint \<Rightarrow> ('a fs_st_scheme, int \<times> byte list) kop" where
  "readi ip off n =
     bind (gets (\<lambda>s. inodes s ! ip)) (\<lambda>x.
     if i_type x = T_DEV then
       bind (gets (\<lambda>s. has_dev s (i_major x))) (\<lambda>d.
       if \<not> d then ret (- 1, []) else consoleread ip (sint n))
     else if off > i_size x \<or> off + n < off then ret (- 1, [])
     else
       let n = (if off + n > i_size x then i_size x - off else n) in
       bind (readi_loop ip (unat off) (unat n)) (\<lambda>d. ret (sint n, d)))"

function writei_loop :: "nat \<Rightarrow> nat \<Rightarrow> byte list \<Rightarrow> ('a fs_st_scheme, unit) kop" where
  "writei_loop ip off src =
     (if src = [] then skip
      else
        let m = min (length src) (BSIZE - off mod BSIZE) in
        bind (bmap ip (off div BSIZE)) (\<lambda>a.
        bind (gets (\<lambda>s. i_dev (inodes s ! ip))) (\<lambda>dev.
        bind (bread dev a) (\<lambda>bp.
        bind (gets (\<lambda>s. b_data (bufs s ! bp))) (\<lambda>d.
        andthen (set_data bp (patch (off mod BSIZE) (take m src) d))
       (andthen (log_write bp)
       (andthen (brelse bp)
          (writei_loop ip (off + m) (drop m src)))))))))"
  by auto
termination
  by (relation "measure (\<lambda>(_, _, src). length src)") (auto simp: BSIZE_def)

declare writei_loop.simps [simp del]

text \<open>\<^verbatim>\<open>MAXFILE * BSIZE\<close> is a \<^verbatim>\<open>size_t\<close>, so the comparison is not made modulo \<open>2 ^ 32\<close>.\<close>

definition writei :: "nat \<Rightarrow> byte list \<Rightarrow> uint \<Rightarrow> ('a fs_st_scheme, int) kop" where
  "writei ip src off =
     (let n = of_nat (length src) :: uint in
      bind (gets (\<lambda>s. inodes s ! ip)) (\<lambda>x.
      if i_type x = T_DEV then
        bind (gets (\<lambda>s. has_dev s (i_major x))) (\<lambda>d.
        if \<not> d then ret (- 1) else consolewrite ip src)
      else if off > i_size x \<or> off + n < off then ret (- 1)
      else if unat (off + n) > MAXFILE * BSIZE then ret (- 1)
      else
        andthen (writei_loop ip (unat off) src)
       (bind (gets (\<lambda>s. i_size (inodes s ! ip))) (\<lambda>sz.
        andthen (whenK (n > 0 \<and> off + n > sz)
            (andthen (modify (upd_inode ip (\<lambda>y. y\<lparr>i_size := off + n\<rparr>))) (iupdate ip)))
          (ret (sint n))))))"

section \<open>Directories\<close>

definition DIRSIZ :: nat where "DIRSIZ = 14"

record dirent =
  de_inum :: ushort
  de_name :: "byte list"

definition sizeof_dirent :: nat where "sizeof_dirent = 2 + DIRSIZ"

definition get_dirent :: "byte list \<Rightarrow> dirent" where
  "get_dirent d = \<lparr>de_inum = get_le 2 0 d, de_name = chunk 2 DIRSIZ d\<rparr>"

definition put_dirent :: "dirent \<Rightarrow> byte list" where
  "put_dirent de = le_bytes 2 (de_inum de) @ de_name de"

definition namecmp :: "byte list \<Rightarrow> byte list \<Rightarrow> int" where
  "namecmp s t = strncmp (view_list s) (view_list t) DIRSIZ"

text \<open>The offsets the loops over a directory of \<open>sz\<close> bytes visit.\<close>

definition dir_offs :: "uint \<Rightarrow> nat list" where
  "dir_offs sz = map (\<lambda>k. k * sizeof_dirent) [0..<(unat sz + sizeof_dirent - 1) div sizeof_dirent]"

fun dirlookup_loop :: "nat \<Rightarrow> byte list \<Rightarrow> nat list \<Rightarrow> ('a fs_st_scheme, (nat \<times> nat) option) kop" where
  "dirlookup_loop dp name [] = ret None"
| "dirlookup_loop dp name (off # offs) =
     bind (readi dp (of_nat off) (of_nat sizeof_dirent)) (\<lambda>(r, d).
     if r \<noteq> int sizeof_dirent then panic ''dirlookup read''
     else let de = get_dirent d in
       if de_inum de = 0 then dirlookup_loop dp name offs
       else if namecmp name (de_name de) = 0 then
         bind (gets (\<lambda>s. i_dev (inodes s ! dp))) (\<lambda>dev.
         bind (iget dev (unat (de_inum de))) (\<lambda>ip. ret (Some (ip, off))))
       else dirlookup_loop dp name offs)"

text \<open>The result is the inode and what \<^verbatim>\<open>*poff\<close> is set to.\<close>

definition dirlookup :: "nat \<Rightarrow> byte list \<Rightarrow> ('a fs_st_scheme, (nat \<times> nat) option) kop" where
  "dirlookup dp name =
     bind (gets (\<lambda>s. inodes s ! dp)) (\<lambda>x.
     if i_type x \<noteq> T_DIR then panic ''dirlookup not DIR''
     else dirlookup_loop dp name (dir_offs (i_size x)))"

text \<open>The offset of the first free entry, or the first one past the end.\<close>

fun dirlink_loop :: "nat \<Rightarrow> nat \<Rightarrow> nat list \<Rightarrow> ('a fs_st_scheme, nat) kop" where
  "dirlink_loop dp e [] = ret e"
| "dirlink_loop dp e (off # offs) =
     bind (readi dp (of_nat off) (of_nat sizeof_dirent)) (\<lambda>(r, d).
     if r \<noteq> int sizeof_dirent then panic ''dirlink read''
     else if de_inum (get_dirent d) = 0 then ret off
     else dirlink_loop dp e offs)"

definition dirlink :: "nat \<Rightarrow> byte list \<Rightarrow> nat \<Rightarrow> ('a fs_st_scheme, int) kop" where
  "dirlink dp name inum =
     bind (dirlookup dp name) (\<lambda>r.
     case r of
       Some (ip, _) \<Rightarrow> andthen (iput ip) (ret (- 1))
     | None \<Rightarrow>
         bind (gets (\<lambda>s. dir_offs (i_size (inodes s ! dp)))) (\<lambda>offs.
         bind (dirlink_loop dp (length offs * sizeof_dirent) offs) (\<lambda>off.
         bind (writei dp (put_dirent \<lparr>de_inum = of_nat inum, de_name = strncpy (view_list name) DIRSIZ\<rparr>) (of_nat off)) (\<lambda>r.
         if r \<noteq> int sizeof_dirent then panic ''dirlink'' else ret 0))))"

section \<open>Paths\<close>

definition slash :: "byte \<Rightarrow> bool" where
  "slash c \<longleftrightarrow> c = 47"

text \<open>The rest of the path and the element copied to \<^verbatim>\<open>name\<close>; \<open>None\<close> when there is no element.\<close>

definition skipelem :: "byte list \<Rightarrow> (byte list \<times> byte list) option" where
  "skipelem path =
     (let p = dropWhile slash path in
      if p = [] then None
      else Some (dropWhile slash (dropWhile (\<lambda>c. \<not> slash c) p), take DIRSIZ (takeWhile (\<lambda>c. \<not> slash c) p)))"

lemma skipelem_shorter: "skipelem path = Some (rest, name) \<Longrightarrow> length rest < length path"
proof -
  assume a: "skipelem path = Some (rest, name)"
  then obtain c p where p: "dropWhile slash path = c # p" by (cases "dropWhile slash path") (auto simp: skipelem_def Let_def)
  then have "\<not> slash c" by (metis hd_dropWhile list.distinct(1) list.sel(1))
  moreover have "length (dropWhile slash path) \<le> length path" by (simp add: length_dropWhile_le)
  moreover have "length (dropWhile slash (dropWhile (\<lambda>c. \<not> slash c) p)) \<le> length p"
    by (meson le_trans length_dropWhile_le)
  ultimately show ?thesis using a p by (auto simp: skipelem_def Let_def)
qed

text \<open>The result is the inode and the last element copied to \<^verbatim>\<open>name\<close>.\<close>

function namex_loop :: "nat \<Rightarrow> bool \<Rightarrow> byte list \<Rightarrow> byte list \<Rightarrow> ('a fs_st_scheme, nat option \<times> byte list) kop" where
  "namex_loop ip nameiparent path name =
     (case skipelem path of
        None \<Rightarrow>
          if nameiparent then andthen (iput ip) (ret (None, name)) else ret (Some ip, name)
      | Some (rest, nm) \<Rightarrow>
          andthen (ilock (Some ip))
         (bind (gets (\<lambda>s. i_type (inodes s ! ip))) (\<lambda>t.
          if t \<noteq> T_DIR then andthen (iunlockput ip) (ret (None, nm))
          else if nameiparent \<and> rest = [] then andthen (iunlock (Some ip)) (ret (Some ip, nm))
          else
            bind (dirlookup ip nm) (\<lambda>r.
            case r of
              None \<Rightarrow> andthen (iunlockput ip) (ret (None, nm))
            | Some (next, _) \<Rightarrow> andthen (iunlockput ip) (namex_loop next nameiparent rest nm)))))"
  by auto
termination
  by (relation "measure (\<lambda>(_, _, path, _). length path)") (auto dest: skipelem_shorter)

declare namex_loop.simps [simp del]

text \<open>A process without a current directory makes \<^verbatim>\<open>idup\<close> dereference a null pointer.\<close>

definition namex :: "byte list \<Rightarrow> bool \<Rightarrow> ('a fs_st_scheme, nat option \<times> byte list) kop" where
  "namex path nameiparent =
     bind (if path \<noteq> [] \<and> hd path = 47 then iget ROOTDEV ROOTINO
           else bind curproc (\<lambda>p.
             bind (gets (\<lambda>s. p_cwd (procs s ! p))) (\<lambda>cwd.
             case cwd of None \<Rightarrow> fail Fault | Some i \<Rightarrow> idup i))) (\<lambda>ip.
     namex_loop ip nameiparent path [])"

definition namei :: "byte list \<Rightarrow> ('a fs_st_scheme, nat option) kop" where
  "namei path = bind (namex path False) (\<lambda>(r, _). ret r)"

definition nameiparent :: "byte list \<Rightarrow> ('a fs_st_scheme, nat option \<times> byte list) kop" where
  "nameiparent path = namex path True"

end
