(* ===== verification/Fs_Data.thy ===== *)
theory Fs_Data
  imports Fs
begin

text \<open>
  The contents of files: \<^verbatim>\<open>bmap\<close>, \<^verbatim>\<open>readi\<close> and \<^verbatim>\<open>writei\<close> of \<^verbatim>\<open>kernel/fs.c\<close> against the bytes that the block map of an inode
  denotes, and the block allocator \<^verbatim>\<open>balloc\<close> against the set of free blocks. Blocks are read through the cache and written
  through the log; the lemmas about both come from the theories below.
\<close>

section \<open>What an inode's block map denotes\<close>

type_synonym blks = "nat \<Rightarrow> byte list"

definition baddr :: "blks \<Rightarrow> inode \<Rightarrow> nat \<Rightarrow> nat" where
  "baddr B x bn =
     (if bn < NDIRECT then i_addrs x ! bn
      else if i_addrs x ! NDIRECT = 0 then 0 else read_uint (4 * (bn - NDIRECT)) (B (i_addrs x ! NDIRECT)))"

definition fbyte :: "blks \<Rightarrow> inode \<Rightarrow> nat \<Rightarrow> byte" where
  "fbyte B x i = B (baddr B x (i div BSIZE)) ! (i mod BSIZE)"

text \<open>The first \<open>nb\<close> blocks of the file are there, on a disk of \<open>D\<close> blocks.\<close>

definition file_ok :: "nat \<Rightarrow> blks \<Rightarrow> inode \<Rightarrow> nat \<Rightarrow> bool" where
  "file_ok D B x nb \<longleftrightarrow> i_dev x = 1 \<and> nb \<le> MAXFILE \<and> (\<forall>bn < nb. baddr B x bn \<noteq> 0 \<and> baddr B x bn < D) \<and>
     (NDIRECT < nb \<longrightarrow> i_addrs x ! NDIRECT \<noteq> 0 \<and> i_addrs x ! NDIRECT < D)"

lemma BSIZE_pos [simp]: "0 < BSIZE"
  by (simp add: BSIZE_def)

section \<open>Reading\<close>

definition can_read :: "'a bio_st_scheme \<Rightarrow> bool" where
  "can_read s \<longleftrightarrow> bio_ok {} s \<and> card (dirty_blocks s) < NBUF"

lemma reads_refl: "can_read s \<Longrightarrow> reads {} s s"
  by (simp add: reads_def can_read_def)

lemma reads_trans: "reads {} s t \<Longrightarrow> reads {} t u \<Longrightarrow> reads {} s u"
  by (auto simp: reads_def intro: only_bufs_trans)

lemma reads_frame:
  fixes s t :: "'a fs_st_scheme"
  assumes "reads H s t"
  shows "inodes t = inodes s" "blk t = blk s" "disksize t = disksize s" "fs_sb t = fs_sb s" "devsw t = devsw s"
  using assms by (auto simp: reads_def only_bufs_def)

lemma reads_can_read: "reads {} s t \<Longrightarrow> can_read s \<Longrightarrow> can_read t"
  by (simp add: reads_def can_read_def)

lemma wp_brelse_reads:
  assumes "reads {i} s t"
  shows "wp (brelse i) (\<lambda>_ u. reads {} s u) t"
proof -
  have "wp (brelse i) (\<lambda>_. brelse_post {i} i t) t" using assms by (intro wp_brelse) (auto simp: reads_def)
  then show ?thesis
    by (rule wp_mono) (use assms in \<open>auto simp: brelse_post_def reads_def intro: only_bufs_trans\<close>)
qed

text \<open>Reading something from a block.\<close>

lemma wp_read_from:
  assumes "can_read s" "a < disksize s"
    and "\<And>t. reads {} s t \<Longrightarrow> wp (K (g (blk s a))) Q t"
  shows "wp (bind (bread 1 a) (\<lambda>i. bind (gets (\<lambda>s. g (b_data (bufs s ! i)))) (\<lambda>d. andthen (brelse i) (K d)))) Q s"
proof (rule wp_read1)
  fix i t
  assume r: "reads {i} s t" "b_data (bufs t ! i) = blk s a"
  have "wp (brelse i) (\<lambda>_. wp (K (g (blk s a))) Q) t" by (rule wp_mono [OF wp_brelse_reads [OF r(1)]]) (rule assms(3))
  then show "wp (bind (gets (\<lambda>s. g (b_data (bufs s ! i)))) (\<lambda>d. andthen (brelse i) (K d))) Q t" using r(2) by simp
qed (use assms in \<open>simp_all add: can_read_def\<close>)

lemma wp_bmap:
  assumes ok: "can_read s" "file_ok (disksize s) (blk s) x nb" "bn < nb" and x: "x = inodes s ! ip"
  shows "wp (bmap ip bn) (\<lambda>a t. a = baddr (blk s) x bn \<and> reads {} s t) s"
proof (cases "bn < NDIRECT")
  case True
  then show ?thesis using ok x reads_refl by (auto simp: bmap_def file_ok_def baddr_def)
next
  case False
  let ?ind = "i_addrs x ! NDIRECT" and ?k = "bn - NDIRECT"
  have i: "?ind \<noteq> 0" "?ind < disksize s" "i_dev x = 1" "?k < NINDIRECT" using False ok by (auto simp: file_ok_def MAXFILE_def)
  have a: "baddr (blk s) x bn = read_uint (4 * ?k) (blk s ?ind)" "baddr (blk s) x bn \<noteq> 0"
    using False i(1) ok by (auto simp: baddr_def file_ok_def)
  have "wp (bind (bread 1 ?ind) (\<lambda>bp. bind (gets (\<lambda>s. read_uint (4 * ?k) (b_data (bufs s ! bp)))) (\<lambda>a.
      if a = 0 then F bp else andthen (brelse bp) (ret a)))) (\<lambda>a t. a = baddr (blk s) x bn \<and> reads {} s t) s" for F
  proof (rule wp_read1)
    fix i t
    assume r: "reads {i} s t" "b_data (bufs t ! i) = blk s ?ind"
    then show "wp (bind (gets (\<lambda>s. read_uint (4 * ?k) (b_data (bufs s ! i)))) (\<lambda>a.
        if a = 0 then F i else andthen (brelse i) (ret a))) (\<lambda>a t. a = baddr (blk s) x bn \<and> reads {} s t) t"
      using a wp_brelse_reads [OF r(1)] by simp
  qed (use ok i in \<open>simp_all add: can_read_def\<close>)
  then show ?thesis using False i by (simp add: bmap_def x [symmetric] Let_def)
qed

lemma chunk_fbytes:
  assumes "length (B a) = BSIZE" "a = baddr B x (off div BSIZE)" "m \<le> BSIZE - off mod BSIZE"
  shows "chunk (off mod BSIZE) m (B a) = map (fbyte B x) [off..<off + m]"
proof (rule nth_equalityI)
  show "length (chunk (off mod BSIZE) m (B a)) = length (map (fbyte B x) [off..<off + m])" using assms by simp
next
  fix j assume "j < length (chunk (off mod BSIZE) m (B a))"
  then have j: "j < m" by simp
  then have lt: "off mod BSIZE + j < BSIZE" using assms(3) by (simp add: less_diff_conv)
  then have "(off + j) div BSIZE = off div BSIZE" "(off + j) mod BSIZE = off mod BSIZE + j"
    using div_add1_eq [of off j BSIZE] mod_add_left_eq [of off BSIZE j] by simp_all
  then show "chunk (off mod BSIZE) m (B a) ! j = map (fbyte B x) [off..<off + m] ! j"
    using j lt assms(1,2) by (simp add: nth_chunk fbyte_def)
qed

lemma wp_readi_loop:
  assumes "can_read s" "file_ok (disksize s) (blk s) x nb" "off + n \<le> nb * BSIZE" "x = inodes s ! ip"
  shows "wp (readi_loop ip off n) (\<lambda>d t. d = map (fbyte (blk s) x) [off..<off + n] \<and> reads {} s t) s"
  using assms
proof (induction ip off n arbitrary: s rule: readi_loop.induct)
  case (1 ip off n)
  show ?case
  proof (cases "n = 0")
    case True
    then show ?thesis using 1(2) reads_refl by (simp add: readi_loop.simps)
  next
    case False
    define m where "m = min n (BSIZE - off mod BSIZE)"
    let ?a = "baddr (blk s) x (off div BSIZE)"
    have "off < nb * BSIZE" using 1(4) False by simp
    then have bn: "off div BSIZE < nb" by (simp add: less_mult_imp_div_less)
    have m: "m \<le> n" "m \<le> BSIZE - off mod BSIZE" by (simp_all add: m_def)
    have split: "map (fbyte (blk s) x) [off..<off + n] = map (fbyte (blk s) x) [off..<off + m] @ map (fbyte (blk s) x) [off + m..<off + m + (n - m)]"
      using m(1) upt_add_eq_append [of off "off + m" "n - m"] by simp
    have rest: "wp (bind (readi_loop ip (off + m) (n - m)) (\<lambda>rest. ret (chunk (off mod BSIZE) m (blk s ?a) @ rest)))
        (\<lambda>d t. d = map (fbyte (blk s) x) [off..<off + n] \<and> reads {} s t) u" if u: "reads {} s u" for u
    proof -
      note fr = reads_frame [OF u]
      have "length (blk s ?a) = BSIZE" using 1(2) length_blk [of "{}" s] by (simp add: can_read_def)
      then have c: "chunk (off mod BSIZE) m (blk s ?a) = map (fbyte (blk s) x) [off..<off + m]" using m(2) by (intro chunk_fbytes) simp_all
      have "wp (readi_loop ip (off + m) (n - m)) (\<lambda>d t. d = map (fbyte (blk u) x) [off + m..<off + m + (n - m)] \<and> reads {} u t) u"
        using 1(3,4,5) m(1) fr reads_can_read [OF u 1(2)] by (intro 1(1) [OF False m_def]) simp_all
      then show ?thesis unfolding wp_bind split c fr(2)
        by (rule wp_mono) (use reads_trans [OF u] in auto)
    qed
    have blockread: "wp (bind (gets (\<lambda>s. i_dev (inodes s ! ip))) (\<lambda>dev. bind (bread dev ?a) (\<lambda>bp.
        bind (gets (\<lambda>s. chunk (off mod BSIZE) m (b_data (bufs s ! bp)))) (\<lambda>d. andthen (brelse bp)
        (bind (readi_loop ip (off + m) (n - m)) (\<lambda>rest. ret (d @ rest)))))))
        (\<lambda>d t. d = map (fbyte (blk s) x) [off..<off + n] \<and> reads {} s t) t" if t: "reads {} s t" for t
    proof -
      note fr = reads_frame [OF t]
      have a: "?a < disksize t" "i_dev (inodes t ! ip) = 1" using 1(3,5) bn fr by (auto simp: file_ok_def)
      have "wp (bind (bread 1 ?a) (\<lambda>bp. bind (gets (\<lambda>s. chunk (off mod BSIZE) m (b_data (bufs s ! bp)))) (\<lambda>d. andthen (brelse bp)
          (bind (readi_loop ip (off + m) (n - m)) (\<lambda>rest. ret (d @ rest))))))
          (\<lambda>d t. d = map (fbyte (blk s) x) [off..<off + n] \<and> reads {} s t) t"
      proof (rule wp_read_from [OF reads_can_read [OF t 1(2)] a(1)])
        fix u assume "reads {} t u"
        from rest [OF reads_trans [OF t this]]
        show "wp (bind (readi_loop ip (off + m) (n - m)) (\<lambda>rest. ret (chunk (off mod BSIZE) m (blk t ?a) @ rest)))
          (\<lambda>d t. d = map (fbyte (blk s) x) [off..<off + n] \<and> reads {} s t) u" unfolding fr(2) .
      qed
      then show ?thesis using a(2) by simp
    qed
    have "wp (bmap ip (off div BSIZE)) (\<lambda>a t. a = ?a \<and> reads {} s t) s" using 1(2,3,5) bn by (intro wp_bmap)
    then have "wp (bind (bmap ip (off div BSIZE)) (\<lambda>a. bind (gets (\<lambda>s. i_dev (inodes s ! ip))) (\<lambda>dev. bind (bread dev a) (\<lambda>bp.
        bind (gets (\<lambda>s. chunk (off mod BSIZE) m (b_data (bufs s ! bp)))) (\<lambda>d. andthen (brelse bp)
        (bind (readi_loop ip (off + m) (n - m)) (\<lambda>rest. ret (d @ rest))))))))
        (\<lambda>d t. d = map (fbyte (blk s) x) [off..<off + n] \<and> reads {} s t) s"
      unfolding wp_bind [of "bmap ip (off div BSIZE)"] by (rule wp_mono) (use blockread in auto)
    then show ?thesis using False by (simp add: readi_loop.simps [of ip off n] m_def Let_def)
  qed
qed

lemma file_ok_size: "file_ok D B x nb \<Longrightarrow> k \<le> nb * BSIZE \<Longrightarrow> k < 2 ^ 31"
proof -
  assume "file_ok D B x nb" "k \<le> nb * BSIZE"
  then have "nb \<le> 140" "k \<le> nb * 512" by (simp_all add: file_ok_def MAXFILE_def NDIRECT_def NINDIRECT_def BSIZE_def)
  then have "k < 2147483648" by linarith
  then show ?thesis by simp
qed

lemma sint_small: "unat n < 2 ^ 31 \<Longrightarrow> sint n = int (unat n)" for n :: uint
proof -
  assume "unat n < 2 ^ 31"
  then have "int (unat n) < int (2 ^ 31)" by (simp only: of_nat_less_iff)
  then have "uint n < 2 ^ 31" by simp
  then have "signed_take_bit 31 (uint n) = uint n"
    by (intro signed_take_bit_int_eq_self) (use uint_ge_0 [of n] in linarith, simp)
  then show ?thesis by (simp add: sint_uint)
qed

text \<open>C34: \<^verbatim>\<open>readi\<close> on a file or directory refuses an offset past the end, and otherwise delivers exactly the bytes of the file
  from the offset on, up to the end of the file, and their number; it changes no block and no inode.\<close>

theorem readi_contents:
  assumes "can_read s" "x = inodes s ! ip" "i_type x \<noteq> T_DEV" "file_ok (disksize s) (blk s) x nb" "unat (i_size x) \<le> nb * BSIZE"
  shows "wp (readi ip off n) (\<lambda>(r, d) t.
      (if off > i_size x \<or> off + n < off then r = - 1 \<and> d = []
       else d = map (fbyte (blk s) x) [unat off..<min (unat off + unat n) (unat (i_size x))] \<and> r = int (length d)) \<and>
      blk t = blk s \<and> inodes t = inodes s) s"
proof (cases "off > i_size x \<or> off + n < off")
  case True
  then show ?thesis using assms(2,3) by (simp add: readi_def)
next
  case False
  define k where "k = (if off + n > i_size x then i_size x - off else n)"
  have le: "unat off \<le> unat (i_size x)" using False by (simp add: word_le_nat_alt not_less)
  have sum: "unat (off + n) = unat off + unat n"
  proof (rule ccontr)
    assume "unat (off + n) \<noteq> unat off + unat n"
    then have "unat off + unat n \<ge> 2 ^ 32" using unat_add_no_wrap [of off n] by force
    then have "unat (off + n) < unat off" using unat_lt [of n] unat_lt [of off] by (simp add: unat_word_ariths le_mod_geq)
    then show False using False by (simp add: word_less_nat_alt)
  qed
  then have k: "unat off + unat k = min (unat off + unat n) (unat (i_size x))"
    using le by (simp add: k_def word_less_nat_alt unat_diff_le)
  then have "unat off + unat k \<le> nb * BSIZE" using assms(5) by simp
  moreover from this have "sint k = int (unat k)" using file_ok_size [OF assms(4)] by (intro sint_small) fastforce
  moreover have "sint k = int (length (map (fbyte (blk s) x) [unat off..<unat off + unat k]))"
    using \<open>sint k = int (unat k)\<close> by (simp only: length_map length_upt diff_add_inverse)
  ultimately have "wp (bind (readi_loop ip (unat off) (unat k)) (\<lambda>d. ret (sint k, d))) (\<lambda>(r, d) t.
      (d = map (fbyte (blk s) x) [unat off..<unat off + unat k] \<and> r = int (length d)) \<and>
      blk t = blk s \<and> inodes t = inodes s) s"
    unfolding wp_bind wp_ret using reads_frame(1,2) [of "{}" s]
    by (intro wp_mono [OF wp_readi_loop [OF assms(1,4) _ assms(2), of "unat off" "unat k"]]) (simp_all only: prod.case simp_thms)
  moreover have "readi ip off n s = bind (readi_loop ip (unat off) (unat k)) (\<lambda>d. ret (sint k, d)) s"
    using False assms(3) unfolding readi_def k_def assms(2) by (simp add: bind_def gets_def Let_def)
  ultimately show ?thesis unfolding k [symmetric] using False by (simp only: wp_def if_False)
qed

section \<open>Writing within a transaction\<close>

text \<open>The blocks of the file are different blocks, not in the log, and none of them is the indirect block.\<close>

definition file_wf :: "'a fs_st_scheme \<Rightarrow> inode \<Rightarrow> nat \<Rightarrow> bool" where
  "file_wf s x nb \<longleftrightarrow> file_ok (disksize s) (blk s) x nb \<and>
     (\<forall>bn < nb. 1 < baddr (blk s) x bn \<and> \<not> log_region (lg_start s) (lg_size s) (baddr (blk s) x bn)) \<and>
     inj_on (baddr (blk s) x) {..<nb} \<and> (NDIRECT < nb \<longrightarrow> i_addrs x ! NDIRECT \<notin> baddr (blk s) x ` {..<nb})"

text \<open>Block contents \<open>B'\<close> come from \<open>B\<close> by writing \<open>src\<close> into the file at \<open>off\<close>.\<close>

definition wrote_file :: "inode \<Rightarrow> nat \<Rightarrow> nat \<Rightarrow> byte list \<Rightarrow> blks \<Rightarrow> blks \<Rightarrow> bool" where
  "wrote_file x nb off src B B' \<longleftrightarrow> (\<forall>bn < nb. baddr B' x bn = baddr B x bn) \<and>
     (\<forall>a. a \<notin> baddr B x ` {..<nb} \<longrightarrow> B' a = B a) \<and>
     (\<forall>i < nb * BSIZE. fbyte B' x i = (if off \<le> i \<and> i < off + length src then src ! (i - off) else fbyte B x i))"

lemma baddr_other: "NDIRECT < nb \<longrightarrow> i_addrs x ! NDIRECT \<noteq> a \<Longrightarrow> bn < nb \<Longrightarrow> baddr (B(a := d)) x bn = baddr B x bn"
  by (auto simp: baddr_def)

lemma trans_can_read: "trans_ok {} k s \<Longrightarrow> can_read s"
  using log_ok_card [of "{}" s] by (simp add: trans_ok_def can_read_def log_ok_def)

lemma reads_blk_step:
  assumes "trans_ok {} k s" "reads {} s t"
  shows "blk_step {} k (blk s) s t"
proof -
  have r: "bio_ok {} t" "blk t = blk s" "dirty_blocks t = dirty_blocks s" "only_bufs s t" using assms(2) by (simp_all add: reads_def)
  note f = only_bufs_log [OF r(4)]
  have "log_ok {} s" using assms(1) by (simp add: trans_ok_def)
  then have "log_ok {} t" by (rule log_ok_bufs [OF _ r(4,1,3)])
  then have "trans_ok {} k t" using f only_logD(2) [OF f(3)] by (intro trans_ok_frame [OF assms(1)]) simp_all
  then show ?thesis using r(2) f by (simp add: blk_step_def)
qed

lemma only_log_fs:
  fixes s t :: "'a fs_st_scheme"
  assumes "only_log s t"
  shows "inodes t = inodes s" "fs_sb t = fs_sb s" "devsw t = devsw s"
  using assms by (auto simp: only_log_def)

lemma wrote_file_block:
  assumes wf: "file_wf s x nb" and b: "off div BSIZE < nb" "a = baddr (blk s) x (off div BSIZE)" "length (blk s a) = BSIZE"
    and ys: "off mod BSIZE + length ys \<le> BSIZE"
  shows "wrote_file x nb off ys (blk s) ((blk s)(a := patch (off mod BSIZE) ys (blk s a)))"
proof -
  let ?B = "(blk s)(a := patch (off mod BSIZE) ys (blk s a))"
  have addr: "baddr ?B x bn = baddr (blk s) x bn" if "bn < nb" for bn
    using that wf b by (intro baddr_other) (auto simp: file_wf_def)
  have "fbyte ?B x i = (if off \<le> i \<and> i < off + length ys then ys ! (i - off) else fbyte (blk s) x i)" if i: "i < nb * BSIZE" for i
  proof -
    have bi: "i div BSIZE < nb" using i by (simp add: less_mult_imp_div_less)
    show ?thesis
    proof (cases "i div BSIZE = off div BSIZE")
      case True
      have lt: "i mod BSIZE < BSIZE" by simp
      have e: "i = off div BSIZE * BSIZE + i mod BSIZE" "off = off div BSIZE * BSIZE + off mod BSIZE"
        using True div_mult_mod_eq [of i BSIZE] div_mult_mod_eq [of off BSIZE] by simp_all
      have "off \<le> i \<longleftrightarrow> off mod BSIZE \<le> i mod BSIZE" "i < off + length ys \<longleftrightarrow> i mod BSIZE < off mod BSIZE + length ys"
        "i - off = i mod BSIZE - off mod BSIZE" using e by linarith+
      then show ?thesis unfolding fbyte_def addr [OF bi] using True b lt ys by (simp add: nth_patch)
    next
      case False
      then have "baddr (blk s) x (i div BSIZE) \<noteq> a" using wf bi b by (auto simp: file_wf_def inj_on_def)
      moreover have "\<not> (off \<le> i \<and> i < off + length ys)"
      proof
        assume "off \<le> i \<and> i < off + length ys"
        then have "i - off div BSIZE * BSIZE < BSIZE" "off div BSIZE * BSIZE \<le> i"
          using ys div_mult_mod_eq [of off BSIZE] by linarith+
        then have "i div BSIZE = off div BSIZE" by (metis BSIZE_pos add_diff_inverse_nat div_less div_mult_self3 add.right_neutral not_less_zero nat_neq_iff le_less not_le)
        then show False using False by simp
      qed
      ultimately show ?thesis unfolding fbyte_def addr [OF bi] by auto
    qed
  qed
  moreover have "?B c = blk s c" if "c \<notin> baddr (blk s) x ` {..<nb}" for c using that b by auto
  ultimately show ?thesis using addr by (simp add: wrote_file_def)
qed

lemma wrote_file_trans:
  assumes "wrote_file x nb off (take m src) B B1" "wrote_file x nb (off + m) (drop m src) B1 B2" "m \<le> length src"
  shows "wrote_file x nb off src B B2"
proof -
  have im: "baddr B1 x ` {..<nb} = baddr B x ` {..<nb}" using assms(1) by (auto simp: wrote_file_def)
  have "fbyte B2 x i = (if off \<le> i \<and> i < off + length src then src ! (i - off) else fbyte B x i)" if "i < nb * BSIZE" for i
    using assms that by (auto simp: wrote_file_def min_def)
  then show ?thesis using assms(1,2) im by (simp add: wrote_file_def)
qed

lemma wrote_file_Nil: "wrote_file x nb off [] B B"
  by (auto simp: wrote_file_def)

lemma file_wf_step:
  assumes "file_wf s x nb" "wrote_file x nb off ys (blk s) (blk t)" "only_log s t"
  shows "file_wf t x nb"
proof -
  have eq: "baddr (blk t) x bn = baddr (blk s) x bn" if "bn < nb" for bn using assms(2) that by (simp add: wrote_file_def)
  then have "baddr (blk t) x ` {..<nb} = baddr (blk s) x ` {..<nb}" "inj_on (baddr (blk t) x) {..<nb} = inj_on (baddr (blk s) x) {..<nb}"
    using inj_on_cong [of "{..<nb}" "baddr (blk t) x" "baddr (blk s) x"] by simp_all
  then show ?thesis using assms(1) eq only_logD [OF assms(3)] by (simp add: file_wf_def file_ok_def)
qed

text \<open>The number of blocks that a write touches.\<close>

definition touched :: "nat \<Rightarrow> nat \<Rightarrow> nat" where
  "touched off n = (if n = 0 then 0 else Suc ((off + n - 1) div BSIZE - off div BSIZE))"

lemma touched_step:
  assumes "0 < n" "m = min n (BSIZE - off mod BSIZE)"
  shows "touched off n = Suc (touched (off + m) (n - m))"
proof (cases "n \<le> BSIZE - off mod BSIZE")
  case True
  have e: "off + n - 1 = off div BSIZE * BSIZE + (off mod BSIZE + n - 1)" using assms(1) div_mult_mod_eq [of off BSIZE] by linarith
  have "off mod BSIZE + n - 1 < BSIZE" using True assms(1) mod_less_divisor [OF BSIZE_pos, of off] by linarith
  then have "(off + n - 1) div BSIZE = off div BSIZE" unfolding e by simp
  then show ?thesis using True assms by (simp add: touched_def)
next
  case False
  then have m: "m = BSIZE - off mod BSIZE" "m < n" using assms(2) by auto
  then have om: "off + m = (off div BSIZE + 1) * BSIZE"
    using mod_less_divisor [OF BSIZE_pos, of off] div_mult_mod_eq [of off BSIZE] unfolding add_mult_distrib by linarith
  have "(off + m) div BSIZE \<le> (off + n - 1) div BSIZE" using m(2) by (intro div_le_mono) simp
  moreover have "off + m + (n - m) - 1 = off + n - 1" using m(2) by simp
  moreover have "(off + m) div BSIZE = Suc (off div BSIZE)" unfolding om by simp
  ultimately show ?thesis using m(2) by (simp add: touched_def)
qed

lemma wp_writei_loop:
  assumes "trans_ok {} (k + touched off (length src)) s" "file_wf s x nb" "off + length src \<le> nb * BSIZE" "x = inodes s ! ip"
  shows "wp (writei_loop ip off src) (\<lambda>_ t. wrote_file x nb off src (blk s) (blk t) \<and> blk_step {} k (blk t) s t) s"
  using assms
proof (induction ip off src arbitrary: s rule: writei_loop.induct)
  case (1 ip off src)
  show ?case
  proof (cases "src = []")
    case True
    have "trans_ok {} k s" using 1(2) True by (simp add: touched_def)
    then have "blk_step {} k (blk s) s s" using reads_refl [OF trans_can_read] by (intro reads_blk_step)
    then show ?thesis using True by (simp add: writei_loop.simps wrote_file_Nil)
  next
    case False
    define m where "m = min (length src) (BSIZE - off mod BSIZE)"
    define k' where "k' = k + touched (off + m) (length src - m)"
    let ?a = "baddr (blk s) x (off div BSIZE)"
    have tr: "trans_ok {} (Suc k') s" using 1(2) touched_step [of "length src" m off] False by (simp add: k'_def m_def)
    note can = trans_can_read [OF tr]
    have "off < nb * BSIZE" using 1(4) False by (cases src) simp_all
    then have bn: "off div BSIZE < nb" by (simp add: less_mult_imp_div_less)
    have len: "length (blk s ?a) = BSIZE" using can length_blk [of "{}" s] by (simp add: can_read_def)
    have "m \<le> BSIZE - off mod BSIZE" "off mod BSIZE < BSIZE" by (simp_all add: m_def)
    then have m: "m \<le> length src" "off mod BSIZE + length (take m src) \<le> BSIZE" by (simp_all add: m_def, linarith)
    note w1 = wrote_file_block [OF 1(3) bn refl len m(2)]
    have rest: "wp (writei_loop ip (off + m) (drop m src)) (\<lambda>_ t. wrote_file x nb off src (blk s) (blk t) \<and> blk_step {} k (blk t) s t) u"
      if u: "blk_step {} k' ((blk s)(?a := patch (off mod BSIZE) (take m src) (blk s ?a))) s u" for u
    proof -
      have u': "trans_ok {} k' u" "wrote_file x nb off (take m src) (blk s) (blk u)" "only_log s u" using u w1 by (auto simp: blk_step_def)
      have "wp (writei_loop ip (off + m) (drop m src)) (\<lambda>_ t. wrote_file x nb (off + m) (drop m src) (blk u) (blk t) \<and> blk_step {} k (blk t) u t) u"
        using u'(1) 1(4,5) m(1) only_log_fs(1) [OF u'(3)]
        by (intro 1(1) [OF False m_def] file_wf_step [OF 1(3) u'(2,3)]) (simp_all add: k'_def)
      then show ?thesis
        by (rule wp_mono) (use wrote_file_trans [OF u'(2) _ m(1)] blk_step_trans [OF u] in blast)
    qed
    have block: "wp (bind (gets (\<lambda>s. i_dev (inodes s ! ip))) (\<lambda>dev. bind (bread dev ?a) (\<lambda>bp. bind (gets (\<lambda>s. b_data (bufs s ! bp))) (\<lambda>d.
        andthen (set_data bp (patch (off mod BSIZE) (take m src) d)) (andthen (log_write bp) (andthen (brelse bp)
        (writei_loop ip (off + m) (drop m src))))))))
        (\<lambda>_ t. wrote_file x nb off src (blk s) (blk t) \<and> blk_step {} k (blk t) s t) t" if t: "reads {} s t" for t
    proof -
      have st: "blk_step {} (Suc k') (blk s) s t" using reads_blk_step [OF tr t] .
      then have tt: "trans_ok {} (Suc k') t" "blk t = blk s" "only_log s t" by (simp_all add: blk_step_def)
      note ft = only_logD [OF tt(3)] only_log_fs [OF tt(3)]
      have a: "?a < disksize t" "1 < ?a" "\<not> log_region (lg_start t) (lg_size t) ?a" "i_dev (inodes t ! ip) = 1"
        using 1(3,5) bn ft by (auto simp: file_wf_def file_ok_def)
      have "length (patch (off mod BSIZE) (take m src) (blk t ?a)) = BSIZE" using m(2) len tt(2) by (simp add: length_patch)
      from trans_update [where f = "patch (off mod BSIZE) (take m src)", OF tt(1) a(1) _ a(2,3) this]
      have "wp (bind (bread 1 ?a) (\<lambda>i. bind (gets (\<lambda>s. b_data (bufs s ! i))) (\<lambda>d. andthen (set_data i (patch (off mod BSIZE) (take m src) d))
          (andthen (log_write i) (brelse i))))) (\<lambda>_. wp (writei_loop ip (off + m) (drop m src))
          (\<lambda>_ t. wrote_file x nb off src (blk s) (blk t) \<and> blk_step {} k (blk t) s t)) t"
        by (rule wp_mono) (use rest [OF blk_step_trans [OF st]] tt(2) in auto)
      then show ?thesis using a(4) by simp
    qed
    have "wp (bmap ip (off div BSIZE)) (\<lambda>a t. a = ?a \<and> reads {} s t) s" using can 1(3,5) bn by (intro wp_bmap) (simp_all add: file_wf_def)
    then have "wp (bind (bmap ip (off div BSIZE)) (\<lambda>a. bind (gets (\<lambda>s. i_dev (inodes s ! ip))) (\<lambda>dev. bind (bread dev a) (\<lambda>bp.
        bind (gets (\<lambda>s. b_data (bufs s ! bp))) (\<lambda>d. andthen (set_data bp (patch (off mod BSIZE) (take m src) d)) (andthen (log_write bp)
        (andthen (brelse bp) (writei_loop ip (off + m) (drop m src)))))))))
        (\<lambda>_ t. wrote_file x nb off src (blk s) (blk t) \<and> blk_step {} k (blk t) s t) s"
      unfolding wp_bind [of "bmap ip (off div BSIZE)"] by (rule wp_mono) (use block in auto)
    then show ?thesis using False by (simp add: writei_loop.simps [of ip off src] m_def Let_def)
  qed
qed

section \<open>Inodes on disk\<close>

lemma length_put_uints: "off + 4 * length vs \<le> length d \<Longrightarrow> length (put_uints off vs d) = length d"
  by (induction off vs d rule: put_uints.induct) simp_all

lemma length_put_dinode: "off + 64 \<le> length d \<Longrightarrow> length (d_addrs y) = Suc NDIRECT \<Longrightarrow> length (put_dinode off y d) = length d"
  by (simp add: put_dinode_def NDIRECT_def length_put_uints length_put_le)

definition dinode_of :: "inode \<Rightarrow> dinode" where
  "dinode_of x = \<lparr>d_type = i_type x, d_major = i_major x, d_minor = i_minor x, d_nlink = i_nlink x, d_size = i_size x, d_addrs = i_addrs x\<rparr>"

text \<open>The block that holds an inode is one that may be logged.\<close>

definition iblock_ok :: "'a fs_st_scheme \<Rightarrow> inode \<Rightarrow> bool" where
  "iblock_ok s x \<longleftrightarrow> i_dev x = 1 \<and> length (i_addrs x) = Suc NDIRECT \<and> IBLOCK (i_inum x) (fs_sb s) < disksize s \<and>
     1 < IBLOCK (i_inum x) (fs_sb s) \<and> \<not> log_region (lg_start s) (lg_size s) (IBLOCK (i_inum x) (fs_sb s))"

lemma wp_iupdate:
  assumes tr: "trans_ok {} (Suc k) s" and x: "x = inodes s ! ip" and ib: "iblock_ok s x" and b: "b = IBLOCK (i_inum x) (fs_sb s)"
  shows "wp (iupdate ip) (\<lambda>_. blk_step {} k ((blk s)(b := put_dinode (64 * (i_inum x mod IPB)) (dinode_of x) (blk s b))) s) s"
proof -
  have "length (blk s b) = BSIZE" using trans_can_read [OF tr] length_blk [of "{}" s] by (simp add: can_read_def)
  moreover have "64 * (i_inum x mod IPB) + 64 \<le> BSIZE"
    using mod_less_divisor [of IPB "i_inum x"] by (simp add: IPB_def BSIZE_def)
  ultimately have "length (put_dinode (64 * (i_inum x mod IPB)) (dinode_of x) (blk s b)) = BSIZE"
    using ib by (simp add: length_put_dinode dinode_of_def iblock_ok_def)
  with ib show ?thesis unfolding b iblock_ok_def
    using trans_update [OF tr, of b "put_dinode (64 * (i_inum x mod IPB)) (dinode_of x)"]
    by (simp add: iupdate_def x [symmetric] dinode_of_def b)
qed

lemma trans_ok_inodes [simp]: "trans_ok H k (s\<lparr>inodes := xs\<rparr>) = trans_ok H k s" "blk (s\<lparr>inodes := xs\<rparr>) = blk s" for s :: "'a fs_st_scheme"
  by (simp_all add: trans_ok_def log_ok_def bio_ok_def bio_ctx_def dirty_blocks_def my_pid_def fun_eq_iff blk_def split: option.split)

text \<open>Writing the inode's block leaves the file alone.\<close>

lemma wrote_file_iblock:
  assumes "wrote_file x nb off src B B'" "b \<notin> baddr B x ` {..<nb}" "NDIRECT < nb \<longrightarrow> i_addrs x ! NDIRECT \<noteq> b"
  shows "(\<forall>bn < nb. baddr (B'(b := d)) x bn = baddr B x bn)"
    "(\<forall>i < nb * BSIZE. fbyte (B'(b := d)) x i = (if off \<le> i \<and> i < off + length src then src ! (i - off) else fbyte B x i))"
proof -
  show addr: "\<forall>bn < nb. baddr (B'(b := d)) x bn = baddr B x bn"
    using baddr_other [OF assms(3)] assms(1) by (simp add: wrote_file_def)
  have "fbyte (B'(b := d)) x i = fbyte B' x i" if "i < nb * BSIZE" for i
  proof -
    have "i div BSIZE < nb" using that by (simp add: less_mult_imp_div_less)
    then have "baddr (B'(b := d)) x (i div BSIZE) = baddr B' x (i div BSIZE)" "baddr B' x (i div BSIZE) \<noteq> b"
      using addr assms(1,2) by (auto simp: wrote_file_def)
    then show ?thesis by (simp add: fbyte_def)
  qed
  then show "\<forall>i < nb * BSIZE. fbyte (B'(b := d)) x i = (if off \<le> i \<and> i < off + length src then src ! (i - off) else fbyte B x i)"
    using assms(1) by (simp add: wrote_file_def)
qed

lemma trans_ok_Suc: "trans_ok H (Suc k) s \<Longrightarrow> trans_ok H k s"
  by (simp add: trans_ok_def)

text \<open>What a write of \<open>src\<close> at \<open>off\<close> does to the file of inode \<open>x\<close>, whose block on disk is \<open>b\<close>.\<close>

definition writei_post :: "nat \<Rightarrow> 'a fs_st_scheme \<Rightarrow> nat \<Rightarrow> nat \<Rightarrow> uint \<Rightarrow> byte list \<Rightarrow> int \<Rightarrow> 'a fs_st_scheme \<Rightarrow> bool" where
  "writei_post k s ip nb off src r t \<longleftrightarrow>
     (let x = inodes s ! ip; b = IBLOCK (i_inum x) (fs_sb s) in
      r = int (length src) \<and> trans_ok {} k t \<and>
      inodes t = (inodes s)[ip := x\<lparr>i_size := max (i_size x) (off + of_nat (length src))\<rparr>] \<and>
      (\<forall>bn < nb. baddr (blk t) x bn = baddr (blk s) x bn) \<and>
      (\<forall>i < nb * BSIZE. fbyte (blk t) x i = (if unat off \<le> i \<and> i < unat off + length src then src ! (i - unat off) else fbyte (blk s) x i)) \<and>
      (\<forall>a. a \<notin> baddr (blk s) x ` {..<nb} \<and> a \<noteq> b \<longrightarrow> blk t a = blk s a))"

text \<open>The end of \<^verbatim>\<open>writei\<close>: the inode is written when the file has grown.\<close>

lemma wp_writei_size:
  assumes t: "wrote_file x nb (unat off) src (blk s) (blk t)" "blk_step {} (Suc k) (blk t) s t" and x: "x = inodes s ! ip" "off \<le> i_size x"
    and ib: "iblock_ok s x" "b = IBLOCK (i_inum x) (fs_sb s)" "b \<notin> baddr (blk s) x ` {..<nb}" "NDIRECT < nb \<longrightarrow> i_addrs x ! NDIRECT \<noteq> b"
      "ip < length (inodes s)" and n: "n = of_nat (length src)" "sint n = int (length src)"
  shows "wp (bind (gets (\<lambda>s. i_size (inodes s ! ip))) (\<lambda>sz. andthen (whenK (n > 0 \<and> off + n > sz)
      (andthen (modify (upd_inode ip (\<lambda>y. y\<lparr>i_size := off + n\<rparr>))) (iupdate ip))) (ret (sint n)))) (writei_post k s ip nb off src) t"
proof -
  have tt: "trans_ok {} (Suc k) t" "only_log s t" using t(2) by (simp_all add: blk_step_def)
  note ft = only_log_fs [OF tt(2)] only_logD [OF tt(2)]
  show ?thesis
  proof (cases "off + n > i_size x")
    case False
    then have "max (i_size x) (off + n) = i_size x" by (simp add: max_def)
    then have "writei_post k s ip nb off src (int (length src)) t"
      using t(1) trans_ok_Suc [OF tt(1)] ft x(1) n(1) by (simp add: writei_post_def wrote_file_def)
    then show ?thesis using False ft(1) x(1) n(2) by simp
  next
    case True
    then have pos: "n > 0" using x(2) by (cases "n = 0") (auto simp: word_neq_0_conv)
    have max: "max (i_size x) (off + n) = off + n" by (rule max_absorb2) (use True in simp)
    define u where "u = t\<lparr>inodes := (inodes t)[ip := x\<lparr>i_size := off + n\<rparr>]\<rparr>"
    have u: "inodes u ! ip = x\<lparr>i_size := off + n\<rparr>" "trans_ok {} (Suc k) u" "blk u = blk t" "fs_sb u = fs_sb s"
      using ib(5) ft tt(1) by (simp_all add: u_def)
    have "iblock_ok u (x\<lparr>i_size := off + n\<rparr>)" using ib(1) ft by (simp add: iblock_ok_def u_def)
    from wp_iupdate [OF u(2) u(1) [symmetric] this refl]
    have "wp (iupdate ip) (\<lambda>_. writei_post k s ip nb off src (int (length src))) u"
    proof (rule wp_mono, goal_cases)
      case (1 r v)
      obtain d where v: "blk v = (blk t)(b := d)" "trans_ok {} k v" "only_log u v" using 1 u ib(2) by (auto simp: blk_step_def)
      then show ?case using only_log_fs(1) [OF v(3)] wrote_file_iblock [OF t(1) ib(3,4)] t(1) ft(1) max ib(2)
        unfolding writei_post_def Let_def x(1) [symmetric] n(1) [symmetric] by (simp add: v(1) u_def wrote_file_def)
    qed
    then show ?thesis using True pos ft(1) x(1) n(2) by (simp add: upd_inode_def u_def)
  qed
qed


section \<open>Allocating blocks\<close>

text \<open>Bits of the bitmap.\<close>

lemma AND_bit: "x AND 2 ^ k \<noteq> 0 \<longleftrightarrow> bit x k" for x :: byte
proof -
  have "x AND 2 ^ k = (if bit x k then 2 ^ k else 0)"
    by (rule bit_word_eqI) (auto simp: bit_and_iff bit_exp_iff)
  moreover have "bit x k \<Longrightarrow> (2 :: byte) ^ k \<noteq> 0" using bit_imp_possible_bit [of x k] by (auto simp: possible_bit_def)
  ultimately show ?thesis by auto
qed

lemma bm_test_set:
  assumes "length d = BSIZE" "bi < BPB" "bj < BPB"
  shows "bm_test (bm_set d bi) bj \<longleftrightarrow> bj = bi \<or> bm_test d bj"
proof -
  have lt: "bi div 8 < BSIZE" "bj div 8 < BSIZE" using assms(2,3) by (simp_all add: BPB_def less_mult_imp_div_less)
  have eq: "bj = bi \<longleftrightarrow> bj div 8 = bi div 8 \<and> bj mod 8 = bi mod 8" by (metis div_mult_mod_eq)
  have b: "bit (2 ^ (m mod 8) :: byte) (n mod 8) \<longleftrightarrow> n mod 8 = m mod 8" for m n by (auto simp: bit_exp_iff possible_bit_def)
  show ?thesis
  proof (cases "bj div 8 = bi div 8")
    case True
    then show ?thesis unfolding eq using lt assms(1)
      by (auto simp: bm_test_def bm_set_def AND_bit bit_or_iff b)
  next
    case False
    then show ?thesis unfolding eq using lt assms(1) by (simp add: bm_test_def bm_set_def nth_list_update)
  qed
qed

definition blk_free :: "superblock \<Rightarrow> blks \<Rightarrow> nat \<Rightarrow> bool" where
  "blk_free sb B n \<longleftrightarrow> n < sb_size sb \<and> \<not> bm_test (B (BBLOCK n sb)) (n mod BPB)"

text \<open>The blocks of the bitmap and the free blocks may be logged, and no block of the bitmap is free.\<close>

definition bitmap_ok :: "superblock \<Rightarrow> 'a log_st_scheme \<Rightarrow> bool" where
  "bitmap_ok sb s \<longleftrightarrow>
     (\<forall>n < sb_size sb. BBLOCK n sb < disksize s \<and> 1 < BBLOCK n sb \<and> \<not> log_region (lg_start s) (lg_size s) (BBLOCK n sb)) \<and>
     (\<forall>n. blk_free sb (blk s) n \<longrightarrow> n < disksize s \<and> 1 < n \<and> \<not> log_region (lg_start s) (lg_size s) n \<and> (\<forall>m < sb_size sb. n \<noteq> BBLOCK m sb))"

lemma BPB_pos [simp]: "0 < BPB"
  by (simp add: BPB_def)

lemma BBLOCK_base: "bi < BPB \<Longrightarrow> BBLOCK (j * BPB + bi) sb = BBLOCK (j * BPB) sb"
  by (simp add: BBLOCK_def)

lemma blk_free_alloc:
  assumes "blk_free sb B n" "length (B (BBLOCK n sb)) = BSIZE" "\<And>m. m < sb_size sb \<Longrightarrow> n \<noteq> BBLOCK m sb"
    and "B' = (B(BBLOCK n sb := bm_set (B (BBLOCK n sb)) (n mod BPB)))(n := d)"
  shows "blk_free sb B' m \<longleftrightarrow> blk_free sb B m \<and> m \<noteq> n"
proof (cases "m < sb_size sb")
  case True
  have mn: "m = n \<longleftrightarrow> m div BPB = n div BPB \<and> m mod BPB = n mod BPB" by (metis div_mult_mod_eq)
  have b: "B' (BBLOCK m sb) = (B(BBLOCK n sb := bm_set (B (BBLOCK n sb)) (n mod BPB))) (BBLOCK m sb)" using assms(3) [OF True] assms(4) by simp
  show ?thesis
  proof (cases "m div BPB = n div BPB")
    case True
    then have "BBLOCK m sb = BBLOCK n sb" by (simp add: BBLOCK_def)
    then show ?thesis using b True assms(2) mn by (auto simp: blk_free_def bm_test_set)
  next
    case False
    then have "BBLOCK m sb \<noteq> BBLOCK n sb" by (simp add: BBLOCK_def)
    then show ?thesis using b False by (auto simp: blk_free_def)
  qed
qed (simp add: blk_free_def)

text \<open>Reading a block and then either updating or releasing it, depending on its contents.\<close>

lemma trans_block_data:
  assumes "trans_ok {} (Suc k) s" "n < disksize s"
  shows "wp (bread 1 n) (\<lambda>i t. b_data (bufs t ! i) = blk s n) s"
  using wp_mono [OF trans_bread [OF assms]] by (simp add: bread_post_def)

lemma trans_update_then:
  assumes tr: "trans_ok {} (Suc k) s" and n: "n < disksize s" "1 < n" "\<not> log_region (lg_start s) (lg_size s) n" "length e = BSIZE"
    and F: "\<And>i. F i (blk s n) = andthen (set_data i e) (andthen (log_write i) (andthen (brelse i) rest))"
    and rest: "\<And>u. blk_step {} k ((blk s)(n := e)) s u \<Longrightarrow> wp rest Q u"
  shows "wp (bind (bread 1 n) (\<lambda>i. bind (gets (\<lambda>s. b_data (bufs s ! i))) (F i))) Q s"
proof -
  have "wp (bind (bread 1 n) (\<lambda>i. bind (gets (\<lambda>s. b_data (bufs s ! i))) (\<lambda>d. andthen (set_data i e) (andthen (log_write i) (brelse i)))))
      (\<lambda>_. wp rest Q) s"
    using trans_update [OF tr n(1) _ n(2,3), of "\<lambda>_. e"] n(4) rest by (intro wp_mono [OF trans_update [OF tr n(1) _ n(2,3), of "\<lambda>_. e"]]) auto
  then have "wp (bread 1 n) (\<lambda>i. wp (andthen (set_data i e) (andthen (log_write i) (andthen (brelse i) rest))) Q) s" by simp
  from wp_conj [OF this trans_block_data [OF tr n(1)]] show ?thesis
    unfolding wp_bind by (rule wp_mono) (simp add: F)
qed

lemma trans_read_then:
  assumes tr: "trans_ok {} (Suc k) s" and n: "n < disksize s"
    and F: "\<And>i. F i (blk s n) = andthen (brelse i) rest" and rest: "\<And>u. blk_step {} (Suc k) (blk s) s u \<Longrightarrow> wp rest Q u"
  shows "wp (bind (bread 1 n) (\<lambda>i. bind (gets (\<lambda>s. b_data (bufs s ! i))) (F i))) Q s"
proof (rule wp_read1)
  fix i t
  assume r: "reads {i} s t" "b_data (bufs t ! i) = blk s n"
  have "wp (brelse i) (\<lambda>_. wp rest Q) t"
    by (rule wp_mono [OF wp_brelse_reads [OF r(1)]]) (use rest reads_blk_step [OF tr] in blast)
  then show "wp (bind (gets (\<lambda>s. b_data (bufs s ! i))) (F i)) Q t" using r(2) F by simp
qed (use trans_can_read [OF tr] n in \<open>simp_all add: can_read_def\<close>)

lemma wp_bzero:
  assumes tr: "trans_ok {} (Suc k) s" and n: "n < disksize s" "1 < n" "\<not> log_region (lg_start s) (lg_size s) n"
  shows "wp (bzero 1 n) (\<lambda>_. blk_step {} k ((blk s)(n := replicate BSIZE 0)) s) s"
  using trans_update [OF tr n(1) _ n(2,3), of "\<lambda>_. replicate BSIZE 0"] by (simp add: bzero_def)

text \<open>What \<^verbatim>\<open>balloc\<close> does to the blocks: the bit of block \<open>n\<close> is set and the block is zeroed.\<close>

definition alloc_block :: "superblock \<Rightarrow> nat \<Rightarrow> blks \<Rightarrow> blks" where
  "alloc_block sb n B = (B(BBLOCK n sb := bm_set (B (BBLOCK n sb)) (n mod BPB)))(n := replicate BSIZE 0)"

lemma bm_free_Some:
  assumes "bm_free sz (j * BPB) d = Some bi"
  shows "bi < BPB" "j * BPB + bi < sz" "\<not> bm_test d bi"
  using assms by (auto simp: bm_free_def find_Some_iff)

lemma bm_free_None:
  assumes "bm_free sz (j * BPB) d = None" "n div BPB = j" "n < sz"
  shows "bm_test d (n mod BPB)"
  using assms div_mult_mod_eq [of n BPB] by (auto simp: bm_free_def find_None_iff)

lemma wp_balloc_loop:
  assumes "trans_ok {} (Suc (Suc k)) s" "bitmap_ok sb s" "blk_free sb (blk s) n0" "n0 div BPB \<in> set js" "\<forall>j \<in> set js. j * BPB < sb_size sb"
  shows "wp (balloc_loop 1 sb (map (\<lambda>j. j * BPB) js))
    (\<lambda>n t. blk_free sb (blk s) n \<and> blk_step {} k (alloc_block sb n (blk s)) s t) s"
  using assms
proof (induction js arbitrary: s)
  case (Cons j js)
  let ?b = "BBLOCK (j * BPB) sb"
  have b: "?b < disksize s" "1 < ?b" "\<not> log_region (lg_start s) (lg_size s) ?b"
    using Cons.prems(2,5) by (simp_all add: bitmap_ok_def)
  have len: "length (blk s ?b) = BSIZE" using Cons.prems(1) by (intro length_blk [of "{}"]) (simp add: trans_ok_def log_ok_def)
  show ?case
  proof (cases "bm_free (sb_size sb) (j * BPB) (blk s ?b)")
    case None
    have "\<not> n0 div BPB = j"
      using bm_free_None [OF None, of n0] Cons.prems(3) by (auto simp: blk_free_def BBLOCK_def)
    then have n0: "n0 div BPB \<in> set js" using Cons.prems(4) by auto
    show ?thesis unfolding list.map balloc_loop.simps
    proof (rule trans_read_then [OF Cons.prems(1) b(1)])
      fix u assume u: "blk_step {} (Suc (Suc k)) (blk s) s u"
      then have e: "blk u = blk s" "trans_ok {} (Suc (Suc k)) u" "only_log s u" by (simp_all add: blk_step_def)
      have "bitmap_ok sb u" using Cons.prems(2) e(1) only_logD [OF e(3)] by (simp add: bitmap_ok_def)
      from Cons.IH [OF e(2) this] show "wp (balloc_loop 1 sb (map (\<lambda>j. j * BPB) js))
          (\<lambda>n t. blk_free sb (blk s) n \<and> blk_step {} k (alloc_block sb n (blk s)) s t) u"
        using n0 Cons.prems(3,5) blk_step_trans [OF u] unfolding e(1) by (auto intro: wp_mono)
    qed (simp add: None)
  next
    case (Some bi)
    note bi = bm_free_Some [OF Some]
    let ?n = "j * BPB + bi"
    have n: "BBLOCK ?n sb = ?b" "?n mod BPB = bi" using bi(1) by (simp_all add: BBLOCK_base)
    then have fr: "blk_free sb (blk s) ?n" using bi by (simp add: blk_free_def)
    then have nb: "?n < disksize s" "1 < ?n" "\<not> log_region (lg_start s) (lg_size s) ?n"
      using Cons.prems(2) by (simp_all add: bitmap_ok_def)
    show ?thesis unfolding list.map balloc_loop.simps
    proof (rule trans_update_then [OF Cons.prems(1) b, of "bm_set (blk s ?b) bi"])
      show "length (bm_set (blk s ?b) bi) = BSIZE" using len by (simp add: bm_set_def)
    next
      fix u assume u: "blk_step {} (Suc k) ((blk s)(?b := bm_set (blk s ?b) bi)) s u"
      then have e: "blk u = (blk s)(?b := bm_set (blk s ?b) bi)" "trans_ok {} (Suc k) u" "only_log s u" by (simp_all add: blk_step_def)
      have z: "wp (bzero 1 ?n) (\<lambda>_. blk_step {} k ((blk u)(?n := replicate BSIZE 0)) u) u"
        using nb only_logD [OF e(3)] by (intro wp_bzero [OF e(2)]) simp_all
      have "(blk u)(?n := replicate BSIZE 0) = alloc_block sb ?n (blk s)" using bi(1) by (simp add: alloc_block_def e(1) n)
      with z show "wp (andthen (bzero 1 ?n) (ret ?n)) (\<lambda>n t. blk_free sb (blk s) n \<and> blk_step {} k (alloc_block sb n (blk s)) s t) u"
        using fr blk_step_trans [OF u] by (auto elim!: wp_mono)
    qed (simp add: Some)
  qed
qed simp

text \<open>C36: While a block is free, \<^verbatim>\<open>balloc\<close> returns a free block: it sets the block's bit in the bitmap, zeroes the block
  and changes no other block, so that exactly this block is no longer free.\<close>

theorem balloc_takes_free:
  assumes tr: "trans_ok {} (Suc (Suc k)) s" and bm: "bitmap_ok (fs_sb s) s" and n0: "blk_free (fs_sb s) (blk s) n0"
  shows "wp (balloc 1) (\<lambda>n t. blk_free (fs_sb s) (blk s) n \<and> trans_ok {} k t \<and> blk t n = replicate BSIZE 0 \<and>
    (\<forall>m. blk_free (fs_sb s) (blk t) m \<longleftrightarrow> blk_free (fs_sb s) (blk s) m \<and> m \<noteq> n) \<and>
    (\<forall>m. m \<noteq> n \<and> m \<noteq> BBLOCK n (fs_sb s) \<longrightarrow> blk t m = blk s m)) s"
proof -
  let ?sb = "fs_sb s" let ?js = "[0..<(sb_size ?sb + BPB - 1) div BPB]"
  have js: "j \<in> set ?js \<longleftrightarrow> j * BPB < sb_size ?sb" for j
  proof -
    have "Suc j \<le> (sb_size ?sb + BPB - 1) div BPB \<longleftrightarrow> Suc j * BPB \<le> sb_size ?sb + BPB - 1"
      by (rule less_eq_div_iff_mult_less_eq) simp
    moreover have "Suc j * BPB \<le> sb_size ?sb + BPB - 1 \<longleftrightarrow> j * BPB < sb_size ?sb"
      using BPB_pos by (simp only: mult_Suc) linarith
    ultimately show ?thesis by (simp add: Suc_le_eq)
  qed
  have "n0 div BPB * BPB < sb_size ?sb" using n0 le_less_trans [OF div_times_less_eq_dividend [of n0 BPB]] by (simp add: blk_free_def)
  then have "wp (balloc_loop 1 ?sb (map (\<lambda>j. j * BPB) ?js))
      (\<lambda>n t. blk_free ?sb (blk s) n \<and> blk_step {} k (alloc_block ?sb n (blk s)) s t) s"
    using js by (intro wp_balloc_loop [OF tr bm n0]) blast+
  moreover have "blk_free ?sb (alloc_block ?sb n (blk s)) m \<longleftrightarrow> blk_free ?sb (blk s) m \<and> m \<noteq> n" if "blk_free ?sb (blk s) n" for n m
  proof -
    have "length (blk s (BBLOCK n ?sb)) = BSIZE" using tr by (intro length_blk [of "{}"]) (simp add: trans_ok_def log_ok_def)
    then show ?thesis using that bm by (intro blk_free_alloc [OF that]) (auto simp: bitmap_ok_def alloc_block_def)
  qed
  ultimately show ?thesis
    unfolding balloc_def bm_bases_def by (auto simp: blk_step_def alloc_block_def elim!: wp_mono)
qed

section \<open>A file system\<close>

text \<open>A log with one system call under way, that has written a bitmap with 128 blocks in use to block 45, and block 100; inode 1 is a file of
  one block, block 100.\<close>

lemma wp_log_block_blk:
  assumes tr: "trans_ok {} (Suc k) s" and n: "loggable s n" "length (f n) = BSIZE"
  shows "wp (log_block f n) (\<lambda>_. blk_step {} k ((blk s)(n := f n)) s) s"
  using trans_update [OF tr, of n "\<lambda>_. f n"] n by (simp add: log_block_def loggable_def)

definition bm_block :: "byte list" where
  "bm_block = replicate 16 255 @ replicate 496 0"

definition fs_tx :: "(log_st, unit) kop" where
  "fs_tx = andthen tx_boot (andthen begin_op (andthen (log_block (\<lambda>_. bm_block) 45) (log_block (\<lambda>_. replicate BSIZE 7) 100)))"

definition fs_log :: log_st where
  "fs_log = snd (projr (fs_tx log_boot))"

lemma fs_log_ok:
  "trans_ok {} 20 fs_log" "blk fs_log 45 = bm_block" "blk fs_log 100 = replicate BSIZE 7"
  "lg_start fs_log = 2" "lg_size fs_log = 30" "disksize fs_log = 1000"
proof -
  obtain s where s: "tx_boot log_boot = Inr ((), s)" "log_ok {} s" "lh s = []" "lg_start s = 2" "lg_size s = 30" "lg_outstanding s = 0"
    "\<not> lg_committing s" "disksize s = 1000" using tx_boot_ok by blast
  let ?u = "s\<lparr>lg_outstanding := 1\<rparr>"
  have 1: "wp begin_op (\<lambda>_ t. t = s\<lparr>lg_outstanding := lg_outstanding s + 1\<rparr>) s"
    using s by (intro wp_begin_op) (auto simp: log_ok_def MAXOPBLOCKS_def LOGSIZE_def)
  then have u: "begin_op s = Inr ((), ?u)" using wp_returns [OF 1] s(6) by auto
  have "trans_ok {} (Suc 21) ?u" using s by (simp add: trans_ok_def NBUF_def)
  then have "wp (log_block (\<lambda>_. bm_block) 45) (\<lambda>_. blk_step {} 21 ((blk ?u)(45 := bm_block)) ?u) ?u"
    using s by (intro wp_log_block_blk) (simp_all add: loggable_def log_region_def bm_block_def BSIZE_def)
  from wp_returns [OF this] obtain v where v: "log_block (\<lambda>_. bm_block) 45 ?u = Inr ((), v)" "trans_ok {} 21 v" "only_log ?u v"
    "blk v = (blk ?u)(45 := bm_block)" by (auto simp: blk_step_def)
  note vf = only_logD [OF v(3)]
  have "wp (log_block (\<lambda>_. replicate BSIZE 7) 100) (\<lambda>_. blk_step {} 20 ((blk v)(100 := replicate BSIZE 7)) v) v"
    using v(2) vf s by (intro wp_log_block_blk) (simp_all add: loggable_def log_region_def)
  from wp_returns [OF this] obtain w where w: "log_block (\<lambda>_. replicate BSIZE 7) 100 v = Inr ((), w)" "trans_ok {} 20 w" "only_log v w"
    "blk w = (blk v)(100 := replicate BSIZE 7)" by (auto simp: blk_step_def)
  note wf = only_logD [OF w(3)]
  have "fs_log = w" using s(1) u v(1) w(1) by (simp add: fs_log_def fs_tx_def andthen_def bind_def)
  then show "trans_ok {} 20 fs_log" "blk fs_log 45 = bm_block" "blk fs_log 100 = replicate BSIZE 7"
    "lg_start fs_log = 2" "lg_size fs_log = 30" "disksize fs_log = 1000"
    using w v(4) vf wf s by simp_all
qed

definition inode_demo :: inode where
  "inode_demo = \<lparr>i_dev = 1, i_inum = 1, i_ref = 1, i_lock = \<lparr>sl_locked = True, sl_pid = 1\<rparr>, i_valid = True, i_type = 2,
     i_major = 0, i_minor = 0, i_nlink = 1, i_size = 512, i_addrs = 100 # replicate 12 0\<rparr>"

definition fs_demo :: fs_st where
  "fs_demo = con_st.extend (log_st.extend fs_log (con_st.fields True False []
       \<lparr>in_buf = replicate INPUT_BUF 0, in_r = 0, in_w = 0, in_e = 0\<rparr>))
     (fs_st.fields \<lparr>sb_size = 1000, sb_nblocks = 941, sb_ninodes = 200, sb_nlog = 30, sb_logstart = 2, sb_inodestart = 32, sb_bmapstart = 45\<rparr>
       [inode_demo] [])"

lemma fs_demo_ok:
  "trans_ok {} 20 fs_demo" "blk fs_demo = blk fs_log" "lg_start fs_demo = 2" "lg_size fs_demo = 30" "disksize fs_demo = 1000"
  "inodes fs_demo = [inode_demo]"
  "fs_sb fs_demo = \<lparr>sb_size = 1000, sb_nblocks = 941, sb_ninodes = 200, sb_nlog = 30, sb_logstart = 2, sb_inodestart = 32, sb_bmapstart = 45\<rparr>"
  using fs_log_ok
  by (simp_all add: fs_demo_def log_st.defs con_st.defs fs_st.defs trans_ok_def log_ok_def bio_ok_def bio_ctx_def dirty_blocks_def
      my_pid_def fun_eq_iff blk_def split: option.split)

lemma fs_demo_file: "file_wf fs_demo inode_demo 1" "iblock_ok fs_demo inode_demo" "IBLOCK 1 (fs_sb fs_demo) = 32"
  by (simp_all add: file_wf_def file_ok_def baddr_def fs_demo_ok fs_log_ok inode_demo_def MAXFILE_def NDIRECT_def iblock_ok_def IBLOCK_def
      IPB_def BSIZE_def log_region_def inj_on_def)

lemma fs_demo_bytes: "i < 512 \<Longrightarrow> fbyte (blk fs_demo) inode_demo i = 7"
  by (simp add: fbyte_def baddr_def fs_demo_ok fs_log_ok inode_demo_def BSIZE_def NDIRECT_def)

theorem readi_contents_witness:
  "wp (readi 0 500 100) (\<lambda>(r, d) t. d = replicate 12 7 \<and> r = 12) fs_demo"
proof -
  have "can_read fs_demo" using trans_can_read fs_demo_ok(1) by blast
  moreover have "inode_demo = inodes fs_demo ! 0" "i_type inode_demo \<noteq> T_DEV" "unat (i_size inode_demo) \<le> 1 * BSIZE"
    by (simp_all add: fs_demo_ok inode_demo_def T_DEV_def BSIZE_def)
  moreover have "file_ok (disksize fs_demo) (blk fs_demo) inode_demo 1" using fs_demo_file(1) by (simp add: file_wf_def)
  ultimately have w: "wp (readi 0 500 100) (\<lambda>(r, d) t.
      (if (500 :: uint) > i_size inode_demo \<or> (500 :: uint) + 100 < 500 then r = - 1 \<and> d = []
       else d = map (fbyte (blk fs_demo) inode_demo) [unat (500 :: uint)..<min (unat (500 :: uint) + unat (100 :: uint)) (unat (i_size inode_demo))] \<and>
         r = int (length d)) \<and> blk t = blk fs_demo \<and> inodes t = inodes fs_demo) fs_demo"
    using readi_contents [of fs_demo inode_demo 0 1 500 100] by blast
  have "map (fbyte (blk fs_demo) inode_demo) [500..<512] = map (\<lambda>_. 7) [500..<512]"
    by (intro map_cong refl fs_demo_bytes) (simp only: set_upt atLeastLessThan_iff)
  also have "\<dots> = replicate 12 7" by (simp only: map_replicate_const length_upt) simp
  finally have "map (fbyte (blk fs_demo) inode_demo) [500..<512] = replicate 12 7" .
  moreover have "i_size inode_demo = 512" by (simp add: inode_demo_def)
  ultimately show ?thesis by (intro wp_mono [OF w]) (auto simp del: upt_Suc upt_rec_numeral)
qed


lemma bm_block_test: "bi < BPB \<Longrightarrow> bm_test bm_block bi \<longleftrightarrow> bi < 128"
proof -
  assume "bi < BPB"
  then have lt: "bi div 8 < 512" by (simp add: BPB_def BSIZE_def less_mult_imp_div_less)
  have m: "(255 :: byte) = mask 8" by (simp add: mask_eq_exp_minus_1)
  have "bm_block ! (bi div 8) = (if bi div 8 < 16 then 255 else 0)" using lt by (simp add: bm_block_def nth_append)
  moreover have "bit (255 :: byte) (bi mod 8)" unfolding m by (simp add: bit_mask_iff)
  ultimately show ?thesis by (auto simp: bm_test_def AND_bit)
qed

lemma fs_demo_free: "blk_free (fs_sb fs_demo) (blk fs_demo) n \<longleftrightarrow> 128 \<le> n \<and> n < 1000"
  using bm_block_test [of n] fs_log_ok(2) by (auto simp: blk_free_def fs_demo_ok(2,7) BBLOCK_def BPB_def BSIZE_def)

theorem balloc_takes_free_witness:
  "wp (balloc 1) (\<lambda>n t. 128 \<le> n \<and> n < 1000 \<and> blk t n = replicate BSIZE 0 \<and> \<not> blk_free (fs_sb fs_demo) (blk t) n) fs_demo"
proof -
  have tr: "trans_ok {} (Suc (Suc 18)) fs_demo" using fs_demo_ok(1) by simp
  have bm: "bitmap_ok (fs_sb fs_demo) fs_demo"
    unfolding bitmap_ok_def fs_demo_free by (simp add: fs_demo_ok(3-7) BBLOCK_def BPB_def BSIZE_def log_region_def)
  have fr: "blk_free (fs_sb fs_demo) (blk fs_demo) 200" by (simp add: fs_demo_free)
  show ?thesis
    by (rule wp_mono [OF balloc_takes_free [OF tr bm fr]]) (auto simp: fs_demo_free)
qed

end
