(* ===== verification/Seg.thy ===== *)
theory Seg
  imports Xv6_Prelude
begin

text \<open>
  Segment and gate descriptors: \<^verbatim>\<open>include/xv6/seg.h\<close>, \<^verbatim>\<open>include/xv6/trap.h\<close>, the segment part of \<^verbatim>\<open>kernel/vm.c\<close>
  (\<^verbatim>\<open>seginit\<close>) and the interrupt descriptor table of \<^verbatim>\<open>kernel/trap.c\<close> (\<^verbatim>\<open>tvinit\<close>). The decoders say what the
  processor reads in a descriptor, after the layout drawn in \<^verbatim>\<open>seg.h\<close>.
\<close>

section \<open>Segment descriptors\<close>

text \<open>\<^verbatim>\<open>struct segdesc\<close>: a union of the fields of a descriptor and of the upper half of a system descriptor.\<close>

datatype segdesc =
    Seg_lo (lim_15_0: ushort) (base_15_0: ushort) (base_23_16: uchar) (access: uchar) (flags_and_lim_19_16: uchar) (base_31_24: uchar)
  | Seg_hi (base_63_32: uint) (reserved: uint)

definition SEGDESC :: "ulong \<Rightarrow> ulong \<Rightarrow> uint \<Rightarrow> uint \<Rightarrow> segdesc" where
  "SEGDESC base limit acc flags =
     Seg_lo (ucast (limit AND 0xffff)) (ucast (base AND 0xffff)) (ucast (drop_bit 16 base AND 0xff)) (ucast acc)
       (ucast (ucast (push_bit 4 flags) OR (drop_bit 16 limit AND 0xf))) (ucast (drop_bit 24 base AND 0xff))"

definition SEGDESC_NULL :: segdesc where "SEGDESC_NULL = Seg_lo 0 0 0 0 0 0"

definition sizeof_taskstate :: ulong where "sizeof_taskstate = 108"

text \<open>Of \<^verbatim>\<open>struct taskstate\<close>, the two fields the kernel sets: the stack for entering the kernel and the offset of the
  I/O permission bitmap.\<close>

record taskstate =
  rsp0 :: ulong
  iopb :: uint

definition TSSDESC_LO :: "ulong \<Rightarrow> segdesc" where
  "TSSDESC_LO base = SEGDESC base (sizeof_taskstate - 1) 0x89 0x0"

definition TSSDESC_HI :: "ulong \<Rightarrow> segdesc" where
  "TSSDESC_HI base = Seg_hi (ucast (drop_bit 32 base)) 0"

definition SEGDESC_FLAT :: "uint \<Rightarrow> uint \<Rightarrow> segdesc" where
  "SEGDESC_FLAT acc flags = SEGDESC 0x00000000 0x000fffff acc flags"

definition SEGDESC32_DATA :: "uint \<Rightarrow> segdesc" where
  "SEGDESC32_DATA dpl = SEGDESC_FLAT (0x92 OR push_bit 5 dpl) 0xC"

definition SEGDESC64_CODE :: "uint \<Rightarrow> segdesc" where
  "SEGDESC64_CODE dpl = SEGDESC_FLAT (0x9A OR push_bit 5 dpl) 0xA"

definition NSEGS :: nat where "NSEGS = 7"
definition SEG_KCODE :: nat where "SEG_KCODE = 1"
definition SEG_KDATA :: nat where "SEG_KDATA = 2"
definition SEG_UCODE :: nat where "SEG_UCODE = 3"
definition SEG_UDATA :: nat where "SEG_UDATA = 4"
definition SEG_TSS :: nat where "SEG_TSS = 5"
definition SEG_TSS_HI :: nat where "SEG_TSS_HI = 6"
definition DPL_USER :: nat where "DPL_USER = 3"

text \<open>\<^verbatim>\<open>seginit\<close> fills the table of the CPU; the segment registers are then loaded from it.\<close>

definition seginit_gdt :: "segdesc list \<Rightarrow> segdesc list" where
  "seginit_gdt gdt = gdt[SEG_KCODE := SEGDESC64_CODE 0, SEG_KDATA := SEGDESC32_DATA 0,
     SEG_UCODE := SEGDESC64_CODE 3, SEG_UDATA := SEGDESC32_DATA 3]"

section \<open>Gates\<close>

record gatedesc =
  off_15_0 :: ushort
  g_cs :: ushort
  ist :: "3 word"
  rsv1 :: "5 word"
  g_type :: "4 word"
  g_s :: "1 word"
  g_dpl :: "2 word"
  g_p :: "1 word"
  off_31_16 :: ushort
  off_63_32 :: uint
  rsv2 :: uint

definition STS_IG32 :: "4 word" where "STS_IG32 = 0xE"
definition STS_TG32 :: "4 word" where "STS_TG32 = 0xF"

definition SETGATE :: "gatedesc \<Rightarrow> bool \<Rightarrow> ushort \<Rightarrow> ulong \<Rightarrow> nat \<Rightarrow> gatedesc" where
  "SETGATE gate istrap sel off d = gate\<lparr>
     off_15_0 := ucast (off AND 0xffff), g_cs := sel, ist := 0, rsv1 := 0, g_type := (if istrap then STS_TG32 else STS_IG32),
     g_s := 0, g_dpl := of_nat d, g_p := 1, off_31_16 := ucast (drop_bit 16 off AND 0xffff),
     off_63_32 := ucast (drop_bit 32 off AND 0xffffffff)\<rparr>"

definition T_SYSCALL :: nat where "T_SYSCALL = 64"
definition T_IRQ0 :: nat where "T_IRQ0 = 32"
definition IRQ_TIMER :: nat where "IRQ_TIMER = 0"
definition IRQ_KBD :: nat where "IRQ_KBD = 1"
definition IRQ_COM1 :: nat where "IRQ_COM1 = 4"
definition IRQ_IDE :: nat where "IRQ_IDE = 14"
definition IRQ_SPURIOUS :: nat where "IRQ_SPURIOUS = 31"

text \<open>The loop of \<^verbatim>\<open>tvinit\<close> over the table; \<open>vectors\<close> is the array of entry points of \<^verbatim>\<open>vectors.S\<close>.\<close>

fun tvinit_loop :: "ulong list \<Rightarrow> nat list \<Rightarrow> gatedesc list \<Rightarrow> gatedesc list" where
  "tvinit_loop vectors [] idt = idt"
| "tvinit_loop vectors (i # is) idt =
     tvinit_loop vectors is (idt[i := SETGATE (idt ! i) False (of_nat (SEG_KCODE * 8)) (vectors ! i) 0])"

definition tvinit_idt :: "ulong list \<Rightarrow> gatedesc list \<Rightarrow> gatedesc list" where
  "tvinit_idt vectors idt =
     (let idt' = tvinit_loop vectors [0..<256] idt
      in idt'[T_SYSCALL := SETGATE (idt' ! T_SYSCALL) True (of_nat (SEG_KCODE * 8)) (vectors ! T_SYSCALL) DPL_USER])"

section \<open>What the processor reads\<close>

definition seg_base :: "segdesc \<Rightarrow> ulong" where
  "seg_base d = ucast (base_15_0 d) OR push_bit 16 (ucast (base_23_16 d)) OR push_bit 24 (ucast (base_31_24 d))"

definition seg_limit :: "segdesc \<Rightarrow> ulong" where
  "seg_limit d = ucast (lim_15_0 d) OR push_bit 16 (ucast (flags_and_lim_19_16 d AND 0xf))"

definition seg_flags :: "segdesc \<Rightarrow> uchar" where
  "seg_flags d = drop_bit 4 (flags_and_lim_19_16 d)"

definition tss_base :: "segdesc \<Rightarrow> segdesc \<Rightarrow> ulong" where
  "tss_base lo hi = seg_base lo OR push_bit 32 (ucast (base_63_32 hi))"

definition gate_off :: "gatedesc \<Rightarrow> ulong" where
  "gate_off g = ucast (off_15_0 g) OR push_bit 16 (ucast (off_31_16 g)) OR push_bit 32 (ucast (off_63_32 g))"

section \<open>Descriptors say what they were built from\<close>

text \<open>Equality of words bit by bit, for masks and shifts by constants.\<close>

lemmas bit_parts = bit_or_iff bit_and_iff bit_push_bit_iff bit_drop_bit_eq bit_mask_iff bit_unsigned_iff

lemma mask_bits:
  "bit (0xffff :: int) n \<longleftrightarrow> n < 16" "bit (0xff :: int) n \<longleftrightarrow> n < 8" "bit (0xf :: int) n \<longleftrightarrow> n < 4"
  "bit (0xfffff :: int) n \<longleftrightarrow> n < 20" "bit (0xffffffff :: int) n \<longleftrightarrow> n < 32"
proof -
  have m: "(0xffff :: int) = mask 16" "(0xff :: int) = mask 8" "(0xf :: int) = mask 4" "(0xfffff :: int) = mask 20"
    "(0xffffffff :: int) = mask 32"
    by (simp_all add: mask_eq_exp_minus_1)
  show "bit (0xffff :: int) n \<longleftrightarrow> n < 16" "bit (0xff :: int) n \<longleftrightarrow> n < 8" "bit (0xf :: int) n \<longleftrightarrow> n < 4"
    "bit (0xfffff :: int) n \<longleftrightarrow> n < 20" "bit (0xffffffff :: int) n \<longleftrightarrow> n < 32"
    unfolding m by (simp_all only: bit_mask_iff) simp_all
qed

text \<open>A bit position below 64 lies in one of the pieces a descriptor is cut into.\<close>

lemma bit_pieces:
  fixes n :: nat
  obtains "n < 16" | k where "n = 16 + k" "k < 4" | k where "n = 20 + k" "k < 4" | k where "n = 24 + k" "k < 8" | k where "n = 32 + k"
proof -
  consider "n < 16" | "16 \<le> n \<and> n < 20" | "20 \<le> n \<and> n < 24" | "24 \<le> n \<and> n < 32" | "32 \<le> n" by linarith
  then show thesis
  proof cases
    case 2
    then show thesis using that(2) [of "n - 16"] by linarith
  next
    case 3
    then show thesis using that(3) [of "n - 20"] by linarith
  next
    case 4
    then show thesis using that(4) [of "n - 24"] by linarith
  next
    case 5
    then show thesis using that(5) [of "n - 32"] by simp
  qed (rule that(1))
qed

lemma gate_off_SETGATE [simp]: "gate_off (SETGATE g t sel off d) = off"
proof (rule bit_word_eqI)
  fix n
  show "bit (gate_off (SETGATE g t sel off d)) n = bit off n" if "n < LENGTH(64)"
    using that by (cases n rule: bit_pieces) (auto simp: gate_off_def SETGATE_def bit_parts mask_bits)
qed

lemma seg_base_SEGDESC: "seg_base (SEGDESC b l a f) = b AND 0xffffffff"
proof (rule bit_word_eqI)
  fix n
  show "bit (seg_base (SEGDESC b l a f)) n = bit (b AND 0xffffffff) n" if "n < LENGTH(64)"
    using that by (cases n rule: bit_pieces) (auto simp: seg_base_def SEGDESC_def bit_parts mask_bits)
qed

lemma seg_limit_SEGDESC: "seg_limit (SEGDESC b l a f) = l AND 0xfffff"
proof (rule bit_word_eqI)
  fix n
  show "bit (seg_limit (SEGDESC b l a f)) n = bit (l AND 0xfffff) n" if "n < LENGTH(64)"
    using that by (cases n rule: bit_pieces) (auto simp: seg_limit_def SEGDESC_def bit_parts mask_bits)
qed

lemma tss_base_TSSDESC: "tss_base (TSSDESC_LO b) (TSSDESC_HI b) = b"
proof (rule bit_word_eqI)
  fix n
  show "bit (tss_base (TSSDESC_LO b) (TSSDESC_HI b)) n = bit b n" if "n < LENGTH(64)"
    using that by (cases n rule: bit_pieces)
      (auto simp: tss_base_def TSSDESC_LO_def TSSDESC_HI_def seg_base_SEGDESC bit_parts mask_bits)
qed

text \<open>C23: Descriptors are decoded to what they were built from: a segment has the low 32 bits of the base and the low
  20 bits of the limit it was given, the two halves of a task state descriptor give the whole 64-bit address of the
  task state, and a gate has the 64-bit address of its handler.\<close>

theorem descriptors_decode:
  "seg_base (SEGDESC b l a f) = b AND 0xffffffff \<and> seg_limit (SEGDESC b l a f) = l AND 0xfffff \<and>
   tss_base (TSSDESC_LO b) (TSSDESC_HI b) = b \<and> gate_off (SETGATE g t sel off d) = off"
  by (simp add: seg_base_SEGDESC seg_limit_SEGDESC tss_base_TSSDESC)

section \<open>The interrupt descriptor table\<close>

lemma length_tvinit_loop [simp]: "length (tvinit_loop vs is idt) = length idt"
  by (induction "is" arbitrary: idt) auto

lemma tvinit_loop_nth:
  assumes "distinct is" "i < length idt"
  shows "tvinit_loop vs is idt ! i =
    (if i \<in> set is then SETGATE (idt ! i) False (of_nat (SEG_KCODE * 8)) (vs ! i) 0 else idt ! i)"
  using assms
proof (induction "is" arbitrary: idt)
  case (Cons a "is")
  then show ?case by (cases "a = i") simp_all
qed simp

text \<open>C24: After \<^verbatim>\<open>tvinit\<close> every one of the 256 gates is present and enters the kernel's code segment at its own vector;
  only the system call gate can be entered by an \<^verbatim>\<open>int\<close> instruction of user code (privilege level 3), and only it
  leaves interrupts on (a trap gate).\<close>

theorem tvinit_gates:
  assumes "length idt = 256" "i < 256"
  shows "gate_off (tvinit_idt vectors idt ! i) = vectors ! i \<and> g_p (tvinit_idt vectors idt ! i) = 1 \<and>
    g_cs (tvinit_idt vectors idt ! i) = 8 \<and>
    (g_dpl (tvinit_idt vectors idt ! i) = 3 \<longleftrightarrow> i = T_SYSCALL) \<and>
    (g_type (tvinit_idt vectors idt ! i) = STS_TG32 \<longleftrightarrow> i = T_SYSCALL)"
proof (cases "i = T_SYSCALL")
  case True
  then have "tvinit_idt vectors idt ! i = SETGATE (tvinit_loop vectors [0..<256] idt ! i) True 8 (vectors ! i) 3"
    using assms by (simp add: tvinit_idt_def Let_def T_SYSCALL_def SEG_KCODE_def DPL_USER_def)
  then show ?thesis using True by (simp del: upt_Suc) (simp add: SETGATE_def)
next
  case False
  then have "tvinit_idt vectors idt ! i = SETGATE (idt ! i) False 8 (vectors ! i) 0"
    using assms by (simp add: tvinit_idt_def Let_def tvinit_loop_nth SEG_KCODE_def del: upt_Suc)
  then show ?thesis using False by simp (simp add: SETGATE_def STS_IG32_def STS_TG32_def)
qed

text \<open>Gate 3 of a table whose handlers are 16 bytes apart.\<close>

definition gate_zero :: gatedesc where
  "gate_zero = \<lparr>off_15_0 = 0, g_cs = 0, ist = 0, rsv1 = 0, g_type = 0, g_s = 0, g_dpl = 0, g_p = 0, off_31_16 = 0,
     off_63_32 = 0, rsv2 = 0\<rparr>"

theorem tvinit_gates_witness:
  "gate_off (tvinit_idt (map (\<lambda>i. of_nat (16 * i)) [0..<256]) (replicate 256 gate_zero) ! 3) = 48"
proof -
  have "map (\<lambda>i. of_nat (16 * i)) [0..<256] ! 3 = (48 :: ulong)" by simp
  then show ?thesis
    using tvinit_gates [of "replicate 256 gate_zero" 3 "map (\<lambda>i. of_nat (16 * i)) [0..<256]"] by simp
qed

end
