(* ===== verification/Ide.thy ===== *)
theory Ide
  imports Bio Seg
begin

text \<open>
  \<^verbatim>\<open>kernel/ide/ide.c\<close>: the driver of a real IDE disk, an alternative to \<^verbatim>\<open>memide.c\<close>. Requests wait in a list linked
  through the buffers; the disk works on the first one, and its interrupt completes that request and starts the next.
  The statuses that the port will deliver are the list \<open>ide_status\<close>, and what the kernel writes to the ports is recorded in
  \<open>ide_outs\<close>; the sector an interrupt finds in the data port is an argument of the handler. The driver is proved first in,
  first out in every history, and to execute all requests when it runs against a drive that follows the ATA protocol.
\<close>

section \<open>State\<close>

text \<open>What the driver does to the hardware: bytes to a port, a buffer to a port, and the call of \<^verbatim>\<open>ioapicenable\<close> with its
  arguments.\<close>

datatype ide_io = Outb nat uint | Outsl nat "byte list" | Ioapicenable nat int

record ide_st = bio_st +
  idequeue :: "nat option"
  qnext :: "nat \<Rightarrow> nat option"
  havedisk1 :: bool
  ide_status :: "byte list"
  ide_outs :: "ide_io list"

definition SECTOR_SIZE :: nat where "SECTOR_SIZE = 512"
definition IDE_BSY :: byte where "IDE_BSY = 0x80"
definition IDE_DRDY :: byte where "IDE_DRDY = 0x40"
definition IDE_DF :: byte where "IDE_DF = 0x20"
definition IDE_ERR :: byte where "IDE_ERR = 0x01"
definition IDE_CMD_READ :: uint where "IDE_CMD_READ = 0x20"
definition IDE_CMD_WRITE :: uint where "IDE_CMD_WRITE = 0x30"
definition IDE_CMD_RDMUL :: uint where "IDE_CMD_RDMUL = 0xc4"
definition IDE_CMD_WRMUL :: uint where "IDE_CMD_WRMUL = 0xc5"
definition FSSIZE :: nat where "FSSIZE = 1000"

section \<open>Operations\<close>

definition outs :: "ide_io list \<Rightarrow> ('a ide_st_scheme, unit) kop" where
  "outs xs = modify (\<lambda>s. s\<lparr>ide_outs := ide_outs s @ xs\<rparr>)"

text \<open>The statuses read until the disk is ready; with none left the loop goes on for ever.\<close>

fun idewait_loop :: "bool \<Rightarrow> byte list \<Rightarrow> (int \<times> byte list) option" where
  "idewait_loop checkerr [] = None"
| "idewait_loop checkerr (r # rs) =
     (if r AND (IDE_BSY OR IDE_DRDY) \<noteq> IDE_DRDY then idewait_loop checkerr rs
      else Some (if checkerr \<and> r AND (IDE_DF OR IDE_ERR) \<noteq> 0 then - 1 else 0, rs))"

definition idewait :: "bool \<Rightarrow> ('a ide_st_scheme, int) kop" where
  "idewait checkerr =
     bind (gets ide_status) (\<lambda>st.
     case idewait_loop checkerr st of None \<Rightarrow> fail Diverge
     | Some (r, rs) \<Rightarrow> andthen (modify (\<lambda>s. s\<lparr>ide_status := rs\<rparr>)) (ret r))"

text \<open>\<^verbatim>\<open>ideinit\<close> looks for disk 1 in up to 1000 reads of the status port; \<open>n\<close> is the global \<^verbatim>\<open>ncpu\<close> of \<^verbatim>\<open>mp.c\<close>.\<close>

fun ide_probe :: "nat \<Rightarrow> byte list \<Rightarrow> (bool \<times> byte list) option" where
  "ide_probe 0 st = Some (False, st)"
| "ide_probe (Suc n) [] = None"
| "ide_probe (Suc n) (r # rs) = (if r \<noteq> 0 then Some (True, rs) else ide_probe n rs)"

definition ideinit :: "int \<Rightarrow> ('a ide_st_scheme, unit) kop" where
  "ideinit n =
     andthen (initlock ''ide'')
    (andthen (outs [Ioapicenable IRQ_IDE (n - 1)])
    (bind (idewait False) (\<lambda>_.
     andthen (outs [Outb 0x1f6 (0xe0 OR push_bit 4 1)])
    (bind (gets (\<lambda>s. ide_probe 1000 (ide_status s))) (\<lambda>p.
     case p of None \<Rightarrow> fail Diverge
     | Some (found, rs) \<Rightarrow>
         andthen (modify (\<lambda>s. s\<lparr>ide_status := rs, havedisk1 := found \<or> havedisk1 s\<rparr>))
           (outs [Outb 0x1f6 (0xe0 OR push_bit 4 0)]))))))"

definition idestart_outs :: "buf \<Rightarrow> ide_io list" where
  "idestart_outs b =
     (let spb = BSIZE div SECTOR_SIZE; sector = of_nat (b_blockno b * spb) :: uint;
          read_cmd = (if spb = 1 then IDE_CMD_READ else IDE_CMD_RDMUL);
          write_cmd = (if spb = 1 then IDE_CMD_WRITE else IDE_CMD_WRMUL)
      in [Outb 0x3f6 0, Outb 0x1f2 (of_nat spb), Outb 0x1f3 (sector AND 0xff), Outb 0x1f4 (drop_bit 8 sector AND 0xff),
          Outb 0x1f5 (drop_bit 16 sector AND 0xff),
          Outb 0x1f6 (0xe0 OR push_bit 4 (of_nat (b_dev b) AND 1) OR (drop_bit 24 sector AND 0x0f))] @
         (if b_flags b AND B_DIRTY \<noteq> 0 then [Outb 0x1f7 write_cmd, Outsl 0x1f0 (b_data b)] else [Outb 0x1f7 read_cmd]))"

definition idestart :: "nat option \<Rightarrow> ('a ide_st_scheme, unit) kop" where
  "idestart bp =
     (case bp of None \<Rightarrow> panic ''idestart''
      | Some i \<Rightarrow>
          bind (gets (\<lambda>s. bufs s ! i)) (\<lambda>b.
          if b_blockno b \<ge> FSSIZE then panic ''incorrect blockno''
          else if BSIZE div SECTOR_SIZE > 7 then panic ''idestart''
          else bind (idewait False) (\<lambda>_. outs (idestart_outs b))))"

definition ide_done :: "buf \<Rightarrow> buf" where
  "ide_done b = b\<lparr>b_flags := (b_flags b OR B_VALID) AND NOT B_DIRTY\<rparr>"

text \<open>The interrupt handler, from the marking of the finished buffer on, and the handler.\<close>

definition ide_finish :: "nat \<Rightarrow> ('a ide_st_scheme, unit) kop" where
  "ide_finish i =
     andthen (modify (upd_buf i ide_done))
    (andthen (wakeup (Ch_buf i))
    (bind (gets idequeue) (\<lambda>q.
     andthen (whenK (q \<noteq> None) (idestart q)) (release ''ide''))))"

definition ideintr :: "byte list \<Rightarrow> ('a ide_st_scheme, unit) kop" where
  "ideintr d =
     andthen (acquire ''ide'')
    (bind (gets idequeue) (\<lambda>q.
     case q of None \<Rightarrow> release ''ide''
     | Some i \<Rightarrow>
         andthen (modify (\<lambda>s. s\<lparr>idequeue := qnext s i\<rparr>))
        (bind (gets (\<lambda>s. b_flags (bufs s ! i))) (\<lambda>fl.
         andthen (whenK (fl AND B_DIRTY = 0)
             (bind (idewait True) (\<lambda>r. whenK (r \<ge> 0) (modify (upd_buf i (\<lambda>b. b\<lparr>b_data := d\<rparr>))))))
           (ide_finish i)))))"

text \<open>The walk to the end of the queue, from buffer \<open>i\<close>. A queue of distinct buffers has at most \<open>NBUF\<close> of them.\<close>

fun ide_last :: "nat \<Rightarrow> (nat \<Rightarrow> nat option) \<Rightarrow> nat \<Rightarrow> nat option" where
  "ide_last 0 nx i = None"
| "ide_last (Suc n) nx i = (case nx i of None \<Rightarrow> Some i | Some j \<Rightarrow> ide_last n nx j)"

definition ide_append :: "nat \<Rightarrow> ('a ide_st_scheme, unit) kop" where
  "ide_append i =
     andthen (modify (\<lambda>s. s\<lparr>qnext := (qnext s)(i := None)\<rparr>))
    (bind (gets idequeue) (\<lambda>q.
     case q of None \<Rightarrow> modify (\<lambda>s. s\<lparr>idequeue := Some i\<rparr>)
     | Some h \<Rightarrow>
         bind (gets (\<lambda>s. ide_last NBUF (qnext s) h)) (\<lambda>l.
         case l of None \<Rightarrow> fail Diverge
         | Some t \<Rightarrow> modify (\<lambda>s. s\<lparr>qnext := (qnext s)(t := Some i)\<rparr>))))"

text \<open>\<^verbatim>\<open>iderw\<close> up to the loop that waits for the request to finish, and \<^verbatim>\<open>iderw\<close>.\<close>

definition ide_request :: "nat \<Rightarrow> ('a ide_st_scheme, unit) kop" where
  "ide_request i =
     bind (holdingsleep (get_buf_lock i)) (\<lambda>h.
     if \<not> h then panic ''iderw: buf not locked''
     else bind (gets (\<lambda>s. bufs s ! i)) (\<lambda>b.
     bind (gets havedisk1) (\<lambda>hd1.
     if b_flags b AND (B_VALID OR B_DIRTY) = B_VALID then panic ''iderw: nothing to do''
     else if b_dev b \<noteq> 0 \<and> \<not> hd1 then panic ''iderw: ide disk 1 not present''
     else
       andthen (acquire ''ide'')
      (andthen (ide_append i)
      (bind (gets idequeue) (\<lambda>q. whenK (q = Some i) (idestart q)))))))"

definition ide_iderw :: "nat \<Rightarrow> ('a ide_st_scheme, unit) kop" where
  "ide_iderw i =
     andthen (ide_request i)
    (bind (gets (\<lambda>s. b_flags (bufs s ! i))) (\<lambda>fl.
     andthen (whenK (fl AND (B_VALID OR B_DIRTY) \<noteq> B_VALID) (sleep (Ch_buf i) ''ide''))
       (release ''ide'')))"

section \<open>The queue\<close>

text \<open>The list \<open>q\<close> is linked from \<open>h\<close> through \<open>nx\<close>.\<close>

fun q_list :: "(nat \<Rightarrow> nat option) \<Rightarrow> nat option \<Rightarrow> nat list \<Rightarrow> bool" where
  "q_list nx h [] \<longleftrightarrow> h = None"
| "q_list nx h (i # q) \<longleftrightarrow> h = Some i \<and> q_list nx (nx i) q"

lemma q_list_upd: "x \<notin> set q \<Longrightarrow> q_list (nx(x := v)) h q = q_list nx h q"
  by (induction q arbitrary: h) auto

lemma ide_last_q_list:
  "q_list nx (Some i) q \<Longrightarrow> length q \<le> n \<Longrightarrow> ide_last n nx i = Some (last q)"
proof (induction q arbitrary: n i)
  case (Cons j q)
  then show ?case by (cases n; cases q) auto
qed simp

lemma q_list_append:
  assumes "q_list nx h q" "q \<noteq> []" "distinct q" "i \<notin> set q"
  shows "q_list (nx(i := None, last q := Some i)) h (q @ [i])"
  using assms
proof (induction q arbitrary: h)
  case (Cons j q)
  show ?case
  proof (cases "q = []")
    case True
    then show ?thesis using Cons.prems by auto
  next
    case False
    then have "last q \<noteq> j" using Cons.prems(3) by auto
    then show ?thesis using Cons False by auto
  qed
qed simp

text \<open>A request is complete when its buffer is valid and clean.\<close>

definition ide_complete :: "'a ide_st_scheme \<Rightarrow> nat \<Rightarrow> bool" where
  "ide_complete s i \<longleftrightarrow> b_flags (bufs s ! i) AND (B_VALID OR B_DIRTY) = B_VALID"

text \<open>The abstract queue of a state: the linked list, of distinct buffers that ask for a valid block and are not complete.\<close>

definition ide_ok :: "'a ide_st_scheme \<Rightarrow> nat list \<Rightarrow> bool" where
  "ide_ok s q \<longleftrightarrow> q_list (qnext s) (idequeue s) q \<and> distinct q \<and> set q \<subseteq> {..<NBUF} \<and> NBUF < length (bufs s) \<and>
     (\<forall>i \<in> set q. b_blockno (bufs s ! i) < FSSIZE \<and> \<not> ide_complete s i)"

lemma ide_ok_head:
  assumes "ide_ok s q"
  shows "idequeue s = (case q of [] \<Rightarrow> None | i # _ \<Rightarrow> Some i)"
  using assms by (cases q) (auto simp: ide_ok_def)

lemma ide_ok_frame [simp]:
  "ide_ok (s\<lparr>ide_status := st\<rparr>) q = ide_ok s q" "ide_ok (s\<lparr>ide_outs := os\<rparr>) q = ide_ok s q"
  "ide_ok (s\<lparr>held := H\<rparr>) q = ide_ok s q" "ide_ok (s\<lparr>procs := ps\<rparr>) q = ide_ok s q"
  "ide_ok (s\<lparr>cur := c\<rparr>) q = ide_ok s q"
  by (simp_all add: ide_ok_def ide_complete_def)

lemma ide_done_flags [simp]: "b_flags (ide_done b) AND (B_VALID OR B_DIRTY) = B_VALID"
proof -
  have "NOT B_DIRTY AND (B_VALID OR B_DIRTY) = B_VALID" by (simp add: B_VALID_def B_DIRTY_def)
  moreover have "(f OR v) AND v = v" for f v :: uint by (rule bit_word_eqI) (auto simp: bit_or_iff bit_and_iff)
  ultimately show ?thesis by (simp add: ide_done_def and.assoc)
qed

lemma upd_buf_ide [simp]:
  "bufs (upd_buf i f s) = (bufs s)[i := f (bufs s ! i)]" "procs (upd_buf i f s) = procs s" "held (upd_buf i f s) = held s"
  "cur (upd_buf i f s) = cur s" "idequeue (upd_buf i f s) = idequeue s" "qnext (upd_buf i f s) = qnext s"
  "havedisk1 (upd_buf i f s) = havedisk1 s" "ide_status (upd_buf i f s) = ide_status s" "ide_outs (upd_buf i f s) = ide_outs s"
  by (simp_all add: upd_buf_def)

lemma ide_ok_upd_buf:
  assumes "ide_ok s q" "i \<notin> set q"
  shows "ide_ok (upd_buf i f s) q"
proof -
  have "(bufs s)[i := x] ! j = bufs s ! j" if "j \<in> set q" for x j using that assms(2) by (metis nth_list_update_neq)
  then show ?thesis using assms(1) by (simp add: ide_ok_def ide_complete_def)
qed

lemma ide_ok_tail: "ide_ok s (i # q) \<Longrightarrow> ide_ok (s\<lparr>idequeue := qnext s i\<rparr>) q"
  by (auto simp: ide_ok_def ide_complete_def)

lemma wp_ide_append:
  assumes ok: "ide_ok s q" and i: "i \<notin> set q" "i < NBUF" "b_blockno (bufs s ! i) < FSSIZE" "\<not> ide_complete s i"
  shows "wp (ide_append i) (\<lambda>_ t. ide_ok t (q @ [i]) \<and> (\<exists>nx h. t = s\<lparr>qnext := nx, idequeue := h\<rparr>)) s"
proof (cases "q = []")
  case True
  have "ide_ok (s\<lparr>qnext := (qnext s)(i := None), idequeue := Some i\<rparr>) [i]"
    using ok i by (simp add: ide_ok_def ide_complete_def)
  then show ?thesis using ok True by (auto simp: ide_append_def ide_ok_def)
next
  case False
  then obtain h where h: "idequeue s = Some h" using ok by (cases q) (auto simp: ide_ok_def)
  have q: "q_list (qnext s) (Some h) q" "distinct q" using ok h by (auto simp: ide_ok_def)
  have "length q \<le> NBUF"
    using card_mono [of "{..<NBUF}" "set q"] ok by (simp add: distinct_card ide_ok_def)
  then have l: "ide_last NBUF ((qnext s)(i := None)) h = Some (last q)"
    using q i by (intro ide_last_q_list) (simp_all add: q_list_upd)
  have "q_list ((qnext s)(i := None, last q := Some i)) (Some h) (q @ [i])"
    using q(1) False q(2) i(1) by (rule q_list_append)
  then have "ide_ok (s\<lparr>qnext := (qnext s)(i := None, last q := Some i)\<rparr>) (q @ [i])"
    using ok i h by (simp add: ide_ok_def ide_complete_def)
  moreover have "\<exists>nx h'. s\<lparr>qnext := (qnext s)(i := None, last q := Some i)\<rparr> = s\<lparr>qnext := nx, idequeue := h'\<rparr>"
    by (rule exI [of _ "(qnext s)(i := None, last q := Some i)"], rule exI [of _ "idequeue s"]) simp
  ultimately show ?thesis by (simp add: ide_append_def h l)
qed

section \<open>What an operation that returns has done\<close>

text \<open>Waiting for the disk may take any number of polls, or go on for ever; when it ends only the statuses are used up.\<close>

lemma idewait_result:
  assumes "idewait c s = Inr (r, t)"
  obtains st where "idewait_loop c (ide_status s) = Some (r, st)" "t = s\<lparr>ide_status := st\<rparr>"
  using assms by (auto simp: idewait_def kop_defs split: option.splits)

lemma idestart_result:
  assumes "idestart q s = Inr ((), t)"
  obtains i st where "q = Some i" "b_blockno (bufs s ! i) < FSSIZE" "idewait_loop False (ide_status s) = Some (0, st)"
    "t = s\<lparr>ide_status := st, ide_outs := ide_outs s @ idestart_outs (bufs s ! i)\<rparr>"
proof -
  have z: "idewait_loop False st = Some (r, st') \<Longrightarrow> r = 0" for st r st' by (induction st) (auto split: if_splits)
  show thesis using assms z that
    by (auto simp: idestart_def idewait_def outs_def kop_defs not_le split: option.splits if_splits)
qed

text \<open>The commands a queue makes the driver send: those of its first request.\<close>

definition start_outs :: "'a ide_st_scheme \<Rightarrow> nat list \<Rightarrow> ide_io list" where
  "start_outs s q = (case q of [] \<Rightarrow> [] | j # _ \<Rightarrow> idestart_outs (bufs s ! j))"

lemma ide_finish_result:
  assumes "ide_finish i s = Inr ((), t)" "ide_ok s q" "i \<notin> set q" "held s = {''ide''}"
  shows "ide_ok t q \<and> held t = {} \<and> cur t = cur s \<and> havedisk1 t = havedisk1 s \<and> procs t = map (wake (Ch_buf i)) (procs s) \<and>
    bufs t = (bufs s)[i := ide_done (bufs s ! i)] \<and> ide_outs t = ide_outs s @ start_outs s q"
proof -
  define u where "u = (upd_buf i ide_done s)\<lparr>procs := map (wake (Ch_buf i)) (procs s)\<rparr>"
  have w: "wp (wakeup (Ch_buf i)) (\<lambda>_ v. v = u) (upd_buf i ide_done s)" using assms(4) by (simp add: u_def)
  have "wakeup (Ch_buf i) (upd_buf i ide_done s) = Inr ((), u)" using wp_returns [OF w] by auto
  then have fin: "andthen (whenK (idequeue u \<noteq> None) (idestart (idequeue u))) (release ''ide'') u = Inr ((), t)"
    using assms(1) by (simp add: ide_finish_def andthen_def bind_def modify_def gets_def)
  have u: "held u = {''ide''}" "idequeue u = idequeue s" "ide_outs u = ide_outs s" "ide_ok u q" "procs u = map (wake (Ch_buf i)) (procs s)"
    "bufs u = (bufs s)[i := ide_done (bufs s ! i)]" "cur u = cur s" "havedisk1 u = havedisk1 s"
    using assms by (simp_all add: u_def ide_ok_upd_buf)
  show ?thesis
  proof (cases q)
    case Nil
    then have "t = u\<lparr>held := {}\<rparr>" using fin u(1,2) ide_ok_head [OF assms(2)] by (simp add: kop_defs release_def)
    then show ?thesis using u Nil by (simp add: start_outs_def)
  next
    case (Cons j q')
    then have j: "idequeue u = Some j" "bufs u ! j = bufs s ! j" using u ide_ok_head [OF assms(2)] assms(3) by auto
    then obtain v where v: "idestart (Some j) u = Inr ((), v)" "release ''ide'' v = Inr ((), t)"
      using fin by (auto simp: andthen_Inr_iff whenK_def)
    obtain st where "v = u\<lparr>ide_status := st, ide_outs := ide_outs s @ idestart_outs (bufs s ! j)\<rparr>"
      using v(1) j(2) u(3) by (auto elim!: idestart_result)
    then have "t = u\<lparr>ide_status := st, ide_outs := ide_outs s @ idestart_outs (bufs s ! j), held := {}\<rparr>"
      using v(2) u(1) by (simp add: release_def kop_defs)
    then show ?thesis using u Cons by (simp add: start_outs_def)
  qed
qed

text \<open>The interrupt completes the request at the front of the queue, whatever the disk's status says, and starts the
  next one. A buffer that was read keeps its old data when the status reports an error.\<close>

definition ide_sector :: "byte list \<Rightarrow> 'a ide_st_scheme \<Rightarrow> nat \<Rightarrow> byte list" where
  "ide_sector d s i =
     (if b_flags (bufs s ! i) AND B_DIRTY = 0 \<and> 0 \<le> fst (the (idewait_loop True (ide_status s))) then d else b_data (bufs s ! i))"

lemma ideintr_result:
  assumes "ideintr d s = Inr ((), t)" and ok: "ide_ok s (i # q)" and H: "held s = {}"
  shows "ide_ok t q \<and> held t = {} \<and> cur t = cur s \<and> havedisk1 t = havedisk1 s \<and> procs t = map (wake (Ch_buf i)) (procs s) \<and>
    ide_outs t = ide_outs s @ start_outs s q \<and>
    bufs t = (bufs s)[i := ide_done ((bufs s ! i)\<lparr>b_data := ide_sector d s i\<rparr>)]"
proof -
  let ?s1 = "s\<lparr>held := {''ide''}, idequeue := qnext s i\<rparr>"
  have i: "idequeue s = Some i" "i \<notin> set q" "i < length (bufs s)" "\<And>j. j \<in> set q \<Longrightarrow> j \<noteq> i" using ok by (auto simp: ide_ok_def)
  have s1: "ide_ok ?s1 q" using ide_ok_tail [of "s\<lparr>held := {''ide''}\<rparr>" i q] ok by simp
  have run: "andthen (whenK (b_flags (bufs s ! i) AND B_DIRTY = 0)
      (bind (idewait True) (\<lambda>r. whenK (r \<ge> 0) (modify (upd_buf i (\<lambda>b. b\<lparr>b_data := d\<rparr>)))))) (ide_finish i) ?s1 = Inr ((), t)"
    using assms(1) H i(1) by (simp add: ideintr_def acquire_def andthen_def bind_def gets_def modify_def)
  obtain st where f: "ide_finish i (upd_buf i (\<lambda>b. b\<lparr>b_data := ide_sector d s i\<rparr>) (?s1\<lparr>ide_status := st\<rparr>)) = Inr ((), t)"
  proof (cases "b_flags (bufs s ! i) AND B_DIRTY = 0")
    case True
    then obtain r v st where w: "idewait_loop True (ide_status s) = Some (r, st)" "v = ?s1\<lparr>ide_status := st\<rparr>"
        "andthen (whenK (r \<ge> 0) (modify (upd_buf i (\<lambda>b. b\<lparr>b_data := d\<rparr>)))) (ide_finish i) v = Inr ((), t)"
      using run by (auto simp: andthen_def bind_def whenK_def split: sum.splits elim!: idewait_result)
    then show thesis using True i(3) by (intro that [of st]) (auto simp: ide_sector_def kop_defs upd_buf_def split: if_splits)
  next
    case False
    then show thesis using run i(3) by (intro that [of "ide_status s"]) (simp add: ide_sector_def kop_defs upd_buf_def)
  qed
  let ?v = "upd_buf i (\<lambda>b. b\<lparr>b_data := ide_sector d s i\<rparr>) (?s1\<lparr>ide_status := st\<rparr>)"
  have v: "ide_ok ?v q" "held ?v = {''ide''}" using s1 i(2) by (simp_all add: ide_ok_upd_buf)
  have "start_outs ?v q = start_outs s q"
  proof (cases q)
    case (Cons j q')
    then have "j \<noteq> i" by (intro i(4)) simp
    then show ?thesis using Cons by (simp add: start_outs_def)
  qed (simp add: start_outs_def)
  then show ?thesis using ide_finish_result [OF f v(1) i(2) v(2)] i(3) by simp
qed

lemma ideintr_stray: "ideintr d s = Inr ((), t) \<Longrightarrow> idequeue s = None \<Longrightarrow> t = s"
  by (auto simp: ideintr_def acquire_def release_def kop_defs split: if_splits)

text \<open>A process may ask for buffer \<open>i\<close>: it holds the buffer's lock and no spin lock, and the buffer needs the disk.\<close>

definition can_request :: "'a ide_st_scheme \<Rightarrow> nat \<Rightarrow> bool" where
  "can_request s i \<longleftrightarrow> held s = {} \<and> cur s \<noteq> None \<and> i < NBUF \<and>
     sl_locked (b_lock (bufs s ! i)) \<and> sl_pid (b_lock (bufs s ! i)) = my_pid s \<and>
     \<not> ide_complete s i \<and> (b_dev (bufs s ! i) = 0 \<or> havedisk1 s) \<and> b_blockno (bufs s ! i) < FSSIZE"

lemma ide_request_step:
  assumes ok: "ide_ok s q" and can: "can_request s i" "i \<notin> set q"
  obtains nx h where "ide_ok (s\<lparr>held := {''ide''}, qnext := nx, idequeue := h\<rparr>) (q @ [i])"
    "ide_request i s = whenK (h = Some i) (idestart h) (s\<lparr>held := {''ide''}, qnext := nx, idequeue := h\<rparr>)"
proof -
  have app: "wp (ide_append i) (\<lambda>_ t. ide_ok t (q @ [i]) \<and> (\<exists>nx h. t = s\<lparr>held := {''ide''}, qnext := nx, idequeue := h\<rparr>))
      (s\<lparr>held := {''ide''}\<rparr>)"
    using wp_ide_append [of "s\<lparr>held := {''ide''}\<rparr>" q i] ok can by (simp add: can_request_def ide_complete_def)
  from wp_returns [OF app] obtain nx h where t: "ide_append i (s\<lparr>held := {''ide''}\<rparr>) = Inr ((), s\<lparr>held := {''ide''}, qnext := nx, idequeue := h\<rparr>)"
    "ide_ok (s\<lparr>held := {''ide''}, qnext := nx, idequeue := h\<rparr>) (q @ [i])" by auto
  obtain p where "cur s = Some p" using can(1) by (auto simp: can_request_def)
  then have "wp (holdingsleep (get_buf_lock i)) (\<lambda>h t. h \<and> t = s) s"
    using can(1) by (simp add: can_request_def buflock.wp_holdingsleep get_buf_lock_def)
  then have hs: "holdingsleep (get_buf_lock i) s = Inr (True, s)" using wp_returns by fastforce
  have "ide_request i s = whenK (h = Some i) (idestart h) (s\<lparr>held := {''ide''}, qnext := nx, idequeue := h\<rparr>)"
    using can(1) t(1) hs
    by (cases "havedisk1 s") (simp_all add: ide_request_def can_request_def ide_complete_def bind_def andthen_def gets_def acquire_def modify_def)
  with t(2) show thesis by (rule that)
qed

lemma ide_request_result:
  assumes r: "ide_request i s = Inr ((), t)" and ok: "ide_ok s q" and can: "can_request s i" "i \<notin> set q"
  shows "ide_ok t (q @ [i]) \<and> held t = {''ide''} \<and> bufs t = bufs s \<and> procs t = procs s \<and> cur t = cur s \<and> havedisk1 t = havedisk1 s \<and>
    ide_outs t = ide_outs s @ (if q = [] then idestart_outs (bufs s ! i) else [])"
proof -
  obtain nx h where u: "ide_ok (s\<lparr>held := {''ide''}, qnext := nx, idequeue := h\<rparr>) (q @ [i])"
    "whenK (h = Some i) (idestart h) (s\<lparr>held := {''ide''}, qnext := nx, idequeue := h\<rparr>) = Inr ((), t)"
    using ide_request_step [OF ok can] r by metis
  have h: "h = Some (hd (q @ [i]))" using ide_ok_head [OF u(1)] by (cases q) simp_all
  show ?thesis
  proof (cases "q = []")
    case True
    then have "idestart (Some i) (s\<lparr>held := {''ide''}, qnext := nx, idequeue := h\<rparr>) = Inr ((), t)" using u(2) h by (simp add: whenK_def)
    then show ?thesis using True u(1) by (auto elim!: idestart_result)
  next
    case False
    then have "h \<noteq> Some i" using h can(2) by (cases q) auto
    then have "t = s\<lparr>held := {''ide''}, qnext := nx, idequeue := h\<rparr>" using u(2) by (simp add: whenK_def skip_def ret_def)
    then show ?thesis using False u(1) by simp
  qed
qed


section \<open>First in, first out\<close>

text \<open>
  Histories of the driver: processes make requests and go to sleep, interrupts arrive with any data and any status, and
  meanwhile other code runs, which changes processes and buffers that are not queued. \<open>R\<close> lists the requests. \<open>C\<close>
  lists the completions as the buffers show them: an interrupt adds the buffers that were not complete before the
  handler ran and are complete after it. \<open>ide_wait\<close> is \<^verbatim>\<open>iderw\<close> up to the point where the process is asleep.
\<close>

definition ide_finished :: "'a ide_st_scheme \<Rightarrow> 'a ide_st_scheme \<Rightarrow> nat list" where
  "ide_finished s t = filter (\<lambda>i. \<not> ide_complete s i \<and> ide_complete t i) [0..<NBUF]"

definition ide_wait :: "nat \<Rightarrow> ('a ide_st_scheme, unit) kop" where
  "ide_wait i = andthen (ide_request i) (andthen (sleep_enter (Ch_buf i) ''ide'') (release ''ptable''))"

inductive ide_run :: "'a ide_st_scheme \<Rightarrow> nat list \<Rightarrow> nat list \<Rightarrow> 'a ide_st_scheme \<Rightarrow> bool" for s0 where
  ide_start: "ide_run s0 [] [] s0"
| ide_req: "ide_run s0 R C s \<Longrightarrow> can_request s i \<Longrightarrow> i \<notin> set (drop (length C) R) \<Longrightarrow> ide_wait i s = Inr ((), t) \<Longrightarrow>
    ide_run s0 (R @ [i]) C t"
| ide_int: "ide_run s0 R C s \<Longrightarrow> ideintr d s = Inr ((), t) \<Longrightarrow> ide_run s0 R (C @ ide_finished s t) t"
| ide_other: "ide_run s0 R C s \<Longrightarrow> length bs = length (bufs s) \<Longrightarrow> (\<And>i. i \<in> set (drop (length C) R) \<Longrightarrow> bs ! i = bufs s ! i) \<Longrightarrow>
    ide_run s0 R C (s\<lparr>cur := c, procs := ps, bufs := bs, ide_status := st\<rparr>)"

lemma filter_single: "distinct xs \<Longrightarrow> i \<in> set xs \<Longrightarrow> (\<And>j. j \<in> set xs \<Longrightarrow> P j \<longleftrightarrow> j = i) \<Longrightarrow> filter P xs = [i]"
  by (induction xs) (auto simp: filter_empty_conv)

lemma ide_finished_refl [simp]: "ide_finished s s = []"
  by (simp add: ide_finished_def)

lemma ide_finished_head:
  assumes "ide_ok s (i # q)" "bufs t = (bufs s)[i := ide_done b]"
  shows "ide_finished s t = [i]"
  unfolding ide_finished_def
proof (rule filter_single)
  fix j assume "j \<in> set [0..<NBUF]"
  then show "(\<not> ide_complete s j \<and> ide_complete t j) \<longleftrightarrow> j = i"
    using assms by (cases "j = i") (auto simp: ide_ok_def ide_complete_def)
qed (use assms in \<open>auto simp: ide_ok_def\<close>)

lemma sleep_release_result:
  assumes "andthen (sleep_enter ch ''ide'') (release ''ptable'') s = Inr ((), t)" "held s = {''ide''}" "cur s = Some p"
  shows "t = upd_proc p (\<lambda>x. x\<lparr>p_chan := Some ch, p_state := SLEEPING\<rparr>) s\<lparr>held := {}\<rparr>"
proof -
  have "{''ide'', ''ptable''} - {''ide''} - {''ptable''} = {}" by auto
  then have "wp (andthen (sleep_enter ch ''ide'') (release ''ptable'')) (\<lambda>_ t. t = upd_proc p (\<lambda>x. x\<lparr>p_chan := Some ch, p_state := SLEEPING\<rparr>) s\<lparr>held := {}\<rparr>) s"
    using assms(2,3) by (simp add: sleep_enter_def myproc_def upd_proc_def insert_Diff_if)
  from wp_result [OF this assms(1)] show ?thesis .
qed

lemma ide_wait_result:
  assumes "ide_wait i s = Inr ((), t)" "ide_ok s q" "can_request s i" "i \<notin> set q"
  shows "ide_ok t (q @ [i]) \<and> held t = {} \<and> bufs t = bufs s \<and> cur t = cur s \<and> havedisk1 t = havedisk1 s \<and> (\<exists>p. cur s = Some p \<and>
      procs t = (procs s)[p := (procs s ! p)\<lparr>p_chan := Some (Ch_buf i), p_state := SLEEPING\<rparr>]) \<and>
    ide_outs t = ide_outs s @ (if q = [] then idestart_outs (bufs s ! i) else [])"
proof -
  obtain p where c: "cur s = Some p" using assms(3) by (auto simp: can_request_def)
  obtain u where u: "ide_request i s = Inr ((), u)" "andthen (sleep_enter (Ch_buf i) ''ide'') (release ''ptable'') u = Inr ((), t)"
    using assms(1) by (auto simp: ide_wait_def andthen_Inr_iff [of "ide_request i"])
  note r = ide_request_result [OF u(1) assms(2-4)]
  then have "t = upd_proc p (\<lambda>x. x\<lparr>p_chan := Some (Ch_buf i), p_state := SLEEPING\<rparr>) u\<lparr>held := {}\<rparr>"
    using sleep_release_result [OF u(2)] c by simp
  then show ?thesis using r c by (simp add: upd_proc_def)
qed

lemma ide_run_inv:
  assumes "ide_run s0 R C s" "ide_ok s0 []" "held s0 = {}"
  shows "R = C @ drop (length C) R \<and> ide_ok s (drop (length C) R) \<and> held s = {}"
  using assms
proof (induction rule: ide_run.induct)
  case ide_start
  then show ?case by simp
next
  case (ide_req R C s i t)
  then have "ide_ok t (drop (length C) R @ [i]) \<and> held t = {}" using ide_wait_result by blast
  moreover have "length C \<le> length R" using ide_req by (metis le_add1 length_append)
  ultimately show ?case using ide_req by simp
next
  case (ide_int R C s d t)
  then have inv: "R = C @ drop (length C) R" "ide_ok s (drop (length C) R)" "held s = {}" by blast+
  show ?case
  proof (cases "drop (length C) R")
    case Nil
    then have "t = s" using inv(2) ide_int(2) ide_ok_head by (intro ideintr_stray) force+
    then show ?thesis using inv by simp
  next
    case (Cons i q)
    then have ok: "ide_ok s (i # q)" using inv(2) by simp
    note t = ideintr_result [OF ide_int(2) ok inv(3)]
    then have f: "ide_finished s t = [i]" using ide_finished_head [OF ok] by blast
    have R: "R = (C @ [i]) @ q" using inv(1) Cons by simp
    have "drop (length (C @ [i])) R = q" unfolding R by simp
    then show ?thesis using R t f by simp
  qed
next
  case (ide_other R C s bs c ps st)
  then show ?case by (auto simp: ide_ok_def ide_complete_def)
qed

text \<open>C26: The disk driver is first in, first out: in every history, whatever statuses and data the disk delivers, the requests
  that the interrupt handler has completed are the oldest ones, in the order in which they were made, and the rest is the
  queue linked through the buffers, none of it complete.\<close>

theorem ide_fifo:
  assumes "ide_run s0 R C s" "ide_ok s0 []" "held s0 = {}"
  shows "\<exists>q. R = C @ q \<and> q_list (qnext s) (idequeue s) q \<and> distinct q \<and> (\<forall>i \<in> set q. \<not> ide_complete s i)"
  using ide_run_inv [OF assms] by (auto simp: ide_ok_def)


section \<open>The disk answers\<close>

text \<open>A status with \<^verbatim>\<open>IDE_BSY\<close> clear and \<^verbatim>\<open>IDE_DRDY\<close> set says that the drive is ready. The drive answers \<open>n\<close> waits: among the
  statuses to come, after any number of busy ones, are \<open>n\<close> ready ones, and no ready one reports a fault. Its other
  bits, such as the one that announces data, are free.\<close>

definition ide_rdy :: "byte \<Rightarrow> bool" where
  "ide_rdy r \<longleftrightarrow> r AND (IDE_BSY OR IDE_DRDY) = IDE_DRDY"

definition ide_ready :: "nat \<Rightarrow> byte list \<Rightarrow> bool" where
  "ide_ready n st \<longleftrightarrow> n \<le> length (filter ide_rdy st) \<and> (\<forall>r \<in> set st. ide_rdy r \<longrightarrow> r AND (IDE_DF OR IDE_ERR) = 0)"

fun drop_ready :: "nat \<Rightarrow> byte list \<Rightarrow> byte list" where
  "drop_ready 0 st = st"
| "drop_ready (Suc n) [] = []"
| "drop_ready (Suc n) (r # rs) = (if ide_rdy r then drop_ready n rs else drop_ready (Suc n) rs)"

lemma drop_ready_add: "drop_ready m (drop_ready n st) = drop_ready (n + m) st"
proof (induction n st rule: drop_ready.induct)
  case (2 n)
  then show ?case by (cases m) simp_all
qed simp_all

lemma ide_ready_drop: "ide_ready (m + n) st \<Longrightarrow> ide_ready n (drop_ready m st)"
  by (induction m st rule: drop_ready.induct) (auto simp: ide_ready_def)

lemma ide_ready_mono: "ide_ready n st \<Longrightarrow> m \<le> n \<Longrightarrow> ide_ready m st"
  by (simp add: ide_ready_def)

lemma idewait_loop_ready: "ide_ready (Suc n) st \<Longrightarrow> idewait_loop c st = Some (0, drop_ready 1 st)"
  by (induction st) (auto simp: ide_ready_def ide_rdy_def One_nat_def)

lemma wp_idewait: "ide_ready (Suc n) (ide_status s) \<Longrightarrow> wp (idewait c) Q s = Q 0 (s\<lparr>ide_status := drop_ready 1 (ide_status s)\<rparr>)"
  by (simp add: idewait_def idewait_loop_ready)

lemma wp_idestart:
  assumes "ide_ready (Suc n) (ide_status s)" "b_blockno (bufs s ! i) < FSSIZE"
  shows "wp (idestart (Some i)) Q s =
    Q () (s\<lparr>ide_status := drop_ready 1 (ide_status s), ide_outs := ide_outs s @ idestart_outs (bufs s ! i)\<rparr>)"
proof -
  have "\<not> FSSIZE \<le> b_blockno (bufs s ! i)" "\<not> 7 < BSIZE div SECTOR_SIZE"
    using assms(2) by (simp_all add: BSIZE_def SECTOR_SIZE_def)
  then show ?thesis using wp_idewait [OF assms(1)] by (simp add: idestart_def outs_def)
qed

text \<open>The driver waits for the drive once before it reads a sector, and once before it starts the next request.\<close>

definition ide_waits :: "buf list \<Rightarrow> nat list \<Rightarrow> nat" where
  "ide_waits bs q =
     (case q of [] \<Rightarrow> 0 | i # q' \<Rightarrow> (if b_flags (bs ! i) AND B_DIRTY = 0 then 1 else 0) + (if q' = [] then 0 else 1))"

lemma wp_ide_finish:
  assumes ok: "ide_ok s q" "i \<notin> set q" and H: "held s = {''ide''}" and rdy: "q \<noteq> [] \<Longrightarrow> ide_ready (Suc n) (ide_status s)"
  shows "wp (ide_finish i) (\<lambda>_ t. ide_status t = drop_ready (if q = [] then 0 else 1) (ide_status s)) s"
proof -
  let ?u = "(upd_buf i ide_done s)\<lparr>procs := map (wake (Ch_buf i)) (procs s)\<rparr>"
  have "wp (bind (gets idequeue) (\<lambda>q. andthen (whenK (q \<noteq> None) (idestart q)) (release ''ide'')))
    (\<lambda>_ t. ide_status t = drop_ready (if q = [] then 0 else 1) (ide_status s)) ?u"
  proof (cases q)
    case Nil
    then show ?thesis using ide_ok_head [OF ok(1)] H by simp
  next
    case (Cons j q')
    have "ide_ok ?u q" using ok by (simp add: ide_ok_upd_buf)
    then have "b_blockno (bufs ?u ! j) < FSSIZE" using Cons by (simp add: ide_ok_def)
    moreover have "ide_ready (Suc n) (ide_status ?u)" using rdy Cons by simp
    ultimately show ?thesis using Cons ide_ok_head [OF ok(1)] H by (simp add: wp_idestart)
  qed
  then show ?thesis unfolding ide_finish_def wp_andthen wp_modify wp_wakeup using H by simp
qed

lemma wp_ideintr:
  assumes ok: "ide_ok s (i # q)" and H: "held s = {}" and rdy: "ide_ready (Suc (Suc n)) (ide_status s)"
  shows "wp (ideintr d) (\<lambda>_ t. ide_status t = drop_ready (ide_waits (bufs s) (i # q)) (ide_status s)) s" (is "wp _ ?Q s")
proof -
  let ?s1 = "s\<lparr>held := {''ide''}, idequeue := qnext s i\<rparr>"
  have i: "idequeue s = Some i" "i \<notin> set q" "i < length (bufs s)" using ok by (auto simp: ide_ok_def)
  have s1: "ide_ok ?s1 q" using ide_ok_tail [of "s\<lparr>held := {''ide''}\<rparr>" i q] ok by simp
  have "wp (andthen (whenK (b_flags (bufs s ! i) AND B_DIRTY = 0)
      (bind (idewait True) (\<lambda>r. whenK (r \<ge> 0) (modify (upd_buf i (\<lambda>b. b\<lparr>b_data := d\<rparr>)))))) (ide_finish i)) ?Q ?s1"
  proof (cases "b_flags (bufs s ! i) AND B_DIRTY = 0")
    case True
    let ?v = "upd_buf i (\<lambda>b. b\<lparr>b_data := d\<rparr>) (?s1\<lparr>ide_status := drop_ready 1 (ide_status s)\<rparr>)"
    have "ide_ready (Suc n) (ide_status ?v)" using ide_ready_drop [of 1 "Suc n"] rdy by simp
    then have "wp (ide_finish i) (\<lambda>_ t. ide_status t = drop_ready (if q = [] then 0 else 1) (ide_status ?v)) ?v"
      using s1 i by (intro wp_ide_finish) (simp_all add: ide_ok_upd_buf)
    then have "wp (ide_finish i) ?Q ?v" using True by (simp add: ide_waits_def drop_ready_add)
    then show ?thesis using True rdy by (simp add: wp_idewait)
  next
    case False
    have "wp (ide_finish i) ?Q ?s1"
      using wp_ide_finish [OF s1 i(2), of n] ide_ready_mono [OF rdy, of "Suc n"] False by (simp add: ide_waits_def)
    then show ?thesis using False by simp
  qed
  then show ?thesis using H i by (simp add: ideintr_def)
qed

lemma ideintr_ready:
  assumes ok: "ide_ok s (i # q)" and H: "held s = {}" and rdy: "ide_ready (Suc (Suc n)) (ide_status s)"
  obtains t where "ideintr d s = Inr ((), t)" "ide_ok t q" "held t = {}" "procs t = map (wake (Ch_buf i)) (procs s)"
    "ide_outs t = ide_outs s @ start_outs s q" "ide_status t = drop_ready (ide_waits (bufs s) (i # q)) (ide_status s)"
    "bufs t = (bufs s)[i := ide_done ((bufs s ! i)\<lparr>b_data := if b_flags (bufs s ! i) AND B_DIRTY = 0 then d else b_data (bufs s ! i)\<rparr>)]"
proof -
  obtain t where t: "ideintr d s = Inr ((), t)" "ide_status t = drop_ready (ide_waits (bufs s) (i # q)) (ide_status s)"
    using wp_returns [OF wp_ideintr [OF assms]] by auto
  have "ide_sector d s i = (if b_flags (bufs s ! i) AND B_DIRTY = 0 then d else b_data (bufs s ! i))"
    by (simp add: ide_sector_def idewait_loop_ready [OF rdy])
  then show thesis using ideintr_result [OF t(1) ok H] by (intro that [OF t(1) _ _ _ _ t(2)]) simp_all
qed

text \<open>C40: A disk error is lost. When the drive reports a fault for the sector that buffer \<open>i\<close> waits for, \<^verbatim>\<open>ideintr\<close> skips the
  transfer but still marks the buffer valid and clean: whoever reads the block gets the buffer's old contents as if they
  were the block's.\<close>

theorem ide_read_error:
  assumes "ide_ok s [i]" "held s = {}" "b_flags (bufs s ! i) AND B_DIRTY = 0"
    "ide_status s = busy @ r # rest" "\<not> list_ex ide_rdy busy" "ide_rdy r" "r AND (IDE_DF OR IDE_ERR) \<noteq> 0"
  shows "\<exists>t. ideintr d s = Inr ((), t) \<and> ide_complete t i \<and> b_data (bufs t ! i) = b_data (bufs s ! i) \<and> idequeue t = None"
proof -
  have loop: "idewait_loop True (busy @ r # rest) = Some (- 1, rest)"
    using assms(5-7) by (induction busy) (auto simp: ide_rdy_def)
  have i: "idequeue s = Some i" "qnext s i = None" "i < length (bufs s)" using assms(1) by (auto simp: ide_ok_def)
  have w: "wp (ideintr d) (\<lambda>_ _. True) s"
    using assms(2,3) i by (simp add: ideintr_def idewait_def assms(4) loop ide_finish_def)
  obtain t where t: "ideintr d s = Inr ((), t)" using wp_returns [OF w] by auto
  note r = ideintr_result [OF t assms(1,2)]
  have "ide_sector d s i = b_data (bufs s ! i)" by (simp add: ide_sector_def assms(4) loop)
  then have "bufs t ! i = ide_done (bufs s ! i)" using r i(3) by simp
  moreover have "idequeue t = None" using r ide_ok_head by force
  moreover have "b_data (ide_done b) = b_data b" for b by (simp add: ide_done_def)
  ultimately show ?thesis using t by (simp add: ide_complete_def)
qed

section \<open>The drive\<close>

text \<open>
  The other side of the ports, after the ATA programming interface that \<^verbatim>\<open>ide.c\<close> is written against (this is hardware, no code
  of the repository). Bytes written to ports \<open>0x1f2\<close> to \<open>0x1f6\<close> are kept in registers; a byte written to \<open>0x1f7\<close> starts a command on the sector
  that the registers name, in LBA addressing, on the drive that bit 4 of \<open>0x1f6\<close> selects; a write
  takes its sector from port \<open>0x1f0\<close>. When a command is done and bit 1 of the control register \<open>0x3f6\<close> is clear the drive
  interrupts, and the data port then holds the sector that was read.
\<close>

datatype ata_cmd = Ata_idle | Ata_read nat nat | Ata_write nat nat

type_synonym sectors = "nat \<Rightarrow> nat \<Rightarrow> byte list"

record ata =
  ata_regs :: "nat \<Rightarrow> uint"
  ata_active :: ata_cmd
  ata_disk :: sectors

definition ata_drive :: "ata \<Rightarrow> nat" where
  "ata_drive a = unat (drop_bit 4 (ata_regs a 0x1f6) AND 1)"

definition ata_lba :: "ata \<Rightarrow> nat" where
  "ata_lba a = unat ((ata_regs a 0x1f3 AND 0xff) OR push_bit 8 (ata_regs a 0x1f4 AND 0xff) OR
     push_bit 16 (ata_regs a 0x1f5 AND 0xff) OR push_bit 24 (ata_regs a 0x1f6 AND 0x0f))"

definition set_sector :: "nat \<Rightarrow> nat \<Rightarrow> byte list \<Rightarrow> sectors \<Rightarrow> sectors" where
  "set_sector dr n d L = L(dr := (L dr)(n := d))"

fun ata_out :: "ide_io \<Rightarrow> ata \<Rightarrow> ata" where
  "ata_out (Outb p v) a =
     (if p = 0x1f7 then
        a\<lparr>ata_active := (if ata_regs a 0x1f2 \<noteq> 1 \<or> ata_regs a 0x1f6 AND 0x40 = 0 then Ata_idle
           else if v = 0x20 then Ata_read (ata_drive a) (ata_lba a)
           else if v = 0x30 then Ata_write (ata_drive a) (ata_lba a) else Ata_idle)\<rparr>
      else a\<lparr>ata_regs := (ata_regs a)(p := v)\<rparr>)"
| "ata_out (Outsl p d) a =
     (case ata_active a of Ata_write dr n \<Rightarrow> if p = 0x1f0 then a\<lparr>ata_disk := set_sector dr n d (ata_disk a)\<rparr> else a | _ \<Rightarrow> a)"
| "ata_out (Ioapicenable irq c) a = a"

definition ata_irq :: "ata \<Rightarrow> bool" where
  "ata_irq a \<longleftrightarrow> ata_active a \<noteq> Ata_idle \<and> ata_regs a 0x3f6 AND 2 = 0"

definition ata_data :: "ata \<Rightarrow> byte list" where
  "ata_data a = (case ata_active a of Ata_read dr n \<Rightarrow> ata_disk a dr n | _ \<Rightarrow> [])"

text \<open>What the buffer of a request asks for, and its effect on the sectors.\<close>

definition ide_cmd :: "buf \<Rightarrow> ata_cmd" where
  "ide_cmd b = (if b_flags b AND B_DIRTY \<noteq> 0 then Ata_write (b_dev b mod 2) (b_blockno b) else Ata_read (b_dev b mod 2) (b_blockno b))"

definition ide_put :: "buf \<Rightarrow> sectors \<Rightarrow> sectors" where
  "ide_put b L = (if b_flags b AND B_DIRTY \<noteq> 0 then set_sector (b_dev b mod 2) (b_blockno b) (b_data b) L else L)"

definition ide_got :: "sectors \<Rightarrow> buf \<Rightarrow> buf" where
  "ide_got L b = ide_done (b\<lparr>b_data := (if b_flags b AND B_DIRTY = 0 then L (b_dev b mod 2) (b_blockno b) else b_data b)\<rparr>)"

lemma low_bits:
  fixes w :: uint
  assumes "w < 2 ^ 28"
  shows "take_bit 28 w = w"
proof -
  have "unat w < 2 ^ 28" using assms by (simp add: word_less_nat_alt)
  then have "take_bit 28 (unat w) = unat w" by (simp add: take_bit_nat_eq_self_iff)
  then have "unat (take_bit 28 w) = unat w" by (simp add: unsigned_take_bit_eq)
  then show ?thesis by (simp only: word_unat_eq_iff)
qed

lemma lba_bytes:
  fixes w d :: uint
  assumes "w < 2 ^ 28"
  shows "(w AND 0xff AND 0xff) OR push_bit 8 (drop_bit 8 w AND 0xff AND 0xff) OR push_bit 16 (drop_bit 16 w AND 0xff AND 0xff) OR
    push_bit 24 ((0xe0 OR push_bit 4 (d AND 1) OR (drop_bit 24 w AND 0x0f)) AND 0x0f) = w" (is "?l = w")
proof -
  have m: "(0xff :: uint) = mask 8" "(0x0f :: uint) = mask 4" "(0xe0 :: uint) = push_bit 5 (mask 3)"
    by (simp_all add: mask_eq_exp_minus_1 push_bit_eq_mult)
  have "bit ?l n = bit (take_bit 28 w) n" if "n < 32" for n
  proof -
    consider "n < 8" | "8 \<le> n" "n < 16" | "16 \<le> n" "n < 24" | "24 \<le> n" "n < 28" | "28 \<le> n" using that by linarith
    then show ?thesis unfolding m using that by cases (simp_all add: bit_simps less_diff_conv2)
  qed
  then show ?thesis using low_bits [OF assms] by (intro bit_word_eqI) simp
qed

lemma drive_bit:
  fixes w :: uint
  shows "drop_bit 4 (0xe0 OR push_bit 4 (of_nat n AND 1) OR (w AND 0x0f)) AND 1 = (of_nat n AND 1 :: uint)"
    "(0xe0 OR push_bit 4 (of_nat n AND 1) OR (w AND 0x0f)) AND 0x40 \<noteq> (0 :: uint)"
    "unat (of_nat n AND 1 :: uint) = n mod 2"
proof -
  have m: "(0x0f :: uint) = mask 4" "(0xe0 :: uint) = push_bit 5 (mask 3)" "(1 :: uint) = mask 1" "(0x40 :: uint) = push_bit 6 (mask 1)"
    by (simp_all add: mask_eq_exp_minus_1 push_bit_eq_mult)
  show "drop_bit 4 (0xe0 OR push_bit 4 (of_nat n AND 1) OR (w AND 0x0f)) AND 1 = (of_nat n AND 1 :: uint)"
    unfolding m by (rule bit_word_eqI) (auto simp: bit_simps)
  have "bit ((0xe0 OR push_bit 4 (of_nat n AND 1) OR (w AND 0x0f)) AND 0x40 :: uint) 6"
    unfolding m by (simp add: bit_simps)
  then show "(0xe0 OR push_bit 4 (of_nat n AND 1) OR (w AND 0x0f)) AND 0x40 \<noteq> (0 :: uint)" by (metis bit_0_eq bot_apply bot_bool_def)
  show "unat (of_nat n AND 1 :: uint) = n mod 2" by (simp add: and_one_eq unat_mod unat_of_nat mod_mod_cancel)
qed

text \<open>The bytes \<^verbatim>\<open>idestart\<close> writes make the drive do what the buffer asks for, with an interrupt at the end.\<close>

lemma ata_start:
  fixes a :: ata
  assumes "b_blockno b < FSSIZE"
  defines "a' \<equiv> fold ata_out (idestart_outs b) a"
  shows "ata_active a' = ide_cmd b" "ata_irq a'" "ata_disk a' = ide_put b (ata_disk a)"
proof -
  let ?w = "of_nat (b_blockno b) :: uint"
  have w: "unat ?w = b_blockno b" "?w < 2 ^ 28" using assms(1) by (simp_all add: FSSIZE_def unat_of_nat word_less_nat_alt)
  note l = lba_bytes [OF w(2), of "of_nat (b_dev b)"] drive_bit [of "b_dev b"]
  have "(1 :: uint) \<noteq> 0" by simp
  show "ata_active a' = ide_cmd b" "ata_disk a' = ide_put b (ata_disk a)"
    using w(1) l
    by (simp_all add: a'_def idestart_outs_def Let_def BSIZE_def SECTOR_SIZE_def ata_drive_def ata_lba_def ide_cmd_def ide_put_def
        IDE_CMD_READ_def IDE_CMD_WRITE_def)
  then show "ata_irq a'"
    by (simp add: ata_irq_def ide_cmd_def) (simp add: a'_def idestart_outs_def Let_def)
qed

section \<open>Every request is served\<close>

text \<open>Driver and drive together: an interrupt comes only from a command that is done; the handler finds that command's
  data in the port, and what it writes to the ports reaches the drive.\<close>

definition ide_irq :: "(ata \<times> 'a ide_st_scheme, unit) kop" where
  "ide_irq = (\<lambda>(a, s).
     if \<not> ata_irq a then Inl Blocked
     else case ideintr (ata_data a) s of Inl e \<Rightarrow> Inl e
       | Inr (_, t) \<Rightarrow> Inr ((), fold ata_out (drop (length (ide_outs s)) (ide_outs t)) (a\<lparr>ata_active := Ata_idle\<rparr>), t))"

text \<open>The drive works on the first request of the queue. \<open>L\<close> are the sectors without that request's write.\<close>

definition ata_serving :: "sectors \<Rightarrow> ata \<Rightarrow> buf list \<Rightarrow> nat list \<Rightarrow> bool" where
  "ata_serving L a bs q \<longleftrightarrow> (case q of [] \<Rightarrow> ata_active a = Ata_idle \<and> ata_disk a = L
     | i # _ \<Rightarrow> ata_active a = ide_cmd (bs ! i) \<and> ata_irq a \<and> ata_disk a = ide_put (bs ! i) L)"

text \<open>The requests, one after the other, on the sectors and the buffers.\<close>

fun served :: "nat list \<Rightarrow> sectors \<times> buf list \<Rightarrow> sectors \<times> buf list" where
  "served [] (L, bs) = (L, bs)"
| "served (i # q) (L, bs) = served q (ide_put (bs ! i) L, bs[i := ide_got L (bs ! i)])"

definition wakes :: "nat list \<Rightarrow> proc \<Rightarrow> proc" where
  "wakes q = fold (\<lambda>i. wake (Ch_buf i)) q"

lemma wakes_simps [simp]: "wakes [] p = p" "wakes (i # q) p = wakes q (wake (Ch_buf i) p)"
  by (simp_all add: wakes_def)

lemma wakes_awake: "p_state p \<noteq> SLEEPING \<Longrightarrow> wakes q p = p"
  by (induction q arbitrary: p) (simp_all add: wake_def)

lemma wakes_state:
  "p_state p = SLEEPING \<Longrightarrow> p_chan p = Some (Ch_buf i) \<Longrightarrow> i \<in> set q \<Longrightarrow> p_state (wakes q p) = RUNNABLE"
  by (induction q) (auto simp: wake_def wakes_awake)

lemma ide_irq_step:
  assumes ok: "ide_ok s (i # q)" and srv: "ata_serving L a (bufs s) (i # q)" and H: "held s = {}"
    and rdy: "ide_ready (Suc (Suc n)) (ide_status s)"
  obtains a' t where "ide_irq (a, s) = Inr ((), a', t)" "ide_ok t q" "held t = {}" "procs t = map (wake (Ch_buf i)) (procs s)"
    "ide_status t = drop_ready (ide_waits (bufs s) (i # q)) (ide_status s)" "bufs t = (bufs s)[i := ide_got L (bufs s ! i)]"
    "ata_serving (ide_put (bufs s ! i) L) a' (bufs t) q"
proof -
  let ?b = "bufs s ! i"
  have a: "ata_active a = ide_cmd ?b" "ata_irq a" "ata_disk a = ide_put ?b L" using srv by (simp_all add: ata_serving_def)
  obtain t where t: "ideintr (ata_data a) s = Inr ((), t)" "ide_ok t q" "held t = {}" "procs t = map (wake (Ch_buf i)) (procs s)"
    "ide_outs t = ide_outs s @ start_outs s q" "ide_status t = drop_ready (ide_waits (bufs s) (i # q)) (ide_status s)"
    "bufs t = (bufs s)[i := ide_done (?b\<lparr>b_data := if b_flags ?b AND B_DIRTY = 0 then ata_data a else b_data ?b\<rparr>)]"
    using ideintr_ready [OF ok H rdy] by metis
  have "b_flags ?b AND B_DIRTY = 0 \<Longrightarrow> ata_data a = L (b_dev ?b mod 2) (b_blockno ?b)"
    using a by (simp add: ata_data_def ide_cmd_def ide_put_def)
  then have b: "bufs t = (bufs s)[i := ide_got L ?b]" using t(7) by (simp add: ide_got_def)
  let ?a = "fold ata_out (start_outs s q) (a\<lparr>ata_active := Ata_idle\<rparr>)"
  have "ata_serving (ide_put ?b L) ?a (bufs t) q"
  proof (cases q)
    case (Cons j q')
    then have "j \<noteq> i" "b_blockno (bufs s ! j) < FSSIZE" using ok by (auto simp: ide_ok_def)
    then show ?thesis using ata_start [of "bufs s ! j" "a\<lparr>ata_active := Ata_idle\<rparr>"] a(3) b Cons
      by (simp add: ata_serving_def start_outs_def)
  qed (simp add: ata_serving_def start_outs_def a(3))
  moreover have "ide_irq (a, s) = Inr ((), ?a, t)" using a(2) t(1,5) by (simp add: ide_irq_def)
  ultimately show thesis using that t(2,3,4,6) b by blast
qed

lemma ide_waits_le: "ide_waits bs q \<le> 2"
  by (cases q) (simp_all add: ide_waits_def)

lemma ide_waits_upd: "i \<notin> set q \<Longrightarrow> ide_waits (bs[i := b]) q = ide_waits bs q"
  by (cases q) (auto simp: ide_waits_def)

lemma ide_irqs:
  fixes s :: "'a ide_st_scheme"
  assumes "ide_ok s q" "ata_serving L a (bufs s) q" "held s = {}" "ide_ready (2 * n) (ide_status s)" "n \<le> length q"
  shows "\<exists>a' t. forK (\<lambda>_. ide_irq) (replicate n ()) (a, s) = Inr ((), a', t) \<and> ide_ok t (drop n q) \<and> held t = {} \<and>
    served (take n q) (L, bufs s) = (fst (served (take n q) (L, bufs s)), bufs t) \<and>
    ata_serving (fst (served (take n q) (L, bufs s))) a' (bufs t) (drop n q) \<and>
    procs t = map (wakes (take n q)) (procs s) \<and>
    ide_status t = drop_ready (\<Sum>k < n. ide_waits (bufs s) (drop k q)) (ide_status s)"
  using assms
proof (induction n arbitrary: s a L q)
  case 0
  then show ?case by (simp add: skip_def ret_def)
next
  case (Suc n)
  obtain i q' where q: "q = i # q'" using Suc.prems(5) by (cases q) auto
  have rdy: "ide_ready (Suc (Suc (2 * n))) (ide_status s)" using Suc.prems(4) by simp
  let ?L = "ide_put (bufs s ! i) L" and ?w = "ide_waits (bufs s) (i # q')"
  obtain a1 t1 where t1: "ide_irq (a, s) = Inr ((), a1, t1)" "ide_ok t1 q'" "held t1 = {}" "procs t1 = map (wake (Ch_buf i)) (procs s)"
    "ide_status t1 = drop_ready ?w (ide_status s)" "bufs t1 = (bufs s)[i := ide_got L (bufs s ! i)]" "ata_serving ?L a1 (bufs t1) q'"
    using ide_irq_step [OF _ _ Suc.prems(3) rdy, of i q' L a] Suc.prems(1,2) q by metis
  have r1: "ide_ready (2 * n) (ide_status t1)"
    unfolding t1(5) using rdy ide_waits_le [of "bufs s" "i # q'"] by (intro ide_ready_drop ide_ready_mono [OF rdy]) simp
  have i: "i \<notin> set (drop k q')" for k using Suc.prems(1) q by (auto simp: ide_ok_def dest: in_set_dropD)
  have w: "(\<Sum>k < n. ide_waits (bufs t1) (drop k q')) = (\<Sum>k < n. ide_waits (bufs s) (drop k q'))"
    unfolding t1(6) using i by (intro sum.cong) (simp_all add: ide_waits_upd)
  have sv: "served (take (Suc n) q) (L, bufs s) = served (take n q') (?L, bufs t1)" by (simp add: q t1(6))
  have p: "map (wakes (take n q')) (procs t1) = map (wakes (take (Suc n) q)) (procs s)" by (simp add: q t1(4))
  have st: "drop_ready (\<Sum>k < n. ide_waits (bufs t1) (drop k q')) (ide_status t1) =
      drop_ready (\<Sum>k < Suc n. ide_waits (bufs s) (drop k q)) (ide_status s)"
    unfolding w t1(5) by (simp add: drop_ready_add sum.lessThan_Suc_shift q del: sum.lessThan_Suc)
  have f: "forK (\<lambda>_. ide_irq) (replicate (Suc n) ()) (a, s) = forK (\<lambda>_. ide_irq) (replicate n ()) (a1, t1)"
    using t1(1) by (simp add: andthen_def bind_def)
  have d: "drop (Suc n) q = drop n q'" "n \<le> length q'" using Suc.prems(5) by (simp_all add: q)
  show ?case using Suc.IH [OF t1(2,7,3) r1 d(2)] unfolding f sv p st d(1) .
qed


section \<open>A run\<close>

lemma ide_wait_ready:
  assumes ok: "ide_ok s q" "can_request s i" "i \<notin> set q" and rdy: "ide_ready 1 (ide_status s)"
  obtains t where "ide_wait i s = Inr ((), t)" "ide_status t = drop_ready (if q = [] then 1 else 0) (ide_status s)"
proof -
  obtain nx h where u: "ide_ok (s\<lparr>held := {''ide''}, qnext := nx, idequeue := h\<rparr>) (q @ [i])"
    "ide_request i s = whenK (h = Some i) (idestart h) (s\<lparr>held := {''ide''}, qnext := nx, idequeue := h\<rparr>)"
    using ide_request_step [OF ok] by metis
  let ?u = "s\<lparr>held := {''ide''}, qnext := nx, idequeue := h\<rparr>"
  have h: "h = Some i \<longleftrightarrow> q = []" using ide_ok_head [OF u(1)] ok(3) by (cases q) auto
  have b: "b_blockno (bufs ?u ! i) < FSSIZE" "ide_ready (Suc 0) (ide_status ?u)"
    using ok(2) rdy by (simp_all add: can_request_def One_nat_def)
  have "wp (whenK (h = Some i) (idestart h)) (\<lambda>_ v. ide_status v = drop_ready (if q = [] then 1 else 0) (ide_status s) \<and>
      held v = {''ide''} \<and> cur v = cur s) ?u"
    using h b wp_idestart [of 0 ?u i] by (cases "q = []") simp_all
  then obtain v where v: "ide_request i s = Inr ((), v)" "ide_status v = drop_ready (if q = [] then 1 else 0) (ide_status s)"
      "held v = {''ide''}" "cur v = cur s"
    unfolding u(2) [symmetric] wp_def by (auto split: sum.splits)
  obtain p where "cur s = Some p" using ok(2) by (auto simp: can_request_def)
  then have "wp (andthen (sleep_enter (Ch_buf i) ''ide'') (release ''ptable'')) (\<lambda>_ t. ide_status t = ide_status v) v"
    using v(3,4) by (simp add: sleep_enter_def myproc_def upd_proc_def)
  from wp_returns [OF this] obtain t where t: "andthen (sleep_enter (Ch_buf i) ''ide'') (release ''ptable'') v = Inr ((), t)"
    "ide_status t = ide_status v" by auto
  have "ide_wait i s = Inr ((), t)" unfolding ide_wait_def andthen_Inr_iff [of "ide_request i"] using v(1) t(1) by blast
  then show thesis by (rule that) (simp add: t(2) v(2))
qed

text \<open>Processes 0 and 1 hold the locks of buffers 3, to be read from sector 7 of drive 1, and 5, to be written to sector 9.
  The statuses are busy ones and ready ones, some with the bit that announces data.\<close>

definition ide_idle :: ide_st where
  "ide_idle = bio_st.extend (bio_boot\<lparr>procs := [proc_demo, proc_demo\<lparr>p_pid := 2\<rparr>],
       bufs := (bufs bio_boot)[
         3 := buf_boot\<lparr>b_dev := 1, b_blockno := 7, b_lock := \<lparr>sl_locked = True, sl_pid = 1\<rparr>\<rparr>,
         5 := buf_boot\<lparr>b_flags := B_DIRTY, b_dev := 1, b_blockno := 9, b_data := replicate 512 4, b_lock := \<lparr>sl_locked = True, sl_pid = 2\<rparr>\<rparr>]\<rparr>)
     (ide_st.fields None (\<lambda>_. None) True [0x80, 0x50, 0xd0, 0x58, 0x80, 0x80, 0x50, 0x50, 0x50] [])"

lemma ide_idle_ok: "ide_ok ide_idle []" "held ide_idle = {}" "can_request ide_idle 3"
  by (simp_all add: ide_idle_def bio_boot_def bio_st.defs ide_st.defs ide_ok_def can_request_def ide_complete_def my_pid_def
    proc_demo_def NBUF_def FSSIZE_def buf_boot_def B_VALID_def B_DIRTY_def)

lemma ide_idle_status:
  "ide_ready 5 (ide_status ide_idle)"
  by (simp add: ide_idle_def bio_boot_def bio_st.defs ide_st.defs ide_ready_def ide_rdy_def IDE_BSY_def IDE_DRDY_def IDE_DF_def IDE_ERR_def)

theorem ide_read_error_witness:
  "\<exists>t1 t. ide_wait 3 ide_idle = Inr ((), t1) \<and> ideintr (replicate 512 7) (t1\<lparr>ide_status := [0xd0, 0x51]\<rparr>) = Inr ((), t) \<and>
     ide_complete t 3 \<and> b_data (bufs t ! 3) = replicate 512 0"
proof -
  obtain t1 where t1: "ide_wait 3 ide_idle = Inr ((), t1)"
    using ide_wait_ready [OF ide_idle_ok(1,3)] ide_ready_mono [OF ide_idle_status, of 1] by auto
  have r: "ide_ok t1 [3]" "held t1 = {}" "bufs t1 = bufs ide_idle" using ide_wait_result [OF t1 ide_idle_ok(1,3)] by simp_all
  have b: "bufs t1 ! 3 = buf_boot\<lparr>b_dev := 1, b_blockno := 7, b_lock := \<lparr>sl_locked = True, sl_pid = 1\<rparr>\<rparr>"
    unfolding r(3) by (simp add: ide_idle_def bio_boot_def bio_st.defs ide_st.defs NBUF_def)
  show ?thesis
    using t1 r b ide_read_error [of "t1\<lparr>ide_status := [0xd0, 0x51]\<rparr>" 3 "[0xd0]" "0x51" "[]" "replicate 512 7"]
    by (auto simp: ide_rdy_def IDE_BSY_def IDE_DRDY_def IDE_DF_def IDE_ERR_def buf_boot_def BSIZE_def)
qed

lemma ide_idle_second:
  assumes "bufs t = bufs ide_idle" "held t = {}" "havedisk1 t" "procs t = (procs ide_idle)[0 := x]"
  shows "can_request (t\<lparr>cur := Some 1\<rparr>) 5"
  using assms by (simp add: ide_idle_def bio_boot_def bio_st.defs ide_st.defs can_request_def ide_complete_def my_pid_def
    proc_demo_def NBUF_def FSSIZE_def buf_boot_def B_VALID_def B_DIRTY_def)

text \<open>Both requests are made; the drive has been given the first one.\<close>

lemma ide_idle_run:
  obtains t1 t2 where "ide_wait 3 ide_idle = Inr ((), t1)" "ide_wait 5 (t1\<lparr>cur := Some 1\<rparr>) = Inr ((), t2)"
    "ide_run ide_idle [3, 5] [] t2" "ide_ok t2 [3, 5]" "held t2 = {}" "ide_ready 4 (ide_status t2)" "bufs t2 = bufs ide_idle"
    "ide_outs t2 = idestart_outs (bufs ide_idle ! 3)"
proof -
  have c: "cur ide_idle = Some 0" "havedisk1 ide_idle" "ide_outs ide_idle = []"
    by (simp_all add: ide_idle_def bio_boot_def bio_st.defs ide_st.defs)
  obtain t1 where t1: "ide_wait 3 ide_idle = Inr ((), t1)" "ide_status t1 = drop_ready 1 (ide_status ide_idle)"
    using ide_wait_ready [OF ide_idle_ok(1,3)] ide_ready_mono [OF ide_idle_status, of 1] by auto
  note r1 = ide_wait_result [OF t1(1) ide_idle_ok(1,3)]
  let ?t1 = "t1\<lparr>cur := Some 1\<rparr>"
  have can: "can_request ?t1 5" using r1 c by (intro ide_idle_second) auto
  have ok1: "ide_ok ?t1 [3]" using r1 by simp
  have rd: "ide_ready 4 (ide_status t1)" using ide_ready_drop [of 1 4] ide_idle_status t1(2) by simp
  obtain t2 where t2: "ide_wait 5 ?t1 = Inr ((), t2)" "ide_status t2 = ide_status t1"
    using ide_wait_ready [OF ok1 can] ide_ready_mono [OF rd, of 1] by auto
  note r2 = ide_wait_result [OF t2(1) ok1 can]
  have "ide_run ide_idle ([] @ [3]) [] t1" by (rule ide_req [OF ide_start ide_idle_ok(3) _ t1(1)]) simp
  then have "ide_run ide_idle [3] [] (t1\<lparr>cur := Some 1, procs := procs t1, bufs := bufs t1, ide_status := ide_status t1\<rparr>)"
    by (intro ide_other) simp_all
  then have "ide_run ide_idle [3] [] ?t1" by simp
  then have "ide_run ide_idle ([3] @ [5]) [] t2" by (rule ide_req [OF _ can _ t2(1)]) simp
  then show thesis using r1 r2 c rd t2(2) by (intro that [OF t1(1) t2(1)]) simp_all
qed

theorem ide_fifo_witness:
  "\<exists>t1 t2 t3. ide_wait 3 ide_idle = Inr ((), t1) \<and> ide_wait 5 (t1\<lparr>cur := Some 1\<rparr>) = Inr ((), t2) \<and>
     ideintr (replicate 512 7) t2 = Inr ((), t3) \<and> ide_finished t2 t3 = [3] \<and>
     q_list (qnext t3) (idequeue t3) [5] \<and> \<not> ide_complete t3 5"
proof -
  obtain t1 t2 where t2: "ide_wait 3 ide_idle = Inr ((), t1)" "ide_wait 5 (t1\<lparr>cur := Some 1\<rparr>) = Inr ((), t2)"
    "ide_run ide_idle [3, 5] [] t2" "ide_ok t2 [3, 5]" "held t2 = {}" "ide_ready 4 (ide_status t2)" by (rule ide_idle_run)
  have rd: "ide_ready (Suc (Suc 0)) (ide_status t2)" by (rule ide_ready_mono [OF t2(6)]) simp
  obtain t3 where t3: "ideintr (replicate 512 7) t2 = Inr ((), t3)" "\<exists>b. bufs t3 = (bufs t2)[3 := ide_done b]"
    by (rule ideintr_ready [OF t2(4,5) rd]) blast
  have f: "ide_finished t2 t3 = [3]" using ide_finished_head [OF t2(4)] t3(2) by blast
  have "ide_run ide_idle [3, 5] ([] @ ide_finished t2 t3) t3" by (rule ide_int [OF t2(3) t3(1)])
  then have "ide_run ide_idle [3, 5] [3] t3" by (simp add: f)
  from ide_fifo [OF this ide_idle_ok(1,2)] have "q_list (qnext t3) (idequeue t3) [5]" "\<not> ide_complete t3 5" by auto
  with t2(1,2) t3(1) f show ?thesis by blast
qed

text \<open>The drive before the run: nothing to do, and sectors whose bytes are their number.\<close>

definition ata_demo :: ata where
  "ata_demo = \<lparr>ata_regs = (\<lambda>_. 0), ata_active = Ata_idle, ata_disk = (\<lambda>dr n. replicate 512 (of_nat n))\<rparr>"


end
