(* ===== verification/File.thy ===== *)
theory File
  imports Fs
begin

text \<open>
  \<^verbatim>\<open>kernel/pipe.c\<close> and \<^verbatim>\<open>kernel/file.c\<close>: pipes and open files. A file pointer is an index into \<^verbatim>\<open>ftable.file\<close>. A
  pipe lives in a page of its own; the map \<open>pipes\<close> gives the \<^verbatim>\<open>struct pipe\<close> at the page's address. The second
  half shows that a pipe is a bounded queue of bytes.
\<close>

section \<open>State\<close>

definition PIPESIZE :: nat where "PIPESIZE = 512"
definition NFILE :: nat where "NFILE = 100"

record pipe =
  pi_data :: "byte list"
  pi_nread :: uint
  pi_nwrite :: uint
  pi_readopen :: bool
  pi_writeopen :: bool

datatype fd_type = FD_NONE | FD_PIPE | FD_INODE

record struct_file =
  f_type :: fd_type
  f_ref :: int
  f_readable :: bool
  f_writable :: bool
  f_pipe :: ulong
  f_ip :: "nat option"
  f_off :: uint

record file_st = fs_st +
  ftable :: "struct_file list"
  pipes :: "ulong \<Rightarrow> pipe option"
  ticks :: uint

definition upd_file :: "nat \<Rightarrow> (struct_file \<Rightarrow> struct_file) \<Rightarrow> 'a file_st_scheme \<Rightarrow> 'a file_st_scheme" where
  "upd_file i f s = s\<lparr>ftable := (ftable s)[i := f (ftable s ! i)]\<rparr>"

text \<open>The pipe at an address; there is none once its page has been freed.\<close>

definition the_pipe :: "ulong \<Rightarrow> ('a file_st_scheme, pipe) kop" where
  "the_pipe p = bind (gets (\<lambda>s. pipes s p)) (\<lambda>r. case r of None \<Rightarrow> fail Fault | Some x \<Rightarrow> ret x)"

definition set_pipe :: "ulong \<Rightarrow> pipe \<Rightarrow> ('a file_st_scheme, unit) kop" where
  "set_pipe p x = modify (\<lambda>s. s\<lparr>pipes := (pipes s)(p := Some x)\<rparr>)"

section \<open>Pipes\<close>

definition pipeclose :: "ulong \<Rightarrow> bool \<Rightarrow> ('a file_st_scheme, unit) kop" where
  "pipeclose p writable =
     andthen (acquire ''pipe'')
    (bind (the_pipe p) (\<lambda>x.
     andthen (if writable
       then andthen (set_pipe p (x\<lparr>pi_writeopen := False\<rparr>)) (wakeup (Ch_nread (unat p)))
       else andthen (set_pipe p (x\<lparr>pi_readopen := False\<rparr>)) (wakeup (Ch_nwrite (unat p))))
    (bind (the_pipe p) (\<lambda>y.
     if \<not> pi_readopen y \<and> \<not> pi_writeopen y
     then andthen (release ''pipe'')
         (andthen (modify (\<lambda>s. s\<lparr>pipes := (pipes s)(p := None)\<rparr>)) (kfree p))
     else release ''pipe''))))"

definition pi_full :: "pipe \<Rightarrow> bool" where
  "pi_full x \<longleftrightarrow> pi_nwrite x = pi_nread x + of_nat PIPESIZE"

definition pi_put :: "byte \<Rightarrow> pipe \<Rightarrow> pipe" where
  "pi_put b x = x\<lparr>pi_data := (pi_data x)[unat (pi_nwrite x) mod PIPESIZE := b], pi_nwrite := pi_nwrite x + 1\<rparr>"

text \<open>The loop of \<^verbatim>\<open>pipewrite\<close>; the result says whether it ran to its end. A writer that finds the pipe full
  wakes the readers and sleeps.\<close>

fun pipewrite_loop :: "ulong \<Rightarrow> byte list \<Rightarrow> ('a file_st_scheme, bool) kop" where
  "pipewrite_loop p [] = ret True"
| "pipewrite_loop p (b # bs) =
     bind (the_pipe p) (\<lambda>x.
     if pi_full x then
       bind (if \<not> pi_readopen x then ret True else bind curproc (\<lambda>c. gets (\<lambda>s. p_killed (procs s ! c)))) (\<lambda>stop.
       if stop then andthen (release ''pipe'') (ret False)
       else andthen (wakeup (Ch_nread (unat p))) (andthen (sleep (Ch_nwrite (unat p)) ''pipe'') (fail Blocked)))
     else andthen (set_pipe p (pi_put b x)) (pipewrite_loop p bs))"

definition pipewrite :: "ulong \<Rightarrow> byte list \<Rightarrow> ('a file_st_scheme, int) kop" where
  "pipewrite p addr =
     andthen (acquire ''pipe'')
    (bind (pipewrite_loop p addr) (\<lambda>ok.
     if ok then andthen (wakeup (Ch_nread (unat p))) (andthen (release ''pipe'') (ret (int (length addr))))
     else ret (- 1)))"

fun piperead_loop :: "ulong \<Rightarrow> nat \<Rightarrow> ('a file_st_scheme, byte list) kop" where
  "piperead_loop p 0 = ret []"
| "piperead_loop p (Suc n) =
     bind (the_pipe p) (\<lambda>x.
     if pi_nread x = pi_nwrite x then ret []
     else
       andthen (set_pipe p (x\<lparr>pi_nread := pi_nread x + 1\<rparr>))
      (bind (piperead_loop p n) (\<lambda>bs. ret (pi_data x ! (unat (pi_nread x) mod PIPESIZE) # bs))))"

definition piperead :: "ulong \<Rightarrow> nat \<Rightarrow> ('a file_st_scheme, int \<times> byte list) kop" where
  "piperead p n =
     andthen (acquire ''pipe'')
    (bind (the_pipe p) (\<lambda>x.
     bind (if pi_nread x = pi_nwrite x \<and> pi_writeopen x then
             bind curproc (\<lambda>c.
             bind (gets (\<lambda>s. p_killed (procs s ! c))) (\<lambda>killed.
             if killed then ret False
             else andthen (sleep (Ch_nread (unat p)) ''pipe'') (fail Blocked)))
           else ret True) (\<lambda>go.
     if \<not> go then andthen (release ''pipe'') (ret (- 1, []))
     else
       bind (piperead_loop p n) (\<lambda>bs.
       andthen (wakeup (Ch_nwrite (unat p)))
      (andthen (release ''pipe'') (ret (int (length bs), bs)))))))"

section \<open>Open files\<close>

definition fileinit :: "('a file_st_scheme, unit) kop" where
  "fileinit = initlock ''ftable''"

definition filealloc :: "('a file_st_scheme, nat option) kop" where
  "filealloc =
     andthen (acquire ''ftable'')
    (bind (gets (\<lambda>s. find (\<lambda>i. f_ref (ftable s ! i) = 0) [0..<length (ftable s)])) (\<lambda>r.
     case r of
       Some i \<Rightarrow>
         andthen (modify (upd_file i (\<lambda>f. f\<lparr>f_ref := 1\<rparr>)))
        (andthen (release ''ftable'') (ret (Some i)))
     | None \<Rightarrow> andthen (release ''ftable'') (ret None)))"

definition filedup :: "nat \<Rightarrow> ('a file_st_scheme, nat) kop" where
  "filedup f =
     andthen (acquire ''ftable'')
    (bind (gets (\<lambda>s. f_ref (ftable s ! f))) (\<lambda>r.
     if r < 1 then panic ''filedup''
     else andthen (modify (upd_file f (\<lambda>x. x\<lparr>f_ref := f_ref x + 1\<rparr>)))
         (andthen (release ''ftable'') (ret f))))"

text \<open>The inode of a file of type \<^verbatim>\<open>FD_INODE\<close>.\<close>

definition the_ip :: "struct_file \<Rightarrow> ('a file_st_scheme, nat) kop" where
  "the_ip f = (case f_ip f of None \<Rightarrow> fail Fault | Some ip \<Rightarrow> ret ip)"

definition fileclose :: "nat \<Rightarrow> ('a file_st_scheme, unit) kop" where
  "fileclose f =
     andthen (acquire ''ftable'')
    (bind (gets (\<lambda>s. ftable s ! f)) (\<lambda>x.
     if f_ref x < 1 then panic ''fileclose''
     else
       andthen (modify (upd_file f (\<lambda>x. x\<lparr>f_ref := f_ref x - 1\<rparr>)))
      (if f_ref x - 1 > 0 then release ''ftable''
       else
         bind (gets (\<lambda>s. ftable s ! f)) (\<lambda>ff.
         andthen (modify (upd_file f (\<lambda>x. x\<lparr>f_ref := 0, f_type := FD_NONE\<rparr>)))
        (andthen (release ''ftable'')
        (case f_type ff of
           FD_PIPE \<Rightarrow> pipeclose (f_pipe ff) (f_writable ff)
         | FD_INODE \<Rightarrow> andthen begin_op (bind (the_ip ff) (\<lambda>ip. andthen (iput ip) end_op))
         | FD_NONE \<Rightarrow> skip))))))"

definition filestat :: "nat \<Rightarrow> ('a file_st_scheme, stat option) kop" where
  "filestat f =
     bind (gets (\<lambda>s. ftable s ! f)) (\<lambda>x.
     if f_type x = FD_INODE then
       andthen (ilock (f_ip x))
      (bind (the_ip x) (\<lambda>ip.
       bind (stati ip) (\<lambda>st.
       andthen (iunlock (f_ip x)) (ret (Some st)))))
     else ret None)"

definition fileread :: "nat \<Rightarrow> int \<Rightarrow> ('a file_st_scheme, int \<times> byte list) kop" where
  "fileread f n =
     bind (gets (\<lambda>s. ftable s ! f)) (\<lambda>x.
     if \<not> f_readable x then ret (- 1, [])
     else if f_type x = FD_PIPE then piperead (f_pipe x) (nat n)
     else if f_type x = FD_INODE then
       andthen (ilock (f_ip x))
      (bind (the_ip x) (\<lambda>ip.
       bind (gets (\<lambda>s. f_off (ftable s ! f))) (\<lambda>off.
       bind (readi ip off (of_int n)) (\<lambda>(r, d).
       andthen (whenK (r > 0) (modify (upd_file f (\<lambda>y. y\<lparr>f_off := f_off y + of_int r\<rparr>))))
      (andthen (iunlock (f_ip x)) (ret (r, d)))))))
     else panic ''fileread'')"

text \<open>The most a single transaction of \<^verbatim>\<open>filewrite\<close> writes.\<close>

definition filewrite_max :: nat where
  "filewrite_max = ((MAXOPBLOCKS - 1 - 1 - 2) div 2) * 512"

text \<open>The loop of \<^verbatim>\<open>filewrite\<close>; the result says whether everything was written.\<close>

function filewrite_loop :: "nat \<Rightarrow> byte list \<Rightarrow> ('a file_st_scheme, bool) kop" where
  "filewrite_loop f src =
     (if src = [] then ret True
      else
        bind (bind (gets (\<lambda>s. ftable s ! f)) the_ip) (\<lambda>ip.
        bind (gets (\<lambda>s. i_type (inodes s ! ip))) (\<lambda>t.
        let n1 = (if t \<noteq> T_DEV then min (length src) filewrite_max else length src) in
        andthen begin_op
       (andthen (ilock (Some ip))
       (bind (gets (\<lambda>s. f_off (ftable s ! f))) (\<lambda>off.
        bind (writei ip (take n1 src) off) (\<lambda>r.
        andthen (whenK (r > 0) (modify (upd_file f (\<lambda>y. y\<lparr>f_off := f_off y + of_int r\<rparr>))))
       (andthen (iunlock (Some ip))
       (andthen end_op
       (if r < 0 then ret False
        else if r \<noteq> int n1 then panic ''short filewrite''
        else filewrite_loop f (drop n1 src)))))))))))"
  by auto
termination
  by (relation "measure (\<lambda>(_, src). length src)") (auto simp: filewrite_max_def MAXOPBLOCKS_def)

declare filewrite_loop.simps [simp del]

definition filewrite :: "nat \<Rightarrow> byte list \<Rightarrow> ('a file_st_scheme, int) kop" where
  "filewrite f src =
     bind (gets (\<lambda>s. ftable s ! f)) (\<lambda>x.
     if \<not> f_writable x then ret (- 1)
     else if f_type x = FD_PIPE then pipewrite (f_pipe x) src
     else if f_type x = FD_INODE then
       bind (filewrite_loop f src) (\<lambda>ok. ret (if ok then int (length src) else - 1))
     else panic ''filewrite'')"

text \<open>\<^verbatim>\<open>pipealloc\<close> gives the read end and the write end, or releases what it has taken. The bytes of the new
  page, which nothing reads before they are written, start as 0.\<close>

definition pipealloc_undo :: "nat option \<Rightarrow> nat option \<Rightarrow> ('a file_st_scheme, (nat \<times> nat) option) kop" where
  "pipealloc_undo f0 f1 =
     andthen (case f0 of None \<Rightarrow> skip | Some f \<Rightarrow> fileclose f)
    (andthen (case f1 of None \<Rightarrow> skip | Some f \<Rightarrow> fileclose f) (ret None))"

definition pipealloc :: "('a file_st_scheme, (nat \<times> nat) option) kop" where
  "pipealloc =
     bind filealloc (\<lambda>r0.
     case r0 of None \<Rightarrow> pipealloc_undo None None
     | Some f0 \<Rightarrow>
         bind filealloc (\<lambda>r1.
         case r1 of None \<Rightarrow> pipealloc_undo (Some f0) None
         | Some f1 \<Rightarrow>
             bind kalloc (\<lambda>p.
             if p = 0 then pipealloc_undo (Some f0) (Some f1)
             else
               andthen (set_pipe p \<lparr>pi_data = replicate PIPESIZE 0, pi_nread = 0, pi_nwrite = 0,
                  pi_readopen = True, pi_writeopen = True\<rparr>)
              (andthen (initlock ''pipe'')
              (andthen (modify (upd_file f0 (\<lambda>y. y\<lparr>f_type := FD_PIPE, f_readable := True, f_writable := False, f_pipe := p\<rparr>)))
              (andthen (modify (upd_file f1 (\<lambda>y. y\<lparr>f_type := FD_PIPE, f_readable := False, f_writable := True, f_pipe := p\<rparr>)))
                 (ret (Some (f0, f1)))))))))"

section \<open>A pipe is a bounded queue\<close>

interpretation pipe_ring: ring PIPESIZE
  by unfold_locales (simp_all add: PIPESIZE_def)

definition pi_bytes :: "pipe \<Rightarrow> byte list" where
  "pi_bytes x = ring_bytes PIPESIZE (pi_data x) (pi_nread x) (unat (pi_nwrite x - pi_nread x))"

definition pi_ok :: "pipe \<Rightarrow> bool" where
  "pi_ok x \<longleftrightarrow> length (pi_data x) = PIPESIZE \<and> length (pi_bytes x) \<le> PIPESIZE"

lemma pi_full_iff: "pi_full x \<longleftrightarrow> length (pi_bytes x) = PIPESIZE"
  by (simp add: pi_full_def pi_bytes_def pipe_ring.full_iff)

lemma pi_empty_iff: "pi_nread x = pi_nwrite x \<longleftrightarrow> pi_bytes x = []"
proof -
  have "pi_bytes x = [] \<longleftrightarrow> unat (pi_nwrite x - pi_nread x) = 0" by (metis length_0_conv length_ring_bytes pi_bytes_def)
  then show ?thesis by (auto simp: unat_eq_zero)
qed

lemma pi_put_bytes:
  assumes "pi_ok x" "length (pi_bytes x) < PIPESIZE"
  shows "pi_bytes (pi_put b x) = pi_bytes x @ [b]" "pi_ok (pi_put b x)"
proof -
  have a: "length (pi_data x) = PIPESIZE" "unat (pi_nwrite x - pi_nread x) < PIPESIZE"
    using assms by (simp_all add: pi_ok_def pi_bytes_def)
  show "pi_bytes (pi_put b x) = pi_bytes x @ [b]"
    using pipe_ring.push [OF a] pipe_ring.unat_suc [OF a(2)] by (simp add: pi_put_def pi_bytes_def)
  then show "pi_ok (pi_put b x)" using assms by (simp add: pi_ok_def pi_put_def)
qed

lemma pi_get_bytes:
  assumes "pi_bytes x \<noteq> []"
  shows "pi_bytes x = pi_data x ! (unat (pi_nread x) mod PIPESIZE) # pi_bytes (x\<lparr>pi_nread := pi_nread x + 1\<rparr>)"
proof -
  have "pi_nwrite x \<noteq> pi_nread x" using assms pi_empty_iff [of x] by auto
  then have "unat (pi_nwrite x - pi_nread x) = Suc (unat (pi_nwrite x - (pi_nread x + 1)))"
    using unat_minus_one [of "pi_nwrite x - pi_nread x"] unat_gt_0 [of "pi_nwrite x - pi_nread x"]
    by (simp add: algebra_simps)
  then show ?thesis by (simp add: pi_bytes_def ring_bytes_Suc)
qed

lemma wp_the_pipe [simp]: "wp (the_pipe p) Q s \<longleftrightarrow> (\<exists>x. pipes s p = Some x \<and> Q x s)"
  by (auto simp: the_pipe_def split: option.splits)

lemma wp_set_pipe [simp]: "wp (set_pipe p x) Q s = Q () (s\<lparr>pipes := (pipes s)(p := Some x)\<rparr>)"
  by (simp add: set_pipe_def)

lemma pipes_same: "pipes s p = Some x \<Longrightarrow> s\<lparr>pipes := (pipes s)(p := Some x)\<rparr> = s"
  by (simp add: fun_upd_idem)

text \<open>The ends of a pipe that are open.\<close>

definition pi_ends :: "pipe \<Rightarrow> bool \<times> bool" where
  "pi_ends x = (pi_readopen x, pi_writeopen x)"

lemma wp_pipewrite_loop:
  assumes "pipes s p = Some x" "pi_ok x" "length (pi_bytes x) + length bs \<le> PIPESIZE"
  shows "wp (pipewrite_loop p bs) (\<lambda>ok t. ok \<and> (\<exists>y. t = s\<lparr>pipes := (pipes s)(p := Some y)\<rparr> \<and> pi_ok y \<and>
    pi_bytes y = pi_bytes x @ bs \<and> pi_ends y = pi_ends x)) s"
  using assms
proof (induction bs arbitrary: s x)
  case Nil
  then show ?case
    unfolding pipewrite_loop.simps wp_ret by (intro conjI exI [of _ x] pipes_same [symmetric]) simp_all
next
  case (Cons b bs)
  let ?y = "pi_put b x"
  have r: "length (pi_bytes x) < PIPESIZE" using Cons.prems by simp
  note y = pi_put_bytes [OF Cons.prems(2) r]
  have "pi_ends ?y = pi_ends x" by (simp add: pi_ends_def pi_put_def)
  moreover have "wp (pipewrite_loop p bs) (\<lambda>ok t. ok \<and> (\<exists>z. t = s\<lparr>pipes := (pipes s)(p := Some ?y)\<rparr>\<lparr>pipes :=
      (pipes (s\<lparr>pipes := (pipes s)(p := Some ?y)\<rparr>))(p := Some z)\<rparr> \<and> pi_ok z \<and>
      pi_bytes z = pi_bytes ?y @ bs \<and> pi_ends z = pi_ends ?y)) (s\<lparr>pipes := (pipes s)(p := Some ?y)\<rparr>)"
    using Cons.prems y by (intro Cons.IH) simp_all
  ultimately show ?case using Cons.prems r y by (simp add: pi_full_iff del: fun_upd_apply)
qed

lemma wp_pipewrite:
  assumes "pipes s p = Some x" "pi_ok x" "length (pi_bytes x) + length bs \<le> PIPESIZE" "''pipe'' \<notin> held s" "''ptable'' \<notin> held s"
  shows "wp (pipewrite p bs) (\<lambda>r t. r = int (length bs) \<and> held t = held s \<and> cur t = cur s \<and> (\<exists>y. pipes t p = Some y \<and> pi_ok y \<and>
    pi_bytes y = pi_bytes x @ bs \<and> pi_ends y = pi_ends x)) s"
proof -
  let ?s = "s\<lparr>held := insert ''pipe'' (held s)\<rparr>"
  have l: "wp (pipewrite_loop p bs) (\<lambda>ok t. ok \<and> (\<exists>y. t = ?s\<lparr>pipes := (pipes ?s)(p := Some y)\<rparr> \<and> pi_ok y \<and>
    pi_bytes y = pi_bytes x @ bs \<and> pi_ends y = pi_ends x)) ?s"
    using assms by (intro wp_pipewrite_loop) simp_all
  show ?thesis
    unfolding pipewrite_def wp_andthen [of "acquire _"]
    using assms by (simp, intro wp_mono [OF l]) auto
qed

lemma wp_piperead_loop:
  assumes "pipes s p = Some x" "pi_ok x"
  shows "wp (piperead_loop p n) (\<lambda>bs t. bs = take n (pi_bytes x) \<and> (\<exists>y. t = s\<lparr>pipes := (pipes s)(p := Some y)\<rparr> \<and> pi_ok y \<and>
    pi_bytes y = drop n (pi_bytes x) \<and> pi_ends y = pi_ends x)) s"
  using assms
proof (induction n arbitrary: s x)
  case 0
  then show ?case
    unfolding piperead_loop.simps wp_ret by (intro conjI exI [of _ x] pipes_same [symmetric]) simp_all
next
  case (Suc n)
  show ?case
  proof (cases "pi_bytes x = []")
    case True
    then have e: "wp (piperead_loop p (Suc n)) Q s" if "Q [] s" for Q using that Suc.prems pi_empty_iff [of x] by simp
    show ?thesis
      by (rule e) (use Suc.prems True in \<open>intro conjI exI [of _ x] pipes_same [symmetric]; simp\<close>)
  next
    case False
    let ?y = "x\<lparr>pi_nread := pi_nread x + 1\<rparr>" let ?b = "pi_data x ! (unat (pi_nread x) mod PIPESIZE)"
    note g = pi_get_bytes [OF False]
    have y: "pi_ok ?y" using Suc.prems g by (simp add: pi_ok_def)
    have e: "pi_ends ?y = pi_ends x" by (simp add: pi_ends_def)
    have "wp (piperead_loop p n) (\<lambda>bs t. bs = take n (pi_bytes ?y) \<and> (\<exists>z. t = s\<lparr>pipes := (pipes s)(p := Some ?y)\<rparr>\<lparr>pipes :=
      (pipes (s\<lparr>pipes := (pipes s)(p := Some ?y)\<rparr>))(p := Some z)\<rparr> \<and> pi_ok z \<and>
      pi_bytes z = drop n (pi_bytes ?y) \<and> pi_ends z = pi_ends ?y)) (s\<lparr>pipes := (pipes s)(p := Some ?y)\<rparr>)"
      using y by (intro Suc.IH) simp_all
    then have "wp (piperead_loop p n) (\<lambda>bs t. ?b # bs = take (Suc n) (pi_bytes x) \<and> (\<exists>z. t = s\<lparr>pipes := (pipes s)(p := Some z)\<rparr> \<and>
        pi_ok z \<and> pi_bytes z = drop (Suc n) (pi_bytes x) \<and> pi_ends z = pi_ends x)) (s\<lparr>pipes := (pipes s)(p := Some ?y)\<rparr>)"
    proof (rule wp_mono)
      fix bs t
      assume a: "bs = take n (pi_bytes ?y) \<and> (\<exists>z. t = s\<lparr>pipes := (pipes s)(p := Some ?y)\<rparr>\<lparr>pipes :=
        (pipes (s\<lparr>pipes := (pipes s)(p := Some ?y)\<rparr>))(p := Some z)\<rparr> \<and> pi_ok z \<and>
        pi_bytes z = drop n (pi_bytes ?y) \<and> pi_ends z = pi_ends ?y)"
      show "?b # bs = take (Suc n) (pi_bytes x) \<and> (\<exists>z. t = s\<lparr>pipes := (pipes s)(p := Some z)\<rparr> \<and>
        pi_ok z \<and> pi_bytes z = drop (Suc n) (pi_bytes x) \<and> pi_ends z = pi_ends x)"
        unfolding g take_Suc_Cons drop_Suc_Cons using a e by auto
    qed
    then show ?thesis using Suc.prems False pi_empty_iff [of x] by (simp del: fun_upd_apply)
  qed
qed

lemma wp_piperead:
  assumes "pipes s p = Some x" "pi_ok x" "pi_bytes x \<noteq> [] \<or> \<not> pi_writeopen x" "''pipe'' \<notin> held s" "''ptable'' \<notin> held s"
  shows "wp (piperead p n) (\<lambda>(r, bs) t. r = int (length bs) \<and> bs = take n (pi_bytes x) \<and> held t = held s \<and> (\<exists>y. pipes t p = Some y \<and> pi_ok y \<and>
    pi_bytes y = drop n (pi_bytes x) \<and> pi_ends y = pi_ends x)) s"
proof -
  let ?s = "s\<lparr>held := insert ''pipe'' (held s)\<rparr>"
  have l: "wp (piperead_loop p n) (\<lambda>bs t. bs = take n (pi_bytes x) \<and> (\<exists>y. t = ?s\<lparr>pipes := (pipes ?s)(p := Some y)\<rparr> \<and> pi_ok y \<and>
    pi_bytes y = drop n (pi_bytes x) \<and> pi_ends y = pi_ends x)) ?s"
    using assms by (intro wp_piperead_loop) simp_all
  have ne: "\<not> (pi_nread x = pi_nwrite x \<and> pi_writeopen x)" using assms pi_empty_iff [of x] by auto
  have "wp (piperead_loop p n) (\<lambda>bs. wp (andthen (wakeup (Ch_nwrite (unat p))) (andthen (release ''pipe'') (ret (int (length bs), bs))))
      (\<lambda>(r, bs) t. r = int (length bs) \<and> bs = take n (pi_bytes x) \<and> held t = held s \<and> (\<exists>y. pipes t p = Some y \<and> pi_ok y \<and>
        pi_bytes y = drop n (pi_bytes x) \<and> pi_ends y = pi_ends x))) ?s"
    using assms by (intro wp_mono [OF l]) auto
  then show ?thesis using assms ne by (cases "pi_writeopen x") (simp_all add: piperead_def)
qed

text \<open>C21: A pipe is a first-in first-out queue. Writing bytes that fit and then reading gives back the oldest
  bytes in the order they were written, across the wrap-around of the buffer and of the 32-bit counters,
  and neither call waits.\<close>

theorem pipe_fifo:
  assumes "pipes s p = Some x" "pi_ok x" "length (pi_bytes x) + length bs \<le> PIPESIZE" "pi_bytes x @ bs \<noteq> []"
    and "''pipe'' \<notin> held s" "''ptable'' \<notin> held s"
  shows "wp (bind (pipewrite p bs) (\<lambda>w. bind (piperead p n) (\<lambda>(r, rs). ret (w, r, rs)))) (\<lambda>(w, r, rs) t.
    w = int (length bs) \<and> r = int (length rs) \<and> rs = take n (pi_bytes x @ bs) \<and>
    (\<exists>y. pipes t p = Some y \<and> pi_ok y \<and> pi_bytes y = drop n (pi_bytes x @ bs))) s"
  unfolding wp_bind [of "pipewrite p bs"]
proof (rule wp_mono [OF wp_pipewrite [OF assms(1-3,5,6)]])
  fix w t
  assume t: "w = int (length bs) \<and> held t = held s \<and> cur t = cur s \<and>
    (\<exists>y. pipes t p = Some y \<and> pi_ok y \<and> pi_bytes y = pi_bytes x @ bs \<and> pi_ends y = pi_ends x)"
  then obtain y where y: "pipes t p = Some y" "pi_ok y" "pi_bytes y = pi_bytes x @ bs" by blast
  have "wp (piperead p n) (\<lambda>(r, rs) u. r = int (length rs) \<and> rs = take n (pi_bytes y) \<and> held u = held t \<and>
      (\<exists>z. pipes u p = Some z \<and> pi_ok z \<and> pi_bytes z = drop n (pi_bytes y) \<and> pi_ends z = pi_ends y)) t"
    using t y assms by (intro wp_piperead) auto
  then show "wp (bind (piperead p n) (\<lambda>(r, rs). ret (w, r, rs))) (\<lambda>(w, r, rs) t.
      w = int (length bs) \<and> r = int (length rs) \<and> rs = take n (pi_bytes x @ bs) \<and>
      (\<exists>y. pipes t p = Some y \<and> pi_ok y \<and> pi_bytes y = drop n (pi_bytes x @ bs))) t"
    unfolding wp_bind [of "piperead p n"] by (rule wp_mono) (use t y in auto)
qed

text \<open>A process with a pipe whose counters are about to wrap.\<close>

definition pipe_demo :: pipe where
  "pipe_demo = \<lparr>pi_data = replicate PIPESIZE 0, pi_nread = 0xffffffff, pi_nwrite = 0xffffffff, pi_readopen = True, pi_writeopen = True\<rparr>"

definition inode_free :: inode where
  "inode_free = \<lparr>i_dev = 0, i_inum = 0, i_ref = 0, i_lock = \<lparr>sl_locked = False, sl_pid = 0\<rparr>, i_valid = False, i_type = 0,
     i_major = 0, i_minor = 0, i_nlink = 0, i_size = 0, i_addrs = replicate (NDIRECT + 1) 0\<rparr>"

definition fs_boot :: fs_st where
  "fs_boot = con_st.extend con_boot (fs_st.fields (decode_sb sb_block) (replicate NINODE inode_free) (replicate NDEV None))"

definition file_free :: struct_file where
  "file_free = \<lparr>f_type = FD_NONE, f_ref = 0, f_readable = False, f_writable = False, f_pipe = 0, f_ip = None, f_off = 0\<rparr>"

definition file_boot :: file_st where
  "file_boot = fs_st.extend fs_boot (file_st.fields (replicate NFILE file_free) (\<lambda>p. if p = 0xffff800000400000 then Some pipe_demo else None) 0)"

lemma file_boot_simps [simp]:
  "held file_boot = {}" "pipes file_boot 0xffff800000400000 = Some pipe_demo" "ftable file_boot = replicate NFILE file_free"
  by (simp_all add: file_boot_def fs_boot_def fs_st.defs file_st.defs con_st.defs)

theorem pipe_fifo_witness:
  "wp (bind (pipewrite 0xffff800000400000 [1, 2, 3]) (\<lambda>w. bind (piperead 0xffff800000400000 2) (\<lambda>(r, rs). ret (w, r, rs))))
    (\<lambda>(w, r, rs) t. w = 3 \<and> r = 2 \<and> rs = [1, 2]) file_boot"
proof -
  have b: "pi_ok pipe_demo" "pi_bytes pipe_demo = []" by (simp_all add: pi_ok_def pi_bytes_def pipe_demo_def)
  show ?thesis
    by (rule wp_mono [OF pipe_fifo [of file_boot _ pipe_demo "[1, 2, 3]" 2]]) (auto simp: b PIPESIZE_def)
qed

text \<open>C22: Writing to a pipe. While the pipe is full and the read end is closed, or the writer has been killed, a
  write of a byte returns \<open>-1\<close> with the pipe unchanged and its lock released, instead of waiting for ever.\<close>

theorem pipewrite_broken:
  assumes "pipes s p = Some x" "pi_full x" "cur s = Some c" "\<not> pi_readopen x \<or> p_killed (procs s ! c)" "''pipe'' \<notin> held s"
  shows "pipewrite p (b # bs) s = Inr (- 1, s)"
proof -
  have h: "s\<lparr>held := held s\<rparr> = s" by simp
  have "wp (pipewrite p (b # bs)) (\<lambda>r t. r = - 1 \<and> t = s) s"
    using assms h by (auto simp: pipewrite_def)
  then show ?thesis using wp_returns by fastforce
qed

theorem pipewrite_broken_witness:
  "pipewrite 0xffff800000400000 [9] (file_boot\<lparr>pipes := (\<lambda>_. Some (pipe_demo\<lparr>pi_nwrite := 511, pi_readopen := False\<rparr>))\<rparr>) =
    Inr (- 1, file_boot\<lparr>pipes := (\<lambda>_. Some (pipe_demo\<lparr>pi_nwrite := 511, pi_readopen := False\<rparr>))\<rparr>)"
  by (rule pipewrite_broken [where c = 0]) (simp_all add: pi_full_def pipe_demo_def PIPESIZE_def, simp_all add: file_boot_def
    fs_boot_def fs_st.defs file_st.defs con_st.defs)

end
