(* ===== verification/Vm.thy ===== *)
theory Vm
  imports File Seg
begin

text \<open>
  \<^verbatim>\<open>kernel/vm.c\<close>: four-level page tables, kept in the pages of the physical memory that \<open>km_mem\<close> holds under the
  kernel's direct map. A pointer to a table entry is its kernel address; 0 is the null pointer. The loops over
  pages run over the list of the addresses they visit.
\<close>

section \<open>Page table entries\<close>

definition NR_PTE :: nat where "NR_PTE = 512"
definition KSTACKSIZE :: ulong where "KSTACKSIZE = 4096"

definition PTE_P :: ulong where "PTE_P = 0x001"
definition PTE_W :: ulong where "PTE_W = 0x002"
definition PTE_U :: ulong where "PTE_U = 0x004"
definition PTE_XD :: ulong where "PTE_XD = push_bit 63 1"

definition PTE_ADDR :: "ulong \<Rightarrow> ulong" where "PTE_ADDR pte = pte AND 0x0000FFFFFFFFF000"
definition PTE_FLAGS :: "ulong \<Rightarrow> ulong" where "PTE_FLAGS pte = pte AND (PTE_XD OR 0xFFF)"

definition PML1X :: "ulong \<Rightarrow> ulong" where "PML1X va = drop_bit 12 va AND 0x1ff"
definition PML2X :: "ulong \<Rightarrow> ulong" where "PML2X va = drop_bit 21 va AND 0x1ff"
definition PML3X :: "ulong \<Rightarrow> ulong" where "PML3X va = drop_bit 30 va AND 0x1ff"
definition PML4X :: "ulong \<Rightarrow> ulong" where "PML4X va = drop_bit 39 va AND 0x1ff"
definition PML5X :: "ulong \<Rightarrow> ulong" where "PML5X va = drop_bit 48 va AND 0x1ff"

definition VPN :: "ulong \<Rightarrow> ulong" where
  "VPN x = x AND ((push_bit 48 1 - 1) OR (PGSIZE - 1))"

definition ALIGN :: "ulong \<Rightarrow> ulong \<Rightarrow> ulong" where
  "ALIGN x a = x AND NOT (a - 1)"

section \<open>State\<close>

text \<open>The page table of the kernel, and of the CPU: the table loaded in \<^verbatim>\<open>cr3\<close>, its segment descriptors, its task
  state with the address it has, and the task register.\<close>

record vm_st = file_st +
  kpml4 :: ulong
  cpu_cr3 :: ulong
  cpu_gdt :: "segdesc list"
  cpu_ts :: taskstate
  cpu_ts_addr :: ulong
  cpu_tr :: ushort

definition seginit :: "('a vm_st_scheme, unit) kop" where
  "seginit = modify (\<lambda>s. s\<lparr>cpu_gdt := seginit_gdt (cpu_gdt s)\<rparr>)"

definition ld64 :: "ulong \<Rightarrow> ('a kmem_st_scheme, ulong) kop" where
  "ld64 a = gets (\<lambda>s. load64 (km_mem s) a)"

definition st64 :: "ulong \<Rightarrow> ulong \<Rightarrow> ('a kmem_st_scheme, unit) kop" where
  "st64 a v = modify (\<lambda>s. s\<lparr>km_mem := store64 (km_mem s) a v\<rparr>)"

definition zero_page :: "ulong \<Rightarrow> ('a kmem_st_scheme, unit) kop" where
  "zero_page a = modify (\<lambda>s. s\<lparr>km_mem := memset (km_mem s) a 0 (ucast PGSIZE)\<rparr>)"

text \<open>Storing bytes at an address, and reading them.\<close>

definition store_bytes :: "mem \<Rightarrow> ulong \<Rightarrow> byte list \<Rightarrow> mem" where
  "store_bytes m a bs = (\<lambda>x. if in_region a (length bs) x then bs ! unat (x - a) else m x)"

definition load_bytes :: "mem \<Rightarrow> ulong \<Rightarrow> nat \<Rightarrow> byte list" where
  "load_bytes m a n = map (\<lambda>i. m (a + of_nat i)) [0..<n]"

section \<open>Walking and mapping\<close>

text \<open>The three levels differ only in the entry they look at, at address \<open>e\<close>.\<close>

definition get_table :: "ulong \<Rightarrow> bool \<Rightarrow> ('a kmem_st_scheme, ulong) kop" where
  "get_table e alloc =
     bind (ld64 e) (\<lambda>v.
     if v AND PTE_P \<noteq> 0 then ret (P2V (PTE_ADDR v))
     else if \<not> alloc then ret 0
     else bind kalloc (\<lambda>pml.
       if pml = 0 then ret 0
       else andthen (zero_page pml)
           (andthen (st64 e (V2P pml OR PTE_P OR PTE_W OR PTE_U)) (ret pml))))"

definition get_pml1 :: "ulong \<Rightarrow> ulong \<Rightarrow> bool \<Rightarrow> ('a kmem_st_scheme, ulong) kop" where
  "get_pml1 pml2 va alloc = get_table (pml2 + 8 * PML2X va) alloc"

definition get_pml2 :: "ulong \<Rightarrow> ulong \<Rightarrow> bool \<Rightarrow> ('a kmem_st_scheme, ulong) kop" where
  "get_pml2 pml3 va alloc = get_table (pml3 + 8 * PML3X va) alloc"

definition get_pml3 :: "ulong \<Rightarrow> ulong \<Rightarrow> bool \<Rightarrow> ('a kmem_st_scheme, ulong) kop" where
  "get_pml3 pml4 va alloc = get_table (pml4 + 8 * PML4X va) alloc"

definition walkpml4 :: "ulong \<Rightarrow> ulong \<Rightarrow> bool \<Rightarrow> ('a kmem_st_scheme, ulong) kop" where
  "walkpml4 pml4 va alloc =
     bind (get_pml3 pml4 va alloc) (\<lambda>pml3.
     if pml3 = 0 then ret 0
     else bind (get_pml2 pml3 va alloc) (\<lambda>pml2.
       if pml2 = 0 then ret 0
       else bind (get_pml1 pml2 va alloc) (\<lambda>pml1.
         if pml1 = 0 then ret 0 else ret (pml1 + 8 * PML1X va))))"

text \<open>The loop of \<^verbatim>\<open>mappages\<close>; \<open>n\<close> is the number of pages from \<open>a\<close> to \<open>last\<close>. The result is 0 or -1.\<close>

fun mappages_loop :: "nat \<Rightarrow> ulong \<Rightarrow> ulong \<Rightarrow> ulong \<Rightarrow> ulong \<Rightarrow> ('a kmem_st_scheme, int) kop" where
  "mappages_loop n pml4 a pa pr =
     bind (walkpml4 pml4 a True) (\<lambda>e.
     if e = 0 then ret (- 1)
     else bind (ld64 e) (\<lambda>v.
       if v AND PTE_P \<noteq> 0 then panic ''remap''
       else
         andthen (st64 e (pa OR pr OR PTE_P))
        (case n of 0 \<Rightarrow> ret 0
         | Suc n' \<Rightarrow> mappages_loop n' pml4 (a + PGSIZE) (pa + PGSIZE) pr)))"

declare mappages_loop.simps [simp del]

definition mappages :: "ulong \<Rightarrow> ulong \<Rightarrow> ulong \<Rightarrow> ulong \<Rightarrow> ulong \<Rightarrow> ('a kmem_st_scheme, int) kop" where
  "mappages pml4 va sz pa pr =
     (let a = PGROUNDDOWN va; la = PGROUNDDOWN (va + sz - 1)
      in mappages_loop (unat (la - a) div 4096) pml4 a pa pr)"

section \<open>Freeing\<close>

text \<open>The page addresses from \<open>start\<close> up to \<open>e\<close>.\<close>

definition pages :: "ulong \<Rightarrow> ulong \<Rightarrow> ulong list" where
  "pages start e = map (\<lambda>k. start + of_nat k * PGSIZE) [0..<(unat e - unat start + 4095) div 4096]"

definition free_pte :: "ulong \<Rightarrow> ulong \<Rightarrow> ('a kmem_st_scheme, unit) kop" where
  "free_pte pml1 va =
     (let e = pml1 + 8 * PML1X va in
      bind (ld64 e) (\<lambda>v.
      whenK (v AND PTE_P \<noteq> 0)
        (andthen (kfree (P2V (PTE_ADDR v))) (st64 e 0))))"

definition free_range_1 :: "ulong \<Rightarrow> ulong \<Rightarrow> ulong \<Rightarrow> ('a kmem_st_scheme, unit) kop" where
  "free_range_1 pml1 start e =
     (if PML2X start \<noteq> PML2X (e - 1) then panic ''tried to free memory across different PML1s''
      else forK (free_pte pml1) (pages start e))"

text \<open>The loop shared by the upper levels: \<open>ent\<close> gives the entry for an address, an entry covers \<open>2 ^ sh\<close> bytes,
  and \<open>f\<close> frees within one. A table has 512 entries, so 513 turns are enough.\<close>

fun free_loop :: "nat \<Rightarrow> (ulong \<Rightarrow> ulong) \<Rightarrow> nat \<Rightarrow> (ulong \<Rightarrow> ulong \<Rightarrow> ulong \<Rightarrow> ('a kmem_st_scheme, unit) kop) \<Rightarrow>
    ulong \<Rightarrow> ulong \<Rightarrow> ('a kmem_st_scheme, unit) kop" where
  "free_loop 0 ent sh f start1 e = (if start1 < e then fail Diverge else skip)"
| "free_loop (Suc fuel) ent sh f start1 e =
     (if start1 < e then
        bind (ld64 (ent start1)) (\<lambda>v.
        let next_boundary = ALIGN (start1 + push_bit sh 1) (push_bit sh 1) in
        if v AND PTE_P \<noteq> 0 then
          let end1 = min e next_boundary in
          andthen (f (P2V (PTE_ADDR v)) start1 end1) (free_loop fuel ent sh f end1 e)
        else free_loop fuel ent sh f next_boundary e)
      else skip)"

definition free_range_2 :: "ulong \<Rightarrow> ulong \<Rightarrow> ulong \<Rightarrow> ('a kmem_st_scheme, unit) kop" where
  "free_range_2 pml2 start e =
     (if PML3X start \<noteq> PML3X (e - 1) then panic ''tried to free memory across different PML2s''
      else free_loop 513 (\<lambda>va. pml2 + 8 * PML2X va) 21 free_range_1 start e)"

definition free_range_3 :: "ulong \<Rightarrow> ulong \<Rightarrow> ulong \<Rightarrow> ('a kmem_st_scheme, unit) kop" where
  "free_range_3 pml3 start e =
     (if PML4X start \<noteq> PML4X (e - 1) then panic ''tried to free memory across different PML3s''
      else free_loop 513 (\<lambda>va. pml3 + 8 * PML3X va) 30 free_range_2 start e)"

definition free_range_4 :: "ulong \<Rightarrow> ulong \<Rightarrow> ulong \<Rightarrow> ('a kmem_st_scheme, unit) kop" where
  "free_range_4 pml4 start e =
     (if PML5X start \<noteq> PML5X (e - 1) then panic ''tried to free memory across different PML4s''
      else free_loop 513 (\<lambda>va. pml4 + 8 * PML4X va) 39 free_range_3 start e)"

text \<open>The sizes are returned as \<^verbatim>\<open>int\<close>: only their low 32 bits come back.\<close>

definition deallocuvm :: "ulong \<Rightarrow> ulong \<Rightarrow> ulong \<Rightarrow> ('a kmem_st_scheme, uint) kop" where
  "deallocuvm pml4 oldsz newsz =
     (if newsz \<ge> oldsz then ret (ucast oldsz)
      else andthen (free_range_4 pml4 (VPN (PGROUNDUP newsz)) (VPN (PGROUNDUP oldsz))) (ret (ucast newsz)))"

definition free_pml2 :: "ulong \<Rightarrow> ('a kmem_st_scheme, unit) kop" where
  "free_pml2 pml2 =
     (if pml2 = 0 then panic ''freevm: no pml2''
      else
        andthen (forK (\<lambda>i. bind (ld64 (pml2 + 8 * of_nat i)) (\<lambda>v.
            whenK (v AND PTE_P \<noteq> 0) (kfree (P2V (PTE_ADDR v))))) [0..<NR_PTE])
          (kfree pml2))"

definition free_pml3 :: "ulong \<Rightarrow> ('a kmem_st_scheme, unit) kop" where
  "free_pml3 pml3 =
     (if pml3 = 0 then panic ''freevm: no pml3''
      else
        andthen (forK (\<lambda>i. bind (ld64 (pml3 + 8 * of_nat i)) (\<lambda>v.
            whenK (v AND PTE_P \<noteq> 0) (free_pml2 (P2V (PTE_ADDR v))))) [0..<NR_PTE])
          (kfree pml3))"

definition free_pml4 :: "ulong \<Rightarrow> ('a kmem_st_scheme, unit) kop" where
  "free_pml4 pml4 =
     (if pml4 = 0 then panic ''freevm: no pml4''
      else
        andthen (forK (\<lambda>i. bind (ld64 (pml4 + 8 * of_nat i)) (\<lambda>v.
            whenK (v AND PTE_P \<noteq> 0) (free_pml3 (P2V (PTE_ADDR v))))) [0..<NR_PTE])
          (kfree pml4))"

definition freevm :: "ulong \<Rightarrow> ('a kmem_st_scheme, unit) kop" where
  "freevm pml4 = bind (deallocuvm pml4 KERNBASE 0) (\<lambda>_. free_pml4 pml4)"

section \<open>Address spaces\<close>

text \<open>The loop over \<^verbatim>\<open>kmap\<close> stops at the first empty entry; past the array it faults.\<close>

fun setupkvm_loop :: "ulong \<Rightarrow> kmap list \<Rightarrow> ('a kmem_st_scheme, ulong) kop" where
  "setupkvm_loop pml4 [] = fail Fault"
| "setupkvm_loop pml4 (k # ks) =
     (if phys_start k \<noteq> 0 \<or> phys_end k \<noteq> 0 then
        bind (mappages pml4 (P2V (phys_start k)) (phys_end k - phys_start k) (phys_start k) (perm k)) (\<lambda>r.
        if r < 0 then andthen (freevm pml4) (ret 0) else setupkvm_loop pml4 ks)
      else ret pml4)"

definition setupkvm :: "('a kmem_st_scheme, ulong) kop" where
  "setupkvm =
     bind kalloc (\<lambda>pml4.
     if pml4 = 0 then ret 0
     else andthen (zero_page pml4) (bind (gets km_kmap) (setupkvm_loop pml4)))"

definition switchkvm :: "('a vm_st_scheme, unit) kop" where
  "switchkvm = modify (\<lambda>s. s\<lparr>cpu_cr3 := V2P (kpml4 s)\<rparr>)"

definition kvmalloc :: "('a vm_st_scheme, unit) kop" where
  "kvmalloc = bind setupkvm (\<lambda>p. andthen (modify (\<lambda>s. s\<lparr>kpml4 := p\<rparr>)) switchkvm)"

definition switchuvm :: "nat option \<Rightarrow> ('a vm_st_scheme, unit) kop" where
  "switchuvm pp =
     (case pp of None \<Rightarrow> panic ''switchuvm: no process''
      | Some i \<Rightarrow>
          bind (gets (\<lambda>s. procs s ! i)) (\<lambda>p.
          if p_kstack p = 0 then panic ''switchuvm: no kstack''
          else if p_pml4 p = 0 then panic ''switchuvm: no pgdir''
          else modify (\<lambda>s. s\<lparr>
            cpu_gdt := (cpu_gdt s)[SEG_TSS := TSSDESC_LO (cpu_ts_addr s), SEG_TSS_HI := TSSDESC_HI (cpu_ts_addr s)],
            cpu_ts := (cpu_ts s)\<lparr>rsp0 := p_kstack p + KSTACKSIZE, iopb := 0xFFFFFFFF\<rparr>,
            cpu_tr := of_nat (SEG_TSS * 8),
            cpu_cr3 := V2P (p_pml4 p)\<rparr>)))"

text \<open>\<^verbatim>\<open>inituvm\<close> does not check what \<^verbatim>\<open>kalloc\<close> returns.\<close>

definition inituvm :: "ulong \<Rightarrow> byte list \<Rightarrow> ('a kmem_st_scheme, unit) kop" where
  "inituvm pml4 init =
     (if length init \<ge> unat PGSIZE then panic ''inituvm: more than a page''
      else bind kalloc (\<lambda>mem.
        if mem = 0 then fail Fault
        else
          andthen (zero_page mem)
         (bind (mappages pml4 0 PGSIZE (V2P mem) (PTE_W OR PTE_U)) (\<lambda>_.
          modify (\<lambda>s. s\<lparr>km_mem := store_bytes (km_mem s) mem init\<rparr>)))))"

fun loaduvm_loop :: "ulong \<Rightarrow> ulong \<Rightarrow> nat \<Rightarrow> uint \<Rightarrow> uint \<Rightarrow> ulong list \<Rightarrow> ('a fs_st_scheme, int) kop" where
  "loaduvm_loop pml4 addr ip offset sz [] = ret 0"
| "loaduvm_loop pml4 addr ip offset sz (i # is) =
     bind (walkpml4 pml4 (addr + i) False) (\<lambda>e.
     if e = 0 then panic ''loaduvm: address should exist''
     else bind (ld64 e) (\<lambda>v.
       if v AND PTE_P = 0 then panic ''loaduvm: address should exist''
       else
         let pa = PTE_ADDR v; n = (if ucast sz - i < PGSIZE then ucast sz - i else PGSIZE) in
         bind (readi ip (offset + ucast i) (ucast n)) (\<lambda>(r, d).
         andthen (modify (\<lambda>s. s\<lparr>km_mem := store_bytes (km_mem s) (P2V pa) d\<rparr>))
           (if r \<noteq> uint n then ret (- 1) else loaduvm_loop pml4 addr ip offset sz is))))"

definition loaduvm :: "ulong \<Rightarrow> ulong \<Rightarrow> nat \<Rightarrow> uint \<Rightarrow> uint \<Rightarrow> ('a fs_st_scheme, int) kop" where
  "loaduvm pml4 addr ip offset sz =
     (if addr mod PGSIZE \<noteq> 0 then panic ''loaduvm: addr must be page aligned''
      else loaduvm_loop pml4 addr ip offset sz (pages 0 (ucast sz)))"

fun allocuvm_loop :: "ulong \<Rightarrow> ulong \<Rightarrow> ulong \<Rightarrow> ulong \<Rightarrow> ulong list \<Rightarrow> ('a con_st_scheme, uint) kop" where
  "allocuvm_loop pml4 oldsz newsz pr [] = ret (ucast newsz)"
| "allocuvm_loop pml4 oldsz newsz pr (a # as) =
     bind kalloc (\<lambda>mem.
     if mem = 0 then
       andthen (cprintf (lit ''allocuvm out of memory'' @ [10]) [])
      (bind (deallocuvm pml4 newsz oldsz) (\<lambda>_. ret 0))
     else
       andthen (zero_page mem)
      (bind (mappages pml4 a PGSIZE (V2P mem) (pr OR PTE_U)) (\<lambda>r.
       if r < 0 then
         andthen (cprintf (lit ''allocuvm out of memory (2)'' @ [10]) [])
        (bind (deallocuvm pml4 newsz oldsz) (\<lambda>_.
         andthen (kfree mem) (ret 0)))
       else allocuvm_loop pml4 oldsz newsz pr as)))"

definition allocuvm :: "ulong \<Rightarrow> ulong \<Rightarrow> ulong \<Rightarrow> ulong \<Rightarrow> ('a con_st_scheme, uint) kop" where
  "allocuvm pml4 oldsz newsz pr =
     (if newsz \<ge> KERNBASE then ret 0
      else if newsz < oldsz then ret (ucast oldsz)
      else allocuvm_loop pml4 oldsz newsz pr (pages (PGROUNDUP oldsz) newsz))"

definition clearpteu :: "ulong \<Rightarrow> ulong \<Rightarrow> ('a kmem_st_scheme, unit) kop" where
  "clearpteu pml4 uva =
     bind (walkpml4 pml4 uva False) (\<lambda>e.
     if e = 0 then panic ''clearpteu''
     else bind (ld64 e) (\<lambda>v. st64 e (v AND NOT PTE_U)))"

fun copyuvm_loop :: "ulong \<Rightarrow> ulong \<Rightarrow> ulong list \<Rightarrow> ('a kmem_st_scheme, ulong) kop" where
  "copyuvm_loop pml4 d [] = ret d"
| "copyuvm_loop pml4 d (i # is) =
     bind (walkpml4 pml4 i False) (\<lambda>e.
     if e = 0 then panic ''copyuvm: pte should exist''
     else bind (ld64 e) (\<lambda>v.
       if v AND PTE_P = 0 then panic ''copyuvm: page not present''
       else
         let pa = PTE_ADDR v; flags = PTE_FLAGS v in
         bind kalloc (\<lambda>mem.
         if mem = 0 then andthen (freevm d) (ret 0)
         else
           andthen (modify (\<lambda>s. s\<lparr>km_mem := memmove (km_mem s) mem (P2V pa) (ucast PGSIZE)\<rparr>))
          (bind (mappages d i PGSIZE (V2P mem) flags) (\<lambda>r.
           if r < 0 then andthen (kfree mem) (andthen (freevm d) (ret 0))
           else copyuvm_loop pml4 d is)))))"

definition copyuvm :: "ulong \<Rightarrow> ulong \<Rightarrow> ('a kmem_st_scheme, ulong) kop" where
  "copyuvm pml4 sz =
     bind setupkvm (\<lambda>d. if d = 0 then ret 0 else copyuvm_loop pml4 d (pages 0 sz))"

text \<open>\<^verbatim>\<open>uva2ka\<close> does not check what \<^verbatim>\<open>walkpml4\<close> returns: with no page table for the address it reads through a null
  pointer.\<close>

definition uva2ka :: "ulong \<Rightarrow> ulong \<Rightarrow> ('a kmem_st_scheme, ulong) kop" where
  "uva2ka pml4 uva =
     bind (walkpml4 pml4 uva False) (\<lambda>e.
     if e = 0 then fail Fault
     else bind (ld64 e) (\<lambda>v.
       if v AND PTE_P = 0 then ret 0
       else if v AND PTE_U = 0 then ret 0
       else ret (P2V (PTE_ADDR v))))"

text \<open>The bytes \<open>buf\<close> are those at \<^verbatim>\<open>p\<close>.\<close>

function copyout :: "ulong \<Rightarrow> ulong \<Rightarrow> byte list \<Rightarrow> ('a kmem_st_scheme, int) kop" where
  "copyout pml4 va buf =
     (if buf = [] then ret 0
      else
        let va0 = PGROUNDDOWN va in
        bind (uva2ka pml4 va0) (\<lambda>pa0.
        if pa0 = 0 then ret (- 1)
        else
          let n = min (unat (PGSIZE - (va - va0))) (length buf) in
          andthen (modify (\<lambda>s. s\<lparr>km_mem := store_bytes (km_mem s) (pa0 + (va - va0)) (take n buf)\<rparr>))
            (copyout pml4 (va0 + PGSIZE) (drop n buf))))"
  by auto
termination
proof (relation "measure (\<lambda>(_, _, buf). length buf)")
  fix pml4 va :: ulong and buf :: "byte list" and va0 pa0 n
  assume b: "buf \<noteq> []" "va0 = PGROUNDDOWN va" "n = min (unat (PGSIZE - (va - va0))) (length buf)"
  have "unat (PGROUNDDOWN va) \<le> unat va" by (simp add: unat_PGROUNDDOWN)
  then have "unat (va - va0) = unat va - unat va div 4096 * 4096" by (simp add: b(2) unat_diff_le unat_PGROUNDDOWN)
  then have "unat (va - va0) < 4096" using minus_div_mult_eq_mod [of "unat va" 4096] by simp
  then have "va - va0 \<noteq> PGSIZE" by (auto simp: PGSIZE_def)
  then have "PGSIZE - (va - va0) \<noteq> 0" by simp
  then have "0 < unat (PGSIZE - (va - va0))" by (simp add: unat_gt_0)
  then show "((pml4, va0 + PGSIZE, drop n buf), (pml4, va, buf)) \<in> measure (\<lambda>(_, _, buf). length buf)"
    using b by simp
qed simp

declare copyout.simps [simp del]

end
