(* ===== verification/Proc.thy ===== *)
theory Proc
  imports Vm
begin

text \<open>
  The life of a process, from \<^verbatim>\<open>kernel/proc.c\<close>: \<^verbatim>\<open>allocproc\<close>, \<^verbatim>\<open>userinit\<close>, \<^verbatim>\<open>growproc\<close>, \<^verbatim>\<open>fork\<close>, \<^verbatim>\<open>exit\<close>, \<^verbatim>\<open>wait\<close> and \<^verbatim>\<open>forkret\<close>.
  The addresses of \<^verbatim>\<open>trapret\<close> (assembly) and \<^verbatim>\<open>forkret\<close> are arguments, set by the linker.
\<close>

section \<open>State\<close>

record krn_st = vm_st +
  forkret_first :: bool

definition FL_IF :: ulong where "FL_IF = 0x200"

text \<open>\<^verbatim>\<open>sizeof(struct trapframe)\<close> and \<^verbatim>\<open>sizeof(struct context)\<close>.\<close>

definition sizeof_trapframe :: ulong where "sizeof_trapframe = 192"
definition sizeof_context :: ulong where "sizeof_context = 56"

section \<open>Creation\<close>

text \<open>The stack of a new process: the trap frame at the top, the address of \<^verbatim>\<open>trapret\<close> below it, and a context
  that starts at \<^verbatim>\<open>forkret\<close> (\<^verbatim>\<open>rip\<close> is the last field of \<^verbatim>\<open>struct context\<close>).\<close>

definition allocproc :: "ulong \<Rightarrow> ulong \<Rightarrow> ('a proc_st_scheme, nat option) kop" where
  "allocproc trapret forkret_addr =
     andthen (acquire ''ptable'')
    (bind (gets (\<lambda>s. find_proc (\<lambda>p. p_state p = UNUSED) (procs s))) (\<lambda>r.
     case r of None \<Rightarrow> andthen (release ''ptable'') (ret None)
     | Some i \<Rightarrow>
         andthen (modify (\<lambda>s. (upd_proc i (\<lambda>p. p\<lparr>p_state := EMBRYO, p_pid := nextpid s\<rparr>) s)\<lparr>nextpid := nextpid s + 1\<rparr>))
        (andthen (release ''ptable'')
        (bind kalloc (\<lambda>k.
         andthen (modify (upd_proc i (\<lambda>p. p\<lparr>p_kstack := k\<rparr>)))
        (if k = 0 then andthen (modify (upd_proc i (\<lambda>p. p\<lparr>p_state := UNUSED\<rparr>))) (ret None)
         else
           let sp = k + KSTACKSIZE - sizeof_trapframe - 8; ctx = sp - sizeof_context in
           andthen (st64 sp trapret)
          (andthen (modify (\<lambda>s. s\<lparr>km_mem := memset (km_mem s) ctx 0 (ucast sizeof_context)\<rparr>))
          (andthen (st64 (ctx + 48) forkret_addr)
          (andthen (modify (upd_proc i (\<lambda>p. p\<lparr>p_context := ctx\<rparr>)))
             (ret (Some i)))))))))))"

text \<open>The registers of the first process. \<open>initcode\<close> is the program linked into the kernel.\<close>

definition init_tf :: trapframe where
  "init_tf = tf_zero\<lparr>tf_cs := of_nat (SEG_UCODE * 8 + DPL_USER), tf_ds := of_nat (SEG_UDATA * 8 + DPL_USER),
     tf_es := of_nat (SEG_UDATA * 8 + DPL_USER), tf_ss := of_nat (SEG_UDATA * 8 + DPL_USER), tf_rflags := FL_IF,
     tf_rsp := PGSIZE, tf_rip := 0\<rparr>"

definition userinit :: "ulong \<Rightarrow> ulong \<Rightarrow> byte list \<Rightarrow> ('a fs_st_scheme, unit) kop" where
  "userinit trapret forkret_addr initcode =
     bind (allocproc trapret forkret_addr) (\<lambda>r.
     case r of None \<Rightarrow> fail Fault
     | Some p \<Rightarrow>
         andthen (modify (\<lambda>s. s\<lparr>initproc := Some p\<rparr>))
        (bind setupkvm (\<lambda>pml4.
         andthen (modify (upd_proc p (\<lambda>x. x\<lparr>p_pml4 := pml4\<rparr>)))
        (if pml4 = 0 then panic ''userinit: out of memory?''
         else
           andthen (inituvm pml4 initcode)
          (andthen (modify (upd_proc p (\<lambda>x. x\<lparr>p_sz := PGSIZE, p_tf := init_tf,
              p_name := patch 0 (safestrcpy (view_list (lit ''initcode'')) 16) (p_name x)\<rparr>)))
          (bind (namei (lit ''/'')) (\<lambda>ip.
           andthen (modify (upd_proc p (\<lambda>x. x\<lparr>p_cwd := ip\<rparr>)))
          (andthen (acquire ''ptable'')
          (andthen (modify (upd_proc p (\<lambda>x. x\<lparr>p_state := RUNNABLE\<rparr>)))
             (release ''ptable'')))))))))) "

text \<open>\<^verbatim>\<open>growproc\<close> keeps the size in a \<^verbatim>\<open>uint\<close>.\<close>

definition growproc :: "int \<Rightarrow> ('a vm_st_scheme, int) kop" where
  "growproc n =
     bind curproc (\<lambda>c.
     bind (gets (\<lambda>s. procs s ! c)) (\<lambda>p.
     let sz = ucast (p_sz p) :: uint in
     bind (if n > 0 then allocuvm (p_pml4 p) (ucast sz) (ucast (sz + of_int n)) (PTE_XD OR PTE_W)
           else if n < 0 then deallocuvm (p_pml4 p) (ucast sz) (ucast (sz + of_int n))
           else ret sz) (\<lambda>sz'.
     if n \<noteq> 0 \<and> sz' = 0 then ret (- 1)
     else
       andthen (modify (upd_proc c (\<lambda>x. x\<lparr>p_sz := ucast sz'\<rparr>)))
      (andthen (switchuvm (Some c)) (ret 0)))))"

definition fork_file :: "nat \<Rightarrow> nat \<Rightarrow> nat \<Rightarrow> ('a file_st_scheme, unit) kop" where
  "fork_file c np i =
     bind (gets (\<lambda>s. p_ofile (procs s ! c) ! i)) (\<lambda>fo.
     case fo of None \<Rightarrow> skip
     | Some f \<Rightarrow> bind (filedup f) (\<lambda>f'. modify (upd_proc np (\<lambda>x. x\<lparr>p_ofile := (p_ofile x)[i := Some f']\<rparr>))))"

definition fork :: "ulong \<Rightarrow> ulong \<Rightarrow> ('a file_st_scheme, int) kop" where
  "fork trapret forkret_addr =
     bind curproc (\<lambda>c.
     bind (allocproc trapret forkret_addr) (\<lambda>r.
     case r of None \<Rightarrow> ret (- 1)
     | Some np \<Rightarrow>
         bind (gets (\<lambda>s. procs s ! c)) (\<lambda>cp.
         bind (copyuvm (p_pml4 cp) (p_sz cp)) (\<lambda>pml4.
         andthen (modify (upd_proc np (\<lambda>x. x\<lparr>p_pml4 := pml4\<rparr>)))
        (if pml4 = 0 then
           bind (gets (\<lambda>s. p_kstack (procs s ! np))) (\<lambda>k.
           andthen (kfree k)
          (andthen (modify (upd_proc np (\<lambda>x. x\<lparr>p_kstack := 0, p_state := UNUSED\<rparr>))) (ret (- 1))))
         else
           andthen (modify (upd_proc np (\<lambda>x. x\<lparr>p_sz := p_sz cp, p_parent := Some c, p_tf := (p_tf cp)\<lparr>tf_rax := 0\<rparr>\<rparr>)))
          (andthen (forK (fork_file c np) [0..<NOFILE])
          (bind (case p_cwd cp of None \<Rightarrow> fail Fault | Some d \<Rightarrow> idup d) (\<lambda>d.
           andthen (modify (upd_proc np (\<lambda>x. x\<lparr>p_cwd := Some d,
              p_name := patch 0 (safestrcpy (view_list (p_name cp)) 16) (p_name x)\<rparr>)))
          (bind (gets (\<lambda>s. p_pid (procs s ! np))) (\<lambda>pid.
           andthen (acquire ''ptable'')
          (andthen (modify (upd_proc np (\<lambda>x. x\<lparr>p_state := RUNNABLE\<rparr>)))
          (andthen (release ''ptable'') (ret pid)))))))))))))"

section \<open>Exit and wait\<close>

definition exit_file :: "nat \<Rightarrow> nat \<Rightarrow> ('a file_st_scheme, unit) kop" where
  "exit_file c fd =
     bind (gets (\<lambda>s. p_ofile (procs s ! c) ! fd)) (\<lambda>fo.
     case fo of None \<Rightarrow> skip
     | Some f \<Rightarrow> andthen (fileclose f) (modify (upd_proc c (\<lambda>x. x\<lparr>p_ofile := (p_ofile x)[fd := None]\<rparr>))))"

definition wakeup1_proc :: "nat option \<Rightarrow> ('a proc_st_scheme, unit) kop" where
  "wakeup1_proc pp = (case pp of None \<Rightarrow> skip | Some p \<Rightarrow> wakeup1 (Ch_proc p))"

definition reparent :: "nat \<Rightarrow> nat \<Rightarrow> ('a proc_st_scheme, unit) kop" where
  "reparent c i =
     bind (gets (\<lambda>s. procs s ! i)) (\<lambda>p.
     whenK (p_parent p = Some c)
       (bind (gets initproc) (\<lambda>ip.
        andthen (modify (upd_proc i (\<lambda>x. x\<lparr>p_parent := ip\<rparr>)))
          (whenK (p_state p = ZOMBIE) (wakeup1_proc ip)))))"

text \<open>\<^verbatim>\<open>exit\<close> up to the call of \<^verbatim>\<open>sched\<close>, which does not return.\<close>

definition exit_enter :: "('a file_st_scheme, unit) kop" where
  "exit_enter =
     bind curproc (\<lambda>c.
     bind (gets initproc) (\<lambda>ip.
     if ip = Some c then panic ''init exiting''
     else
       andthen (forK (exit_file c) [0..<NOFILE])
      (andthen begin_op
      (bind (gets (\<lambda>s. p_cwd (procs s ! c))) (\<lambda>cwd.
       andthen (case cwd of None \<Rightarrow> fail Fault | Some d \<Rightarrow> iput d)
      (andthen end_op
      (andthen (modify (upd_proc c (\<lambda>x. x\<lparr>p_cwd := None\<rparr>)))
      (andthen (acquire ''ptable'')
      (bind (gets (\<lambda>s. p_parent (procs s ! c))) (\<lambda>par.
       andthen (wakeup1_proc par)
      (bind (gets (\<lambda>s. length (procs s))) (\<lambda>n.
       andthen (forK (reparent c) [0..<n])
         (modify (upd_proc c (\<lambda>x. x\<lparr>p_state := ZOMBIE\<rparr>)))))))))))))))"

definition exit :: "('a file_st_scheme, unit) kop" where
  "exit = andthen exit_enter (andthen sched (panic ''zombie exit''))"

text \<open>Freeing a child that has exited.\<close>

definition reap :: "nat \<Rightarrow> ('a proc_st_scheme, int) kop" where
  "reap i =
     bind (gets (\<lambda>s. procs s ! i)) (\<lambda>p.
     andthen (kfree (p_kstack p))
    (andthen (modify (upd_proc i (\<lambda>x. x\<lparr>p_kstack := 0\<rparr>)))
    (andthen (freevm (p_pml4 p))
    (andthen (modify (upd_proc i (\<lambda>x. x\<lparr>p_pid := 0, p_parent := None, p_name := (p_name x)[0 := 0], p_killed := False,
        p_state := UNUSED\<rparr>)))
    (andthen (release ''ptable'') (ret (p_pid p)))))))"

text \<open>One turn of the loop of \<^verbatim>\<open>wait\<close>: the next one starts after the sleep.\<close>

definition wait :: "('a proc_st_scheme, int) kop" where
  "wait =
     bind curproc (\<lambda>c.
     andthen (acquire ''ptable'')
    (bind (gets procs) (\<lambda>ps.
     case find_proc (\<lambda>p. p_parent p = Some c \<and> p_state p = ZOMBIE) ps of
       Some i \<Rightarrow> reap i
     | None \<Rightarrow>
         if \<not> (\<exists>p \<in> set ps. p_parent p = Some c) \<or> p_killed (ps ! c)
         then andthen (release ''ptable'') (ret (- 1))
         else andthen (sleep (Ch_proc c) ''ptable'') (fail Blocked))))"

section \<open>The first run\<close>

definition forkret :: "('a krn_st_scheme, unit) kop" where
  "forkret =
     andthen (release ''ptable'')
    (bind (gets forkret_first) (\<lambda>first.
     whenK first
       (andthen (modify (\<lambda>s. s\<lparr>forkret_first := False\<rparr>))
       (andthen (iinit ROOTDEV) (initlog ROOTDEV)))))"

end
