(* ===== verification/Paging.thy ===== *)
theory Paging
  imports Vm
begin

text \<open>
  What the page tables built by \<^verbatim>\<open>kernel/vm.c\<close> mean to the processor. \<open>mmu\<close> is the translation of the hardware; the
  tables form a tree of pages, each named by the indices that lead to it, in which no page occurs twice and which
  shares no page with the free list. \<^verbatim>\<open>mappages\<close> keeps this and changes the translation of the given pages only.
\<close>

section \<open>Entries\<close>

text \<open>A page of the direct map; its physical address fits the address field of an entry.\<close>

definition dpage :: "ulong \<Rightarrow> bool" where
  "dpage p \<longleftrightarrow> PGALIGNED p \<and> KERNBASE \<le> p"

abbreviation entry :: "mem \<Rightarrow> ulong \<Rightarrow> ulong \<Rightarrow> ulong" where
  "entry m t i \<equiv> load64 m (t + 8 * i)"

lemma addr_mask: "(0x0000FFFFFFFFF000 :: ulong) = push_bit 12 (mask 36)"
  by (simp add: mask_eq_exp_minus_1 push_bit_eq_mult)

lemma bit_addr: "bit (PTE_ADDR v) n \<longleftrightarrow> bit v n \<and> 12 \<le> n \<and> n < 48"
  unfolding PTE_ADDR_def addr_mask by (auto simp: bit_and_iff bit_push_bit_iff bit_mask_iff dest: bit_imp_le_length)

lemma aligned_bits: "PGALIGNED p \<Longrightarrow> bit p n \<Longrightarrow> 12 \<le> n"
proof (rule ccontr)
  assume a: "PGALIGNED p" "bit p n" "\<not> 12 \<le> n"
  then have "bit (p AND mask 12) n" by (simp add: bit_and_iff bit_mask_iff)
  then show False using a(1) by (simp add: PGALIGNED_def PGSIZE_mask)
qed

lemma V2P_bits:
  assumes "dpage p"
  shows "PTE_ADDR (V2P p) = V2P p"
proof (rule bit_eqI)
  fix n
  have le: "unat (V2P p) = unat p - unat KERNBASE"
    using assms unfolding V2P_def by (intro unat_diff_le) (simp add: dpage_def word_le_nat_alt)
  have "unat p < 2 ^ 64" using unat_lt [of p] by simp
  then have "unat (V2P p) < 2 ^ 48" unfolding le by (simp add: KERNBASE_def)
  then have t: "take_bit 48 (V2P p) = V2P p" by (simp add: take_bit_eq_mod word_unat_eq_iff unat_mod)
  have "unat p mod 4096 = 0" using assms by (simp add: dpage_def PGALIGNED_iff)
  then have "unat (V2P p) mod 4096 = 0" unfolding le by (simp add: KERNBASE_def mod_diff_eq [symmetric] flip: dvd_eq_mod_eq_0)
  then have "PGALIGNED (V2P p)" by (simp add: PGALIGNED_iff)
  then show "bit (PTE_ADDR (V2P p)) n = bit (V2P p) n"
    using aligned_bits [of "V2P p" n] t by (metis bit_addr bit_take_bit_iff)
qed

lemma addr_OR: "PTE_ADDR (a OR b) = PTE_ADDR a OR PTE_ADDR b"
  by (simp add: PTE_ADDR_def bit.conj_disj_distrib2)

definition table_flags :: ulong where "table_flags = PTE_P OR PTE_W OR PTE_U"

lemma table_entry:
  assumes "dpage p"
  shows "P2V (PTE_ADDR (V2P p OR table_flags)) = p" "(V2P p OR table_flags) AND PTE_P \<noteq> 0"
proof -
  have "PTE_ADDR table_flags = 0" by (simp add: PTE_ADDR_def table_flags_def PTE_P_def PTE_W_def PTE_U_def)
  then show "P2V (PTE_ADDR (V2P p OR table_flags)) = p"
    unfolding addr_OR V2P_bits [OF assms] by (simp add: P2V_def V2P_def)
  have "bit ((V2P p OR table_flags) AND PTE_P) 0"
    by (simp add: bit_and_iff bit_or_iff table_flags_def PTE_P_def PTE_W_def PTE_U_def)
  then show "(V2P p OR table_flags) AND PTE_P \<noteq> 0" by (metis bit_0_eq bot_apply bot_bool_def)
qed

text \<open>Where an entry lies.\<close>

lemma entry_region:
  assumes "i < 512"
  shows "in_region (t + 8 * i) 8 x \<longleftrightarrow> unat (x - t) div 8 = unat i"
proof -
  have i: "unat i < 512" using assms by (simp add: word_less_nat_alt)
  then have u: "unat (8 * i) = 8 * unat i" by (simp add: unat_word_ariths)
  define d where "d = x - t"
  have "x - (t + 8 * i) = d - 8 * i" by (simp add: d_def)
  moreover have "unat (d - 8 * i) < 8 \<longleftrightarrow> unat d div 8 = unat i"
  proof (cases "8 * unat i \<le> unat d")
    case True
    then have "unat (d - 8 * i) = unat d - 8 * unat i" using u by (simp add: unat_diff_le)
    then show ?thesis using True by linarith
  next
    case False
    then have "unat d < unat (8 * i)" using u by simp
    from unat_diff_wrap [OF this] have "unat (d - 8 * i) = 2 ^ 64 + unat d - 8 * unat i" using u by simp
    then have "unat (d - 8 * i) \<ge> 2 ^ 64 - 4096" using i by simp
    then have "\<not> unat (d - 8 * i) < 8" by simp
    moreover have "unat d div 8 \<noteq> unat i" using False by auto
    ultimately show ?thesis by simp
  qed
  ultimately show ?thesis by (simp add: in_region_def d_def diff_diff_eq)
qed

lemma entry_in_page: "i < 512 \<Longrightarrow> in_region (t + 8 * i) 8 x \<Longrightarrow> in_region t 4096 x"
  unfolding entry_region by (simp add: in_region_def word_less_nat_alt)

lemma entry_disjoint:
  assumes "PGALIGNED t" "PGALIGNED t'" "i < 512" "i' < 512" "t \<noteq> t' \<or> i \<noteq> i'" "in_region (t + 8 * i) 8 x"
  shows "\<not> in_region (t' + 8 * i') 8 x"
proof (cases "t = t'")
  case True
  then have "unat i \<noteq> unat i'" using assms(5) by (simp add: word_unat_eq_iff)
  then show ?thesis using True assms(3,4,6) entry_region [of i t x] entry_region [of i' t x] by simp
next
  case False
  then show ?thesis using assms entry_in_page pages_disjoint by metis
qed

lemma entry_store_other:
  assumes "PGALIGNED t" "PGALIGNED t'" "i < 512" "i' < 512" "t \<noteq> t' \<or> i \<noteq> i'"
  shows "entry (store64 m (t + 8 * i) v) t' i' = entry m t' i'"
  using assms by (intro load64_store64_other) (metis entry_disjoint)

lemma memset_page: "memset m p 0 (ucast PGSIZE) = (\<lambda>x. if in_region p 4096 x then 0 else m x)"
proof -
  have "unat (ucast PGSIZE :: uint) = 4096" by (simp add: PGSIZE_def)
  then show ?thesis by (simp add: memset_fills fun_eq_iff)
qed

lemma load64_zero: "(\<And>x. in_region a 8 x \<Longrightarrow> m x = 0) \<Longrightarrow> load64 m a = 0"
proof -
  assume "\<And>x. in_region a 8 x \<Longrightarrow> m x = 0"
  then have "load64 m a = load64 (\<lambda>_. 0) a" by (intro load64_cong) simp
  also have "\<dots> = 0" by (simp add: load64_def eval_nat_numeral)
  finally show ?thesis .
qed

lemma entry_zeroed: "i < 512 \<Longrightarrow> entry (memset m p 0 (ucast PGSIZE)) p i = 0"
  unfolding memset_page by (rule load64_zero) (simp add: entry_in_page)

lemma entry_memset_other:
  "PGALIGNED p \<Longrightarrow> PGALIGNED t \<Longrightarrow> t \<noteq> p \<Longrightarrow> i < 512 \<Longrightarrow> entry (memset m p 0 (ucast PGSIZE)) t i = entry m t i"
  unfolding memset_page by (rule load64_cong) (metis entry_in_page pages_disjoint)

section \<open>The tree of tables and the hardware\<close>

text \<open>The table that a path of indices leads to, the last index first.\<close>

fun tab :: "mem \<Rightarrow> ulong \<Rightarrow> ulong list \<Rightarrow> ulong option" where
  "tab m r [] = Some r"
| "tab m r (i # p) =
     (case tab m r p of None \<Rightarrow> None
      | Some t \<Rightarrow> if entry m t i AND PTE_P \<noteq> 0 then Some (P2V (PTE_ADDR (entry m t i))) else None)"

definition va_path :: "ulong \<Rightarrow> ulong list" where
  "va_path va = [PML2X va, PML3X va, PML4X va]"

text \<open>The translation of the processor: the entry for an address in the last table, if it and the three entries that
  lead there are present.\<close>

definition mmu :: "mem \<Rightarrow> ulong \<Rightarrow> ulong \<Rightarrow> ulong option" where
  "mmu m r va =
     (case tab m r (va_path va) of None \<Rightarrow> None
      | Some t \<Rightarrow> if entry m t (PML1X va) AND PTE_P \<noteq> 0 then Some (entry m t (PML1X va)) else None)"

definition path_ok :: "ulong list \<Rightarrow> bool" where
  "path_ok p \<longleftrightarrow> length p \<le> 3 \<and> (\<forall>i \<in> set p. i < 512)"

text \<open>No page of the tree is free, and none occurs twice.\<close>

definition pt_ok :: "ulong set \<Rightarrow> mem \<Rightarrow> ulong \<Rightarrow> bool" where
  "pt_ok P m r \<longleftrightarrow>
     (\<forall>p t. path_ok p \<longrightarrow> tab m r p = Some t \<longrightarrow> dpage t \<and> t \<notin> P) \<and>
     (\<forall>p q t. path_ok p \<longrightarrow> path_ok q \<longrightarrow> tab m r p = Some t \<longrightarrow> tab m r q = Some t \<longrightarrow> p = q)"

lemma path_okD: "path_ok (i # p) \<Longrightarrow> path_ok p \<and> i < 512"
  by (auto simp: path_ok_def)

lemma index_lt [simp]: "PML1X va < 512" "PML2X va < 512" "PML3X va < 512" "PML4X va < 512"
proof -
  have "v AND 0x1ff < 512" for v :: ulong
  proof -
    have "v AND 0x1ff = v AND mask 9" by (simp add: mask_eq_exp_minus_1)
    also have "\<dots> = v mod 512" by (simp add: take_bit_eq_mod flip: take_bit_eq_mask)
    finally show ?thesis by (simp add: word_less_nat_alt unat_mod)
  qed
  then show "PML1X va < 512" "PML2X va < 512" "PML3X va < 512" "PML4X va < 512"
    by (simp_all add: PML1X_def PML2X_def PML3X_def PML4X_def)
qed

lemma va_path_ok [simp]: "path_ok (va_path va)"
  by (simp add: path_ok_def va_path_def)

lemma pt_okD:
  assumes "pt_ok P m r" "path_ok p" "tab m r p = Some t"
  shows "PGALIGNED t" "dpage t" "t \<notin> P"
  using assms by (auto simp: pt_ok_def dpage_def)

lemma pt_ok_inj: "pt_ok P m r \<Longrightarrow> path_ok p \<Longrightarrow> path_ok q \<Longrightarrow> tab m r p = Some t \<Longrightarrow> tab m r q = Some t \<Longrightarrow> p = q"
  by (auto simp: pt_ok_def)

text \<open>A free page becomes the table for an entry that was not present.\<close>

lemma tab_grow:
  assumes ok: "pt_ok P m r" and x: "x \<in> P" "dpage x" and t: "tab m r p = Some t" and ip: "path_ok (i # p)"
    and free: "entry m t i AND PTE_P = 0"
    and m': "m' = store64 (memset m x 0 (ucast PGSIZE)) (t + 8 * i) (V2P x OR table_flags)"
  shows "path_ok q \<Longrightarrow> tab m' r q = (if q = i # p then Some x else tab m r q)"
    and "j < 512 \<Longrightarrow> entry m' x j = 0"
    and "path_ok q \<Longrightarrow> tab m r q = Some t' \<Longrightarrow> j < 512 \<Longrightarrow> j # q \<noteq> i # p \<Longrightarrow> entry m' t' j = entry m t' j"
proof -
  have pi: "path_ok p" "i < 512" using path_okD [OF ip] by auto
  note tt = pt_okD [OF ok pi(1) t]
  have xa: "PGALIGNED x" using x(2) by (simp add: dpage_def)
  have tx: "t \<noteq> x" using tt x by auto
  show fresh: "entry m' x j = 0" if "j < 512" for j
    using entry_store_other [OF tt(1) xa pi(2) that] entry_zeroed [OF that] tx by (simp add: m')
  show other: "entry m' t' j = entry m t' j" if "path_ok q" "tab m r q = Some t'" "j < 512" "j # q \<noteq> i # p" for q t' j
  proof -
    note t' = pt_okD [OF ok that(1,2)]
    have "t \<noteq> t' \<or> i \<noteq> j" using that(4) pt_ok_inj [OF ok that(1) pi(1) that(2)] t by auto
    then show ?thesis
      using entry_store_other [OF tt(1) t'(1) pi(2) that(3)] entry_memset_other [OF xa t'(1) _ that(3)] t'(3) x(1) by (auto simp: m')
  qed
  show "tab m' r q = (if q = i # p then Some x else tab m r q)" if "path_ok q" for q
    using that
  proof (induction q)
    case (Cons j q)
    then have q: "path_ok q" "j < 512" using path_okD by auto
    show ?case
    proof (cases "q = i # p")
      case True
      then show ?thesis using Cons.IH q fresh t free by simp
    next
      case False
      then have IH: "tab m' r q = tab m r q" using Cons.IH q by simp
      show ?thesis
      proof (cases "j # q = i # p")
        case True
        have "entry m' t i = V2P x OR table_flags" by (simp add: m')
        then show ?thesis using True IH t table_entry [OF x(2)] by simp
      next
        case False
        then have "tab m' r (j # q) = tab m r (j # q)" using IH other [OF q(1) _ q(2)] by (cases "tab m r q") simp_all
        then show ?thesis by (simp only: False if_False)
      qed
    qed
  qed simp
qed

lemma pt_ok_grow:
  assumes ok: "pt_ok P m r" and x: "x \<in> P" "dpage x" and t: "tab m r p = Some t" and ip: "path_ok (i # p)"
    and free: "entry m t i AND PTE_P = 0"
    and m': "m' = store64 (memset m x 0 (ucast PGSIZE)) (t + 8 * i) (V2P x OR table_flags)"
  shows "pt_ok (P - {x}) m' r" "mmu m' r va = mmu m r va"
proof -
  note grow = tab_grow [OF assms]
  have notx: "tab m r q \<noteq> Some x" if "path_ok q" for q using pt_okD(3) [OF ok that] x(1) by blast
  show "pt_ok (P - {x}) m' r"
    unfolding pt_ok_def
  proof (intro conjI allI impI)
    fix q y assume q: "path_ok q" "tab m' r q = Some y"
    then show "dpage y" "y \<notin> P - {x}"
      using grow(1) [OF q(1)] x pt_okD(2,3) [OF ok q(1), of y] by (cases "q = i # p"; simp)+
  next
    fix q q' y assume q: "path_ok q" "path_ok q'" "tab m' r q = Some y" "tab m' r q' = Some y"
    then show "q = q'"
      using grow(1) [OF q(1)] grow(1) [OF q(2)] notx [OF q(1)] notx [OF q(2)] pt_ok_inj [OF ok q(1,2), of y]
      by (cases "q = i # p"; cases "q' = i # p") simp_all
  qed
  show "mmu m' r va = mmu m r va"
  proof (cases "va_path va = i # p")
    case True
    have "tab m r (i # p) = None" using t free by simp
    then show ?thesis using True grow(1) [OF va_path_ok, of va] grow(2) by (simp add: mmu_def)
  next
    case False
    then have same: "tab m' r (va_path va) = tab m r (va_path va)" using grow(1) by simp
    have "PML1X va # va_path va \<noteq> i # p" using ip by (auto simp: path_ok_def va_path_def)
    then show ?thesis using same grow(3) [OF va_path_ok] by (auto simp: mmu_def split: option.splits)
  qed
qed

text \<open>Storing an entry of the last level.\<close>

definition same_page :: "ulong \<Rightarrow> ulong \<Rightarrow> bool" where
  "same_page va va' \<longleftrightarrow> va_path va = va_path va' \<and> PML1X va = PML1X va'"

lemma pt_ok_leaf:
  assumes ok: "pt_ok P m r" and t: "tab m r (va_path va) = Some t" and m': "m' = store64 m (t + 8 * PML1X va) v"
    and v: "v AND PTE_P \<noteq> 0"
  shows "path_ok q \<Longrightarrow> tab m' r q = tab m r q" "pt_ok P m' r"
    and "mmu m' r va' = (if same_page va' va then Some v else mmu m r va')"
proof -
  note tt = pt_okD [OF ok va_path_ok t]
  have other: "entry m' t' j = entry m t' j" if "path_ok q" "tab m r q = Some t'" "j < 512" "q \<noteq> va_path va \<or> j \<noteq> PML1X va" for q t' j
  proof -
    note t' = pt_okD [OF ok that(1,2)]
    have "q = va_path va" if "t = t'" using pt_ok_inj [OF ok \<open>path_ok q\<close> va_path_ok \<open>tab m r q = Some t'\<close>, of va] t that by blast
    then have "t \<noteq> t' \<or> PML1X va \<noteq> j" using that(4) by blast
    then show ?thesis unfolding m' by (intro entry_store_other [OF tt(1) t'(1) _ that(3)]) simp_all
  qed
  show tab: "tab m' r q = tab m r q" if "path_ok q" for q
    using that
  proof (induction q)
    case (Cons j q)
    then have q: "path_ok q" "j < 512" "q \<noteq> va_path va" by (auto simp: path_ok_def va_path_def)
    then show ?case using Cons.IH other [OF q(1) _ q(2)] by (simp split: option.splits)
  qed simp
  then show "pt_ok P m' r" using ok by (simp add: pt_ok_def)
  show "mmu m' r va' = (if same_page va' va then Some v else mmu m r va')"
  proof (cases "same_page va' va")
    case True
    have "entry m' t (PML1X va) = v" by (simp add: m')
    then show ?thesis using True t v tab [OF va_path_ok] by (simp add: mmu_def same_page_def)
  next
    case False
    then show ?thesis using tab [OF va_path_ok, of va'] other [OF va_path_ok, of va' _ "PML1X va'"]
      by (auto simp: mmu_def same_page_def split: option.splits)
  qed
qed

section \<open>Walking and mapping keep the tree\<close>

definition vm_ok :: "ulong set \<Rightarrow> ulong \<Rightarrow> 'a kmem_st_scheme \<Rightarrow> bool" where
  "vm_ok P r s \<longleftrightarrow> kowns P s \<and> KERNBASE \<le> km_end s \<and> pt_ok P (km_mem s) r"

definition only_mem :: "'a kmem_st_scheme \<Rightarrow> 'a kmem_st_scheme \<Rightarrow> bool" where
  "only_mem s t \<longleftrightarrow> (\<exists>m f. t = s\<lparr>km_mem := m, km_freelist := f\<rparr>)"

text \<open>Tables may have been added; nothing else has changed, and no translation.\<close>

definition grown :: "ulong set \<Rightarrow> ulong set \<Rightarrow> ulong \<Rightarrow> 'a kmem_st_scheme \<Rightarrow> 'a kmem_st_scheme \<Rightarrow> bool" where
  "grown P P' r s t \<longleftrightarrow> vm_ok P' r t \<and> P' \<subseteq> P \<and> only_mem s t \<and> (\<forall>va. mmu (km_mem t) r va = mmu (km_mem s) r va)"

lemma only_mem_refl [simp]: "only_mem s s"
  unfolding only_mem_def by (intro exI [of _ "km_mem s"] exI [of _ "km_freelist s"]) simp

lemma only_memI: "t = s\<lparr>km_mem := m, km_freelist := f\<rparr> \<Longrightarrow> only_mem s t"
  unfolding only_mem_def by blast

lemma only_mem_trans: "only_mem s t \<Longrightarrow> only_mem t u \<Longrightarrow> only_mem s u"
  unfolding only_mem_def by (elim exE, rule only_memI [unfolded only_mem_def]) simp

lemma only_mem_upd [simp]: "only_mem s (s\<lparr>km_mem := m\<rparr>)" "only_mem s (s\<lparr>km_freelist := f\<rparr>)"
  "only_mem s (s\<lparr>km_freelist := f, km_mem := m\<rparr>)"
proof -
  show "only_mem s (s\<lparr>km_mem := m\<rparr>)" by (rule only_memI [where m = m and f = "km_freelist s"]) simp
  show "only_mem s (s\<lparr>km_freelist := f\<rparr>)" by (rule only_memI [where m = "km_mem s" and f = f]) simp
  show "only_mem s (s\<lparr>km_freelist := f, km_mem := m\<rparr>)" by (rule only_memI [where m = m and f = f]) simp
qed

lemma grown_refl: "vm_ok P r s \<Longrightarrow> grown P P r s s"
  by (simp add: grown_def)

lemma grown_trans: "grown P P' r s t \<Longrightarrow> grown P' P'' r t u \<Longrightarrow> grown P P'' r s u"
  unfolding grown_def using only_mem_trans by (metis subset_trans)

lemma grown_vm_ok: "grown P P' r s t \<Longrightarrow> vm_ok P' r t"
  by (simp add: grown_def)

lemma kowns_page: "kowns P s \<Longrightarrow> p \<in> P \<Longrightarrow> kpage s p"
  by (auto simp: kowns_def kfreelist_def)

lemma kowns_finite: "kowns P s \<Longrightarrow> finite P"
  by (auto simp: kowns_def)

lemma kowns_frame:
  assumes "kowns P s" "\<And>p. p \<in> P \<Longrightarrow> load64 m p = load64 (km_mem s) p"
  shows "kowns P (s\<lparr>km_mem := m\<rparr>)"
proof -
  obtain xs where xs: "kfreelist xs s" "set xs = P" using assms(1) by (auto simp: kowns_def)
  then have "flist m (km_freelist s) xs" using flist_cong [of xs m "km_mem s"] assms(2) by (simp add: kfreelist_def)
  then show ?thesis using xs unfolding kowns_def by (intro exI [of _ xs]) (simp add: kfreelist_def kpage_def)
qed

lemma wp_kalloc:
  assumes "kowns P s"
  shows "wp kalloc (\<lambda>p t. (\<exists>f. t = s\<lparr>km_freelist := f\<rparr>) \<and> (if p = 0 then P = {} else p \<in> P) \<and> kowns (P - {p}) t) s"
proof -
  obtain xs where xs: "kfreelist xs s" "set xs = P" using assms by (auto simp: kowns_def)
  show ?thesis
  proof (cases xs)
    case Nil
    have "s = s\<lparr>km_freelist := km_freelist s\<rparr>" by simp
    then show ?thesis using Nil xs assms by (intro wp_mono [OF wp_kalloc_Nil [of s]]) (auto intro: exI [of _ "km_freelist s"])
  next
    case (Cons x ys)
    then have x: "kfreelist (x # ys) s" "x \<noteq> 0" "P - {x} = set ys"
      using xs kfreelist_distinct [OF xs(1)] by (auto simp: kfreelist_def)
    show ?thesis
    proof (rule wp_mono [OF wp_kalloc_Cons [OF x(1)]])
      fix p t assume h: "p = x \<and> kfreelist ys t \<and> (\<exists>q. t = s\<lparr>km_freelist := q\<rparr>)"
      then have "kowns (P - {x}) t" unfolding kowns_def x(3) by blast
      then show "(\<exists>f. t = s\<lparr>km_freelist := f\<rparr>) \<and> (if p = 0 then P = {} else p \<in> P) \<and> kowns (P - {p}) t"
        using h x(2) Cons xs(2) by auto
    qed
  qed
qed

lemma load64_page_entry:
  assumes "PGALIGNED p" "PGALIGNED t" "p \<noteq> t" "i < 512"
  shows "load64 (store64 m (t + 8 * i) v) p = load64 m p"
  by (rule load64_store64_other) (metis assms entry_in_page page_prefix pages_disjoint)

lemma grown_table:
  assumes ok: "vm_ok P r s" and t: "tab (km_mem s) r p = Some t" and ip: "path_ok (i # p)"
    and free: "entry (km_mem s) t i AND PTE_P = 0" and x: "x \<in> P" "kowns (P - {x}) (s\<lparr>km_freelist := f\<rparr>)"
    and m': "m' = store64 (memset (km_mem s) x 0 (ucast PGSIZE)) (t + 8 * i) (V2P x OR table_flags)"
  shows "grown P (P - {x}) r s (s\<lparr>km_freelist := f, km_mem := m'\<rparr>)" "tab m' r (i # p) = Some x" "x \<noteq> 0" "finite P"
proof -
  have pt: "pt_ok P (km_mem s) r" and own: "kowns P s" using ok by (simp_all add: vm_ok_def)
  have px: "kpage s x" using kowns_page [OF own x(1)] .
  then have dx: "dpage x" using ok by (auto simp: dpage_def kpage_def vm_ok_def)
  have i: "path_ok p" "i < 512" using path_okD [OF ip] by auto
  note tt = pt_okD [OF pt i(1) t]
  have "load64 m' y = load64 (km_mem s) y" if "y \<in> P - {x}" for y
  proof -
    have y: "PGALIGNED y" "y \<noteq> t" "y \<noteq> x" using kowns_page [OF own, of y] that tt(3) by (auto simp: kpage_def)
    have "load64 (memset (km_mem s) x 0 (ucast PGSIZE)) y = load64 (km_mem s) y"
      using entry_memset_other [of x y 0] y dx by (simp add: dpage_def)
    then show ?thesis using load64_page_entry [OF y(1) tt(1) y(2) i(2)] by (simp add: m')
  qed
  then have own': "kowns (P - {x}) (s\<lparr>km_freelist := f, km_mem := m'\<rparr>)"
    using kowns_frame [OF x(2)] by simp
  show "grown P (P - {x}) r s (s\<lparr>km_freelist := f, km_mem := m'\<rparr>)"
    using own' ok pt_ok_grow [OF pt x(1) dx t ip free m'] by (simp add: grown_def vm_ok_def)
  show "tab m' r (i # p) = Some x" using tab_grow(1) [OF pt x(1) dx t ip free m' ip] by (simp only: if_True simp_thms)
  show "x \<noteq> 0" using px by (simp add: kpage_def)
  show "finite P" using kowns_finite [OF own] .
qed

lemma wp_get_table:
  assumes ok: "vm_ok P r s" and t: "tab (km_mem s) r p = Some t" and ip: "path_ok (i # p)"
  shows "wp (get_table (t + 8 * i) True) (\<lambda>q u. \<exists>P'. grown P P' r s u \<and>
     (if q = 0 then P = {} else card P \<le> card P' + 1 \<and> tab (km_mem u) r (i # p) = Some q)) s"
proof (cases "entry (km_mem s) t i AND PTE_P = 0")
  case False
  then have tab: "tab (km_mem s) r (i # p) = Some (P2V (PTE_ADDR (entry (km_mem s) t i)))" using t by simp
  then have "dpage (P2V (PTE_ADDR (entry (km_mem s) t i)))" using ok pt_okD(2) [OF _ ip] by (auto simp: vm_ok_def)
  then have "P2V (PTE_ADDR (entry (km_mem s) t i)) \<noteq> 0" by (auto simp: dpage_def KERNBASE_def)
  then show ?thesis using False tab grown_refl [OF ok] by (auto simp: get_table_def ld64_def)
next
  case True
  have own: "kowns P s" using ok by (simp add: vm_ok_def)
  have alloc: "wp (bind kalloc (\<lambda>pml. if pml = 0 then ret 0 else andthen (zero_page pml)
           (andthen (st64 (t + 8 * i) (V2P pml OR PTE_P OR PTE_W OR PTE_U)) (ret pml)))) (\<lambda>q u. \<exists>P'. grown P P' r s u \<and>
     (if q = 0 then P = {} else card P \<le> card P' + 1 \<and> tab (km_mem u) r (i # p) = Some q)) s"
    unfolding wp_bind
  proof (rule wp_mono [OF wp_kalloc [OF own]], goal_cases)
    case (1 x u)
    then obtain f where u: "u = s\<lparr>km_freelist := f\<rparr>" by blast
    show ?case
    proof (cases "x = 0")
      case True
      then have "grown P P r s u" using 1 ok u by (auto simp: grown_def vm_ok_def)
      then show ?thesis using True 1 by auto
    next
      case False
      then have x: "x \<in> P" "kowns (P - {x}) (s\<lparr>km_freelist := f\<rparr>)" using 1 u by auto
      note g = grown_table [OF ok t ip True x refl]
      have "V2P x OR PTE_P OR PTE_W OR PTE_U = V2P x OR table_flags" by (simp add: table_flags_def or.assoc)
      moreover have "card P \<le> card (P - {x}) + 1" using x(1) g(4) by (simp add: card_Diff_singleton)
      ultimately show ?thesis
        supply tab.simps(2) [simp del]
        using False g(1,2,3) by (simp add: u zero_page_def st64_def) (intro exI [of _ "P - {x}"], simp)
    qed
  qed
  then show ?thesis using True by (simp add: get_table_def ld64_def)
qed

lemma entry_nonnull:
  assumes "dpage t" "i < 512"
  shows "t + 8 * i \<noteq> 0"
proof
  assume z: "t + 8 * i = 0"
  have "in_region t 4096 (t + 8 * i)" using entry_in_page [OF assms(2), of t "t + 8 * i"] by (simp add: in_region_def)
  then have "PGROUNDDOWN 0 = t" using assms(1) page_region [of t] unfolding z by (simp add: dpage_def)
  then show False using assms(1) by (auto simp: dpage_def PGROUNDDOWN_def KERNBASE_def)
qed

text \<open>One level of the walk: at most one page becomes a table; with no page free the walk ends.\<close>

lemma wp_next_table:
  assumes g: "grown P P0 r s u" "card P \<le> card P0 + k" and t: "tab (km_mem u) r p = Some t" "path_ok (i # p)"
    and cont: "\<And>P' q v. grown P P' r s v \<Longrightarrow> card P \<le> card P' + Suc k \<Longrightarrow> tab (km_mem v) r (i # p) = Some q \<Longrightarrow> q \<noteq> 0 \<Longrightarrow> wp (f q) Q v"
    and stop: "\<And>P' v. grown P P' r s v \<Longrightarrow> card P \<le> k \<Longrightarrow> Q 0 v"
  shows "wp (bind (get_table (t + 8 * i) True) (\<lambda>q. if q = 0 then ret 0 else f q)) Q u"
  unfolding wp_bind
proof (rule wp_mono [OF wp_get_table [OF grown_vm_ok [OF g(1)] t]], goal_cases)
  case (1 q v)
  then obtain P' where P': "grown P0 P' r u v" "if q = 0 then P0 = {} else card P0 \<le> card P' + 1 \<and> tab (km_mem v) r (i # p) = Some q" by blast
  have g': "grown P P' r s v" using grown_trans [OF g(1) P'(1)] .
  show ?case
  proof (cases "q = 0")
    case True
    then show ?thesis using stop [OF g'] P'(2) g(2) by simp
  next
    case False
    then have "card P \<le> card P' + Suc k" "tab (km_mem v) r (i # p) = Some q" using P'(2) g(2) by simp_all
    then show ?thesis using cont [OF g'] False by simp
  qed
qed

lemma wp_walkpml4:
  assumes ok: "vm_ok P r s"
  shows "wp (walkpml4 r va True) (\<lambda>e u. \<exists>P'. grown P P' r s u \<and>
     (if e = 0 then card P \<le> 2
      else card P \<le> card P' + 3 \<and> (\<exists>t. tab (km_mem u) r (va_path va) = Some t \<and> e = t + 8 * PML1X va))) s"
    (is "wp _ ?Q s")
proof -
  have p: "path_ok [PML4X va]" "path_ok [PML3X va, PML4X va]" "path_ok [PML2X va, PML3X va, PML4X va]" by (simp_all add: path_ok_def)
  have stop: "?Q 0 v" if "grown P P' r s v" "card P \<le> k" "k \<le> 2" for P' v k
    using that by (intro exI [of _ P']) simp
  have last: "?Q (q + 8 * PML1X va) v"
    if "grown P P' r s v" "card P \<le> card P' + 3" "tab (km_mem v) r [PML2X va, PML3X va, PML4X va] = Some q" for P' q v
  proof -
    have "dpage q" using that(1) pt_okD(2) [OF _ p(3) that(3)] by (auto simp: vm_ok_def grown_def)
    then have "q + 8 * PML1X va \<noteq> 0" by (intro entry_nonnull) simp_all
    then show ?thesis using that by (intro exI [of _ P']) (simp add: va_path_def)
  qed
  show ?thesis unfolding walkpml4_def get_pml3_def get_pml2_def get_pml1_def
    using stop last
    by (intro wp_next_table [OF grown_refl [OF ok] _ tab.simps(1) p(1), of 0] wp_next_table [OF _ _ _ p(2), of P _ r s _ 1]
        wp_next_table [OF _ _ _ p(3), of P _ r s _ 2]) (simp_all only: wp_ret, auto)
qed

section \<open>Pages as addresses\<close>

lemma unat_index:
  "unat (PML1X va) = unat va div 2 ^ 12 mod 512" "unat (PML2X va) = unat va div 2 ^ 21 mod 512"
  "unat (PML3X va) = unat va div 2 ^ 30 mod 512" "unat (PML4X va) = unat va div 2 ^ 39 mod 512"
proof -
  have "unat (drop_bit n va AND 0x1ff) = unat va div 2 ^ n mod 512" if "n < 64" for n
  proof -
    have "drop_bit n va AND 0x1ff = drop_bit n va AND mask 9" by (simp add: mask_eq_exp_minus_1)
    also have "\<dots> = drop_bit n va mod 512" by (simp add: take_bit_eq_mod flip: take_bit_eq_mask)
    finally have "unat (drop_bit n va AND 0x1ff) = unat (drop_bit n va) mod 512" by (simp add: unat_mod)
    then show ?thesis by (simp only: unat_drop_bit_eq) (simp only: drop_bit_eq_div)
  qed
  then show "unat (PML1X va) = unat va div 2 ^ 12 mod 512" "unat (PML2X va) = unat va div 2 ^ 21 mod 512"
    "unat (PML3X va) = unat va div 2 ^ 30 mod 512" "unat (PML4X va) = unat va div 2 ^ 39 mod 512"
    by (simp_all add: PML1X_def PML2X_def PML3X_def PML4X_def)
qed

lemma mod_512: "x mod (512 * n) = y mod (512 * n) \<longleftrightarrow> x mod 512 = y mod 512 \<and> x div 512 mod n = y div 512 mod n" for n :: nat
proof -
  have eq: "a = a' \<and> b = b'" if "512 * a + b = 512 * a' + b'" "b < 512" "b' < 512" for a b a' b' :: nat
  proof -
    have "(512 * a + b) div 512 = a" "(512 * a' + b') div 512 = a'" using that(2,3) by simp_all
    then show ?thesis using that(1) by simp
  qed
  have lt: "x mod 512 < 512" "y mod 512 < 512" by simp_all
  show ?thesis unfolding mod_mult2_eq using eq [OF _ lt, of "x div 512 mod n" "y div 512 mod n"] by metis
qed

lemma same_page_iff: "same_page va va' \<longleftrightarrow> unat va div 4096 mod 2 ^ 36 = unat va' div 4096 mod 2 ^ 36"
proof -
  have d: "x div 2 ^ 21 = x div 2 ^ 12 div 512" "x div 2 ^ 30 = x div 2 ^ 12 div 512 div 512"
    "x div 2 ^ 39 = x div 2 ^ 12 div 512 div 512 div 512" for x :: nat
    by (simp_all flip: div_mult2_eq)
  have e: "(2 :: nat) ^ 36 = 512 * (512 * (512 * 512))" "(4096 :: nat) = 2 ^ 12" by simp_all
  show ?thesis unfolding same_page_def va_path_def word_unat_eq_iff list.inject unat_index d e mod_512 by blast
qed

lemma unat_page_add:
  assumes "unat a = 4096 * c"
  shows "unat (a + of_nat k * PGSIZE) = 4096 * ((c + k) mod 2 ^ 52)"
proof -
  have "a + of_nat k * PGSIZE = of_nat (unat a) + of_nat (4096 * k)" by (simp add: PGSIZE_def mult.commute)
  also have "\<dots> = of_nat (4096 * (c + k))" unfolding assms by (simp only: of_nat_add [symmetric] distrib_left)
  finally have "unat (a + of_nat k * PGSIZE) = (4096 * (c + k)) mod 2 ^ 64"
    using unat_of_nat [of "4096 * (c + k)", where 'a = 64] by (simp only: len_num1 len_bit0 len_num0) simp
  also have "\<dots> = 4096 * ((c + k) mod 2 ^ 52)" using mult_mod_right [of 4096 "c + k" "2 ^ 52"] by simp
  finally show ?thesis .
qed

lemma PGALIGNED_add:
  assumes "PGALIGNED a"
  shows "PGALIGNED (a + of_nat k * PGSIZE)"
proof -
  obtain c where "unat a = 4096 * c" using assms by (auto simp: PGALIGNED_iff)
  then show ?thesis using unat_page_add [of a c k] by (simp add: PGALIGNED_iff)
qed

lemma page_step:
  assumes "PGALIGNED a"
  shows "unat (a + of_nat k * PGSIZE) div 4096 mod 2 ^ 36 = (unat a div 4096 + k) mod 2 ^ 36"
proof -
  obtain c where c: "unat a = 4096 * c" using assms by (auto simp: PGALIGNED_iff)
  have "((c + k) mod 2 ^ 52) mod 2 ^ 36 = (c + k) mod 2 ^ 36" by (simp add: mod_mod_cancel)
  then show ?thesis using unat_page_add [OF c] by (simp add: c)
qed

lemma mod_shift_inj:
  fixes j k n :: nat
  assumes "(c + j) mod n = (c + k) mod n" "j < n" "k < n"
  shows "j = k"
proof -
  have "j' = k'" if "j' \<le> k'" "k' < n" "(c + k') mod n = (c + j') mod n" for j' k'
  proof -
    have "n dvd k' - j'" using mod_eq_dvd_iff_nat [of "c + j'" "c + k'" n] that by simp
    then show ?thesis using that(1,2) dvd_imp_le [of n "k' - j'"] by (cases "k' = j'") auto
  qed
  from this [of j k] this [of k j] show ?thesis using assms by (cases "j \<le> k") auto
qed

lemma same_page_step:
  assumes "PGALIGNED a" "j < 2 ^ 36" "k < 2 ^ 36"
  shows "same_page (a + of_nat j * PGSIZE) (a + of_nat k * PGSIZE) \<longleftrightarrow> j = k"
proof
  assume "same_page (a + of_nat j * PGSIZE) (a + of_nat k * PGSIZE)"
  then have "(unat a div 4096 + j) mod 2 ^ 36 = (unat a div 4096 + k) mod 2 ^ 36" unfolding same_page_iff page_step [OF assms(1)] .
  then show "j = k" using assms(2,3) by (rule mod_shift_inj)
qed (simp add: same_page_def)

lemma same_page_mmu: "same_page va va' \<Longrightarrow> mmu m r va = mmu m r va'"
  by (simp add: same_page_def mmu_def split: option.split)

section \<open>Mapping pages\<close>

text \<open>Storing an entry of the last level keeps the invariant and maps one page.\<close>

lemma vm_ok_leaf:
  assumes ok: "vm_ok P r s" and t: "tab (km_mem s) r (va_path va) = Some t" and v: "v AND PTE_P \<noteq> 0"
    and u: "u = s\<lparr>km_mem := store64 (km_mem s) (t + 8 * PML1X va) v\<rparr>"
  shows "vm_ok P r u" "only_mem s u" "mmu (km_mem u) r va' = (if same_page va' va then Some v else mmu (km_mem s) r va')"
proof -
  have pt: "pt_ok P (km_mem s) r" and own: "kowns P s" using ok by (simp_all add: vm_ok_def)
  note tt = pt_okD [OF pt va_path_ok t]
  have "load64 (store64 (km_mem s) (t + 8 * PML1X va) v) y = load64 (km_mem s) y" if "y \<in> P" for y
    using kowns_page [OF own that] that tt by (intro load64_page_entry) (auto simp: kpage_def)
  then have "kowns P u" unfolding u by (rule kowns_frame [OF own])
  then show "vm_ok P r u" using ok pt_ok_leaf(2) [OF pt t refl v] by (simp add: vm_ok_def u)
  show "only_mem s u" by (simp add: u)
  show "mmu (km_mem u) r va' = (if same_page va' va then Some v else mmu (km_mem s) r va')"
    using pt_ok_leaf(3) [OF pt t refl v] by (simp add: u)
qed

lemma present_bit: "(x OR PTE_P) AND PTE_P \<noteq> 0"
proof -
  have "bit ((x OR PTE_P) AND PTE_P) 0" by (simp add: bit_and_iff bit_or_iff PTE_P_def)
  then show ?thesis by (metis bit_0_eq bot_apply bot_bool_def)
qed

text \<open>What mapping the pages \<open>a\<close>, \<open>a + PGSIZE\<close>, ... up to the one with number \<open>n\<close> does: with success all of them translate to
  their entries, a failure means that memory ran out, and no other translation changes.\<close>

definition mapped :: "nat \<Rightarrow> ulong set \<Rightarrow> ulong \<Rightarrow> ulong \<Rightarrow> ulong \<Rightarrow> ulong \<Rightarrow> 'a kmem_st_scheme \<Rightarrow> int \<Rightarrow> 'a kmem_st_scheme \<Rightarrow> bool" where
  "mapped n P r a pa pr s res u \<longleftrightarrow>
     (\<exists>P' \<subseteq> P. vm_ok P' r u) \<and> only_mem s u \<and>
     (res = 0 \<and> (\<forall>k \<le> n. mmu (km_mem u) r (a + of_nat k * PGSIZE) = Some ((pa + of_nat k * PGSIZE) OR pr OR PTE_P)) \<or>
      res = - 1 \<and> card P \<le> 3 * n + 2) \<and>
     (\<forall>va. (\<forall>k \<le> n. \<not> same_page va (a + of_nat k * PGSIZE)) \<longrightarrow> mmu (km_mem u) r va = mmu (km_mem s) r va)"

lemma mapped_Suc:
  assumes g: "P1 \<subseteq> P" "card P \<le> card P1 + 3" "only_mem s w"
    and w: "\<And>va. mmu (km_mem w) r va = (if same_page va a then Some (pa OR pr OR PTE_P) else mmu (km_mem s) r va)"
    and IH: "mapped n P1 r (a + PGSIZE) (pa + PGSIZE) pr w res u" and a: "PGALIGNED a" "Suc n < 2 ^ 36"
  shows "mapped (Suc n) P r a pa pr s res u"
proof -
  have step: "b + PGSIZE + of_nat k * PGSIZE = b + of_nat (Suc k) * PGSIZE" for b k by (simp add: algebra_simps)
  note IH' = IH [unfolded mapped_def step]
  note sub = IH' [THEN conjunct1] and frame = IH' [THEN conjunct2, THEN conjunct1]
    and result = IH' [THEN conjunct2, THEN conjunct2, THEN conjunct1]
    and kept = IH' [THEN conjunct2, THEN conjunct2, THEN conjunct2, rule_format]
  have ne: "\<not> same_page (a + of_nat 0 * PGSIZE) (a + of_nat (Suc k) * PGSIZE)" if "k \<le> n" for k
    using same_page_step [OF a(1), of 0 "Suc k"] a(2) that by simp
  have "mmu (km_mem u) r a = mmu (km_mem w) r a" using kept [of a] ne by simp
  then have first: "mmu (km_mem u) r a = Some (pa OR pr OR PTE_P)" using w [of a] by (simp add: same_page_def)
  have all: "\<forall>k \<le> Suc n. mmu (km_mem u) r (a + of_nat k * PGSIZE) = Some ((pa + of_nat k * PGSIZE) OR pr OR PTE_P)"
    if "\<forall>k \<le> n. mmu (km_mem u) r (a + of_nat (Suc k) * PGSIZE) = Some ((pa + of_nat (Suc k) * PGSIZE) OR pr OR PTE_P)"
  proof (intro allI impI)
    fix k assume "k \<le> Suc n"
    then show "mmu (km_mem u) r (a + of_nat k * PGSIZE) = Some ((pa + of_nat k * PGSIZE) OR pr OR PTE_P)"
      using that first by (cases k) simp_all
  qed
  have "mmu (km_mem u) r va = mmu (km_mem s) r va" if "\<forall>k \<le> Suc n. \<not> same_page va (a + of_nat k * PGSIZE)" for va
  proof -
    have "\<not> same_page va a" using that [rule_format, of 0] by simp
    moreover have "mmu (km_mem u) r va = mmu (km_mem w) r va" using that by (intro kept) blast
    ultimately show ?thesis using w [of va] by simp
  qed
  moreover have "\<exists>P' \<subseteq> P. vm_ok P' r u" using sub g(1) by blast
  moreover have "only_mem s u" using only_mem_trans [OF g(3) frame] .
  moreover have "res = - 1 \<and> card P1 \<le> 3 * n + 2 \<Longrightarrow> card P \<le> 3 * Suc n + 2" using g(2) by simp
  ultimately show ?thesis unfolding mapped_def using result all by blast
qed

text \<open>One turn of the loop of \<^verbatim>\<open>mappages\<close>.\<close>

lemma wp_map_page:
  assumes ok: "vm_ok P r s" "mmu (km_mem s) r a = None"
    and cont: "\<And>P1 w. P1 \<subseteq> P \<Longrightarrow> card P \<le> card P1 + 3 \<Longrightarrow> only_mem s w \<Longrightarrow> vm_ok P1 r w \<Longrightarrow>
      (\<And>va. mmu (km_mem w) r va = (if same_page va a then Some (pa OR pr OR PTE_P) else mmu (km_mem s) r va)) \<Longrightarrow> wp f Q w"
    and stop: "\<And>P1 u. P1 \<subseteq> P \<Longrightarrow> vm_ok P1 r u \<Longrightarrow> only_mem s u \<Longrightarrow> card P \<le> 2 \<Longrightarrow>
      (\<And>va. mmu (km_mem u) r va = mmu (km_mem s) r va) \<Longrightarrow> Q (- 1) u"
  shows "wp (bind (walkpml4 r a True) (\<lambda>e. if e = 0 then ret (- 1) else bind (ld64 e) (\<lambda>v.
       if v AND PTE_P \<noteq> 0 then panic ''remap'' else andthen (st64 e (pa OR pr OR PTE_P)) f))) Q s"
  unfolding wp_bind
proof (rule wp_mono [OF wp_walkpml4 [OF ok(1), of a]], goal_cases)
  case (1 e u)
  then obtain P1 where g: "grown P P1 r s u" and e: "if e = 0 then card P \<le> 2
      else card P \<le> card P1 + 3 \<and> (\<exists>t. tab (km_mem u) r (va_path a) = Some t \<and> e = t + 8 * PML1X a)" by blast
  have gs: "P1 \<subseteq> P" "vm_ok P1 r u" "only_mem s u" "mmu (km_mem u) r va = mmu (km_mem s) r va" for va
    using g by (simp_all add: grown_def)
  show ?case
  proof (cases "e = 0")
    case True
    then show ?thesis using stop [OF gs(1-3) _ gs(4)] e by simp
  next
    case False
    then obtain t where t: "card P \<le> card P1 + 3" "tab (km_mem u) r (va_path a) = Some t" "e = t + 8 * PML1X a" using e by auto
    have free: "load64 (km_mem u) e AND PTE_P = 0" using gs(4) [of a] ok(2) t(2,3) by (simp add: mmu_def split: if_splits)
    have v: "(pa OR pr OR PTE_P) AND PTE_P \<noteq> 0" using present_bit [of "pa OR pr"] by (simp add: or.assoc)
    note leaf = vm_ok_leaf [OF gs(2) t(2) v refl]
    have "wp f Q (u\<lparr>km_mem := store64 (km_mem u) e (pa OR pr OR PTE_P)\<rparr>)"
      using leaf gs(4) unfolding t(3) by (intro cont [OF gs(1) t(1) only_mem_trans [OF gs(3)]]) simp_all
    then show ?thesis using False free by (simp add: ld64_def st64_def)
  qed
qed

lemma wp_mappages_loop:
  assumes "vm_ok P r s" "PGALIGNED a" "n < 2 ^ 36" "\<And>k. k \<le> n \<Longrightarrow> mmu (km_mem s) r (a + of_nat k * PGSIZE) = None"
  shows "wp (mappages_loop n r a pa pr) (mapped n P r a pa pr s) s"
  using assms
proof (induction n arbitrary: P s a pa)
  case 0
  show ?case unfolding mappages_loop.simps [of 0]
  proof (rule wp_map_page [OF 0(1)], goal_cases)
    case 1
    show ?case using 0(4) [of 0] by simp
  next
    case (2 P1 w)
    have "mapped 0 P r a pa pr s 0 w" unfolding mapped_def using 2 by (auto simp: same_page_def)
    then show ?case by simp
  next
    case (3 P1 u)
    then show ?case unfolding mapped_def by auto
  qed
next
  case (Suc n)
  have step: "b + PGSIZE + of_nat k * PGSIZE = b + of_nat (Suc k) * PGSIZE" for b k by (simp add: algebra_simps)
  show ?case unfolding mappages_loop.simps [of "Suc n"]
  proof (rule wp_map_page [OF Suc.prems(1)], goal_cases)
    case 1
    show ?case using Suc.prems(4) [of 0] by simp
  next
    case (2 P1 w)
    have "PGALIGNED (a + PGSIZE)" using PGALIGNED_add [OF Suc.prems(2), of 1] by simp
    moreover have "mmu (km_mem w) r (a + PGSIZE + of_nat k * PGSIZE) = None" if "k \<le> n" for k
      unfolding step using 2(5) Suc.prems(3) Suc.prems(4) [of "Suc k"] same_page_step [OF Suc.prems(2), of "Suc k" 0] that by simp
    ultimately have "wp (mappages_loop n r (a + PGSIZE) (pa + PGSIZE) pr) (mapped n P1 r (a + PGSIZE) (pa + PGSIZE) pr w) w"
      using Suc.prems(3) by (intro Suc.IH [OF 2(4)]) simp_all
    then show ?case unfolding nat.case
      by (rule wp_mono) (rule mapped_Suc [OF 2(1-3) 2(5) _ Suc.prems(2,3)])
  next
    case (3 P1 u)
    then show ?case unfolding mapped_def by auto
  qed
qed


lemma PGALIGNED_PGROUNDDOWN [simp]: "PGALIGNED (PGROUNDDOWN a)"
  by (simp add: PGALIGNED_iff unat_PGROUNDDOWN)

text \<open>C37: Mapping a range of pages that are not mapped. \<^verbatim>\<open>mappages\<close> never panics, and keeps the tree of page tables free of
  sharing and apart from the free pages. When it returns 0 the processor translates every page of the range to its
  physical page with the given permissions; it returns -1 only when fewer than three free pages were there for each page
  of the range; and every other page is translated as before.\<close>

theorem mappages_maps:
  assumes "vm_ok P r s" "n = unat (PGROUNDDOWN (va + sz - 1) - PGROUNDDOWN va) div 4096" "n < 2 ^ 36"
    and "\<forall>k \<le> n. mmu (km_mem s) r (PGROUNDDOWN va + of_nat k * PGSIZE) = None"
  shows "wp (mappages r va sz pa pr) (mapped n P r (PGROUNDDOWN va) pa pr s) s"
  unfolding mappages_def Let_def assms(2) [symmetric]
  using assms(1,3,4) by (intro wp_mappages_loop) simp_all

section \<open>Looking a page up\<close>

lemma get_table_lookup:
  assumes "pt_ok P (km_mem s) r" "tab (km_mem s) r p = Some t" "path_ok (i # p)"
  shows "bind (get_table (t + 8 * i) False) (\<lambda>q. if q = 0 then ret 0 else f q) s =
     (case tab (km_mem s) r (i # p) of None \<Rightarrow> Inr (0, s) | Some q \<Rightarrow> f q s)"
proof -
  let ?e = "entry (km_mem s) t i"
  show ?thesis
  proof (cases "?e AND PTE_P = 0")
    case True
    then show ?thesis using assms(2) by (simp add: get_table_def ld64_def bind_def gets_def ret_def)
  next
    case False
    then have some: "tab (km_mem s) r (i # p) = Some (P2V (PTE_ADDR ?e))" using assms(2) by simp
    then have "P2V (PTE_ADDR ?e) \<noteq> 0" using pt_okD(2) [OF assms(1,3) some] by (auto simp: dpage_def KERNBASE_def)
    then show ?thesis using some False by (simp only: option.case) (simp add: get_table_def ld64_def bind_def gets_def ret_def)
  qed
qed

lemma walkpml4_lookup:
  assumes "pt_ok P (km_mem s) r"
  shows "walkpml4 r va False s = Inr (case tab (km_mem s) r (va_path va) of None \<Rightarrow> 0 | Some t \<Rightarrow> t + 8 * PML1X va, s)"
proof -
  have ok: "path_ok [PML4X va]" "path_ok [PML3X va, PML4X va]" "path_ok [PML2X va, PML3X va, PML4X va]" by (simp_all add: path_ok_def)
  note step = get_table_lookup [OF assms]
  note defs = walkpml4_def get_pml3_def get_pml2_def get_pml1_def va_path_def step [OF tab.simps(1) ok(1)]
  show ?thesis
  proof (cases "tab (km_mem s) r [PML4X va]")
    case None
    then have "tab (km_mem s) r [PML2X va, PML3X va, PML4X va] = None" by simp
    then show ?thesis using None by (simp only: defs option.case)
  next
    case 3: (Some t3)
    show ?thesis
    proof (cases "tab (km_mem s) r [PML3X va, PML4X va]")
      case None
      then have "tab (km_mem s) r [PML2X va, PML3X va, PML4X va] = None" by simp
      then show ?thesis using None by (simp only: defs 3 option.case step [OF 3 ok(2)])
    next
      case 2: (Some t2)
      then show ?thesis
        by (cases "tab (km_mem s) r [PML2X va, PML3X va, PML4X va]")
           (simp_all only: defs 3 option.case step [OF 3 ok(2)] step [OF 2 ok(3)], simp only: ret_def)
    qed
  qed
qed

text \<open>C38: \<^verbatim>\<open>uva2ka\<close> finds the kernel address of a user page exactly as the processor translates it: the page of a mapped
  address if user code may access it, and 0 if not. When the tables that lead to the address do not exist it dereferences
  a null pointer instead.\<close>

theorem uva2ka_mmu:
  assumes "pt_ok P (km_mem s) r"
  shows "uva2ka r va s =
     (if tab (km_mem s) r (va_path va) = None then Inl Fault
      else Inr (case mmu (km_mem s) r va of None \<Rightarrow> 0 | Some v \<Rightarrow> if v AND PTE_U \<noteq> 0 then P2V (PTE_ADDR v) else 0, s))"
proof (cases "tab (km_mem s) r (va_path va)")
  case None
  then show ?thesis using walkpml4_lookup [OF assms, of va] by (simp add: uva2ka_def bind_def fail_def)
next
  case (Some t)
  then have "t + 8 * PML1X va \<noteq> 0" using pt_okD(2) [OF assms va_path_ok] by (intro entry_nonnull) auto
  then show ?thesis using Some walkpml4_lookup [OF assms, of va]
    by (simp add: uva2ka_def bind_def mmu_def ld64_def gets_def ret_def)
qed

section \<open>An empty table\<close>

text \<open>A table with no entry, as \<^verbatim>\<open>setupkvm\<close> makes it, maps nothing.\<close>

lemma empty_table:
  assumes "dpage r" "r \<notin> P" "\<And>i. i < 512 \<Longrightarrow> entry m r i = 0"
  shows "pt_ok P m r" "mmu m r va = None"
proof -
  have only: "p = []" if "path_ok p" "tab m r p = Some t" for p t
    using that
  proof (induction p arbitrary: t)
    case (Cons i p)
    then obtain t' where t': "tab m r p = Some t'" "path_ok p" "i < 512" using path_okD by (auto split: option.splits)
    then have "p = []" using Cons.IH by blast
    then show ?case using Cons.prems t' assms(3) by simp
  qed simp
  then show "pt_ok P m r" using assms(1,2) unfolding pt_ok_def by (metis option.inject tab.simps(1))
  show "mmu m r va = None" using only [OF va_path_ok, of va] by (cases "tab m r (va_path va)") (auto simp: mmu_def va_path_def)
qed

text \<open>Three free pages and an empty table.\<close>

definition vm_demo_mem :: mem where
  "vm_demo_mem = store64 (store64 (\<lambda>_. 0) (KERNBASE + 0x1000) (KERNBASE + 0x2000)) (KERNBASE + 0x2000) (KERNBASE + 0x3000)"

definition vm_demo :: kmem_st where
  "vm_demo = \<lparr>held = {}, km_use_lock = True, km_freelist = KERNBASE + 0x1000, km_mem = vm_demo_mem, km_end = KERNBASE,
     km_kmap = [], km_cur = 0\<rparr>"

lemma vm_demo_pages: "PGALIGNED (KERNBASE + 0x1000)" "PGALIGNED (KERNBASE + 0x2000)" "PGALIGNED (KERNBASE + 0x3000)" "PGALIGNED (KERNBASE + 0x5000)"
  by (simp_all add: PGALIGNED_def PGSIZE_def KERNBASE_def)

lemma vm_demo_other:
  assumes "PGALIGNED p" "i < 512" "p \<noteq> KERNBASE + 0x1000" "p \<noteq> KERNBASE + 0x2000"
  shows "entry vm_demo_mem p i = 0"
proof -
  have "entry vm_demo_mem p i = entry (\<lambda>_. 0) p i" unfolding vm_demo_mem_def
    using assms entry_store_other [OF vm_demo_pages(2) assms(1), of 0 i] entry_store_other [OF vm_demo_pages(1) assms(1), of 0 i] by simp
  then show ?thesis using load64_zero [of "p + 8 * i" "\<lambda>_. 0"] by simp
qed

lemma vm_demo_ok:
  "vm_ok {KERNBASE + 0x1000, KERNBASE + 0x2000, KERNBASE + 0x3000} (KERNBASE + 0x5000) vm_demo"
  "mmu vm_demo_mem (KERNBASE + 0x5000) va = None"
proof -
  let ?P = "{KERNBASE + 0x1000, KERNBASE + 0x2000, KERNBASE + 0x3000}"
  have d: "dpage (KERNBASE + 0x5000)" "KERNBASE + 0x5000 \<notin> ?P" by (simp_all add: dpage_def PGALIGNED_def PGSIZE_def KERNBASE_def)
  note e = empty_table [OF d, of vm_demo_mem] vm_demo_other [OF vm_demo_pages(4)]
  have f: "load64 vm_demo_mem (KERNBASE + 0x2000) = KERNBASE + 0x3000" by (simp add: vm_demo_mem_def)
  have "load64 vm_demo_mem (KERNBASE + 0x1000) = KERNBASE + 0x2000"
    using entry_store_other [OF vm_demo_pages(2) vm_demo_pages(1), of 0 0] by (simp add: vm_demo_mem_def)
  moreover have "load64 vm_demo_mem (KERNBASE + 0x3000) = 0" using vm_demo_other [OF vm_demo_pages(3), of 0] by simp
  ultimately have "kfreelist [KERNBASE + 0x1000, KERNBASE + 0x2000, KERNBASE + 0x3000] vm_demo"
    using f vm_demo_pages by (simp add: kfreelist_def vm_demo_def kpage_def) (simp add: KERNBASE_def)
  then have "kowns ?P vm_demo" unfolding kowns_def by force
  then show "vm_ok ?P (KERNBASE + 0x5000) vm_demo" using e by (simp add: vm_ok_def vm_demo_def)
  show "mmu vm_demo_mem (KERNBASE + 0x5000) va = None" using e by simp
qed

theorem mappages_maps_witness:
  "wp (mappages (KERNBASE + 0x5000) 0x400000 0x1000 0x9000 PTE_W)
     (\<lambda>res u. res = 0 \<and> mmu (km_mem u) (KERNBASE + 0x5000) 0x400000 = Some (0x9000 OR PTE_W OR PTE_P)) vm_demo"
proof -
  let ?P = "{KERNBASE + 0x1000, KERNBASE + 0x2000, KERNBASE + 0x3000}"
  have "card ?P = 3" by (simp add: KERNBASE_def)
  moreover have pg: "PGROUNDDOWN 0x400000 = 0x400000" "PGROUNDDOWN (0x400000 + 0x1000 - 1) = 0x400000"
    by (simp_all add: PGROUNDDOWN_def PGSIZE_def)
  moreover have "km_mem vm_demo = vm_demo_mem" by (simp add: vm_demo_def)
  ultimately show ?thesis
    using wp_mono [OF mappages_maps [OF vm_demo_ok(1), of 0 "0x400000" "0x1000" "0x9000" PTE_W]] vm_demo_ok(2)
    by (simp add: mapped_def)
qed

text \<open>No address has a table there.\<close>

theorem uva2ka_mmu_witness: "uva2ka (KERNBASE + 0x5000) 0x400000 vm_demo = Inl Fault"
proof -
  have pt: "pt_ok {KERNBASE + 0x1000, KERNBASE + 0x2000, KERNBASE + 0x3000} (km_mem vm_demo) (KERNBASE + 0x5000)"
    using vm_demo_ok(1) by (simp add: vm_ok_def)
  have "tab (km_mem vm_demo) (KERNBASE + 0x5000) (va_path 0x400000) = None"
    using vm_demo_other [OF vm_demo_pages(4), of "PML4X 0x400000"] by (simp add: va_path_def vm_demo_def KERNBASE_def)
  then show ?thesis using uva2ka_mmu [OF pt, of "0x400000"] by simp
qed

end
