(* ===== verification/Exec.thy ===== *)
theory Exec
  imports Proc Paging
begin

text \<open>
  Access to user memory as the CPU translates it, and \<^verbatim>\<open>kernel/exec.c\<close>: loading an ELF program and building the
  initial stack of the new image.
\<close>

section \<open>User memory\<close>

text \<open>
  The kernel reads and writes user memory through the page table in \<^verbatim>\<open>cr3\<close>. The translation \<^const>\<open>mmu\<close> gives the
  kernel's address of a byte; every level must be present, and since the kernel sets \<^verbatim>\<open>CR0_WP\<close> a write needs
  \<^verbatim>\<open>PTE_W\<close> in the leaf (the upper levels always have it).
\<close>

definition mmu_addr :: "mem \<Rightarrow> ulong \<Rightarrow> ulong \<Rightarrow> ulong option" where
  "mmu_addr m pml4 va = map_option (\<lambda>e. P2V (PTE_ADDR e) + (va AND 0xFFF)) (mmu m pml4 va)"

definition user_byte :: "'a vm_st_scheme \<Rightarrow> ulong \<Rightarrow> byte option" where
  "user_byte s a = map_option (km_mem s) (mmu_addr (km_mem s) (P2V (cpu_cr3 s)) a)"

definition ld_user :: "ulong \<Rightarrow> ('a vm_st_scheme, byte) kop" where
  "ld_user a = bind (gets (\<lambda>s. user_byte s a)) (\<lambda>r. case r of None \<Rightarrow> fail Fault | Some b \<Rightarrow> ret b)"

fun ld_users :: "ulong \<Rightarrow> nat \<Rightarrow> ('a vm_st_scheme, byte list) kop" where
  "ld_users a 0 = ret []"
| "ld_users a (Suc n) = bind (ld_user a) (\<lambda>b. bind (ld_users (a + 1) n) (\<lambda>bs. ret (b # bs)))"

definition st_user :: "ulong \<Rightarrow> byte \<Rightarrow> ('a vm_st_scheme, unit) kop" where
  "st_user a b =
     bind (gets (\<lambda>s. mmu (km_mem s) (P2V (cpu_cr3 s)) a)) (\<lambda>r.
     case r of None \<Rightarrow> fail Fault
     | Some e \<Rightarrow> if e AND PTE_W = 0 then fail Fault
         else modify (\<lambda>s. s\<lparr>km_mem := (km_mem s)(P2V (PTE_ADDR e) + (a AND 0xFFF) := b)\<rparr>))"

fun st_users :: "ulong \<Rightarrow> byte list \<Rightarrow> ('a vm_st_scheme, unit) kop" where
  "st_users a [] = skip"
| "st_users a (b # bs) = andthen (st_user a b) (st_users (a + 1) bs)"

section \<open>ELF files\<close>

record elfhdr =
  elf_magic :: uint
  elf_entry :: ulong
  elf_phoff :: ulong
  elf_phnum :: ushort

record proghdr =
  ph_type :: uint
  ph_flags :: uint
  ph_off :: ulong
  ph_vaddr :: ulong
  ph_filesz :: ulong
  ph_memsz :: ulong

definition ELF_MAGIC :: uint where "ELF_MAGIC = 0x464C457F"
definition ELF_PROG_LOAD :: uint where "ELF_PROG_LOAD = 1"
definition ELF_PROG_FLAG_EXEC :: uint where "ELF_PROG_FLAG_EXEC = 1"
definition ELF_PROG_FLAG_WRITE :: uint where "ELF_PROG_FLAG_WRITE = 2"
definition MAXARG :: nat where "MAXARG = 32"

definition sizeof_elfhdr :: nat where "sizeof_elfhdr = 64"
definition sizeof_proghdr :: nat where "sizeof_proghdr = 56"

definition get_elfhdr :: "byte list \<Rightarrow> elfhdr" where
  "get_elfhdr d = \<lparr>elf_magic = get_le 4 0 d, elf_entry = get_le 8 24 d, elf_phoff = get_le 8 32 d, elf_phnum = get_le 2 56 d\<rparr>"

definition get_proghdr :: "byte list \<Rightarrow> proghdr" where
  "get_proghdr d = \<lparr>ph_type = get_le 4 0 d, ph_flags = get_le 4 4 d, ph_off = get_le 8 8 d, ph_vaddr = get_le 8 16 d,
     ph_filesz = get_le 8 32 d, ph_memsz = get_le 8 40 d\<rparr>"

definition ph_perm :: "proghdr \<Rightarrow> ulong" where
  "ph_perm ph =
     (if ph_flags ph AND ELF_PROG_FLAG_EXEC = 0 then PTE_XD else 0) OR
     (if ph_flags ph AND ELF_PROG_FLAG_WRITE \<noteq> 0 then PTE_W else 0)"

text \<open>The loop over the program headers; \<open>None\<close> is the jump to \<^verbatim>\<open>bad\<close>. \<^verbatim>\<open>off\<close> is an \<^verbatim>\<open>int\<close>; \<^verbatim>\<open>allocuvm\<close> returns an
  \<^verbatim>\<open>int\<close>, which is sign-extended into \<^verbatim>\<open>sz\<close>.\<close>

fun exec_load :: "nat \<Rightarrow> ulong \<Rightarrow> nat \<Rightarrow> uint \<Rightarrow> ulong \<Rightarrow> ('a fs_st_scheme, ulong option) kop" where
  "exec_load ip pml4 0 off sz = ret (Some sz)"
| "exec_load ip pml4 (Suc k) off sz =
     bind (readi ip off (of_nat sizeof_proghdr)) (\<lambda>(r, d).
     if r \<noteq> int sizeof_proghdr then ret None
     else
       let ph = get_proghdr d in
       if ph_type ph \<noteq> ELF_PROG_LOAD then exec_load ip pml4 k (off + of_nat sizeof_proghdr) sz
       else if ph_memsz ph < ph_filesz ph then ret None
       else if ph_vaddr ph + ph_memsz ph < ph_vaddr ph then ret None
       else
         bind (allocuvm pml4 sz (ph_vaddr ph + ph_memsz ph) (ph_perm ph)) (\<lambda>sz'.
         if sz' = 0 then ret None
         else if ph_vaddr ph mod PGSIZE \<noteq> 0 then ret None
         else
           bind (loaduvm pml4 (ph_vaddr ph) ip (ucast (ph_off ph)) (ucast (ph_filesz ph))) (\<lambda>r.
           if r < 0 then ret None
           else exec_load ip pml4 k (off + of_nat sizeof_proghdr) (scast sz'))))"

section \<open>The new stack\<close>

text \<open>The argument strings are pushed one by one; the result is the stack pointer and their addresses.\<close>

fun push_args :: "ulong \<Rightarrow> ulong \<Rightarrow> byte list list \<Rightarrow> nat \<Rightarrow> ('a kmem_st_scheme, (ulong \<times> ulong list) option) kop" where
  "push_args pml4 sp [] argc = ret (Some (sp, []))"
| "push_args pml4 sp (arg # args) argc =
     (if argc \<ge> MAXARG then ret None
      else
        let sp' = ALIGN (sp - of_nat (length arg + 1)) 8 in
        bind (copyout pml4 sp' (arg @ [0])) (\<lambda>r.
        if r < 0 then ret None
        else bind (push_args pml4 sp' args (argc + 1)) (\<lambda>res.
          ret (map_option (\<lambda>(sp'', ps). (sp'', sp' # ps)) res))))"

text \<open>\<^verbatim>\<open>ustack\<close>: a fake return address, the pointers to the arguments, and a null pointer.\<close>

definition ustack_bytes :: "ulong list \<Rightarrow> byte list" where
  "ustack_bytes ptrs = concat (map (le_bytes 8) ([- 1 :: ulong] @ ptrs @ [0]))"

definition last_elem :: "byte list \<Rightarrow> byte list" where
  "last_elem path = rev (takeWhile (\<lambda>c. \<not> slash c) (rev path))"

definition exec_bad :: "ulong \<Rightarrow> nat option \<Rightarrow> ('a fs_st_scheme, int) kop" where
  "exec_bad pml4 ipp =
     andthen (whenK (pml4 \<noteq> 0) (freevm pml4))
    (andthen (case ipp of None \<Rightarrow> skip | Some ip \<Rightarrow> andthen (iunlockput ip) end_op)
       (ret (- 1)))"

text \<open>From the point where the program is loaded: the stack, and the switch to the new image.\<close>

definition exec_commit :: "nat \<Rightarrow> byte list \<Rightarrow> byte list list \<Rightarrow> elfhdr \<Rightarrow> ulong \<Rightarrow> ulong \<Rightarrow> ('a vm_st_scheme, int) kop" where
  "exec_commit c path argv elf pml4 sz0 =
     (let sz1 = PGROUNDUP sz0 in
      bind (allocuvm pml4 sz1 (sz1 + 2 * PGSIZE) (PTE_XD OR PTE_W)) (\<lambda>r.
      if r = 0 then exec_bad pml4 None
      else
        let sz = scast r :: ulong in
        andthen (clearpteu pml4 (sz - 2 * PGSIZE))
       (bind (push_args pml4 sz argv 0) (\<lambda>res.
        case res of None \<Rightarrow> exec_bad pml4 None
        | Some (sp, ptrs) \<Rightarrow>
            let argc = length ptrs in
            andthen (modify (upd_proc c (\<lambda>x. x\<lparr>p_tf := (p_tf x)\<lparr>tf_rdi := of_nat argc, tf_rsi := sp - of_nat ((argc + 1) * 8)\<rparr>\<rparr>)))
           (let sp' = sp - of_nat ((1 + argc + 1) * 8) in
            bind (copyout pml4 sp' (ustack_bytes ptrs)) (\<lambda>r.
            if r < 0 then exec_bad pml4 None
            else
              bind (gets (\<lambda>s. p_pml4 (procs s ! c))) (\<lambda>oldpml4.
              andthen (modify (upd_proc c (\<lambda>x. x\<lparr>p_name := patch 0 (safestrcpy (view_list (last_elem path)) 16) (p_name x),
                 p_pml4 := pml4, p_sz := sz, p_tf := (p_tf x)\<lparr>tf_rip := elf_entry elf, tf_rsp := sp'\<rparr>\<rparr>)))
             (andthen (switchuvm (Some c))
             (andthen (freevm oldpml4) (ret 0))))))))))"

definition exec :: "byte list \<Rightarrow> byte list list \<Rightarrow> ('a vm_st_scheme, int) kop" where
  "exec path argv =
     bind curproc (\<lambda>c.
     andthen begin_op
    (bind (namei path) (\<lambda>r.
     case r of None \<Rightarrow> andthen end_op (andthen (cprintf (lit ''exec: fail'' @ [10]) []) (ret (- 1)))
     | Some ip \<Rightarrow>
         andthen (ilock (Some ip))
        (bind (readi ip 0 (of_nat sizeof_elfhdr)) (\<lambda>(r, d).
         let elf = get_elfhdr d in
         if r \<noteq> int sizeof_elfhdr then exec_bad 0 (Some ip)
         else if elf_magic elf \<noteq> ELF_MAGIC then exec_bad 0 (Some ip)
         else
           bind setupkvm (\<lambda>pml4.
           if pml4 = 0 then exec_bad 0 (Some ip)
           else
             bind (exec_load ip pml4 (unat (elf_phnum elf)) (ucast (elf_phoff elf)) 0) (\<lambda>res.
             case res of None \<Rightarrow> exec_bad pml4 (Some ip)
             | Some sz \<Rightarrow>
                 andthen (iunlockput ip)
                (andthen end_op
                   (exec_commit c path argv elf pml4 sz)))))))))"

end
