(* ===== verification/Syscall.thy ===== *)
theory Syscall
  imports Exec
begin

text \<open>
  The system call interface: fetching arguments from the registers and from user memory (\<^verbatim>\<open>kernel/syscall.c\<close>), the
  process calls (\<^verbatim>\<open>kernel/sysproc.c\<close>), the file calls (\<^verbatim>\<open>kernel/sysfile.c\<close>) and the dispatcher. A helper that returns
  0 or -1 and stores its value through a pointer returns an option here.
\<close>

section \<open>Arguments\<close>

definition my :: "(proc \<Rightarrow> 'b) \<Rightarrow> ('a proc_st_scheme, 'b) kop" where
  "my f = bind curproc (\<lambda>c. gets (\<lambda>s. f (procs s ! c)))"

definition fetchlong :: "ulong \<Rightarrow> ('a vm_st_scheme, ulong option) kop" where
  "fetchlong addr =
     bind (my p_sz) (\<lambda>sz.
     if addr \<ge> sz \<or> addr + 8 > sz then ret None
     else bind (ld_users addr 8) (\<lambda>bs. ret (Some (le_word bs))))"

fun fetchstr_loop :: "ulong \<Rightarrow> nat \<Rightarrow> ('a vm_st_scheme, byte list option) kop" where
  "fetchstr_loop a 0 = ret None"
| "fetchstr_loop a (Suc n) =
     bind (ld_user a) (\<lambda>b.
     if b = 0 then ret (Some [])
     else bind (fetchstr_loop (a + 1) n) (\<lambda>r. ret (map_option (\<lambda>bs. b # bs) r)))"

text \<open>The string at \<open>addr\<close>, if its NUL is within the process.\<close>

definition fetchstr :: "ulong \<Rightarrow> ('a vm_st_scheme, byte list option) kop" where
  "fetchstr addr =
     bind (my p_sz) (\<lambda>sz.
     if addr \<ge> sz then ret None else fetchstr_loop addr (unat sz - unat addr))"

definition arglong :: "nat \<Rightarrow> ('a vm_st_scheme, ulong option) kop" where
  "arglong n =
     bind (my p_tf) (\<lambda>tf.
     if n = 0 then ret (Some (tf_rdi tf))
     else if n = 1 then ret (Some (tf_rsi tf))
     else if n = 2 then ret (Some (tf_rdx tf))
     else if n = 3 then ret (Some (tf_rcx tf))
     else if n = 4 then ret (Some (tf_r8 tf))
     else if n = 5 then ret (Some (tf_r9 tf))
     else fetchlong (tf_rsp tf + 8 * (of_nat n + 1)))"

definition argint :: "nat \<Rightarrow> ('a vm_st_scheme, int option) kop" where
  "argint n = bind (arglong n) (\<lambda>r. ret (map_option (\<lambda>i. sint (ucast i :: uint)) r))"

definition argptr :: "nat \<Rightarrow> int \<Rightarrow> ('a vm_st_scheme, ulong option) kop" where
  "argptr n size' =
     bind (my p_sz) (\<lambda>sz.
     bind (arglong n) (\<lambda>r.
     case r of None \<Rightarrow> ret None
     | Some i \<Rightarrow> if size' < 0 \<or> i \<ge> sz \<or> i + of_int size' > sz then ret None else ret (Some i)))"

definition argstr :: "nat \<Rightarrow> ('a vm_st_scheme, byte list option) kop" where
  "argstr n = bind (arglong n) (\<lambda>r. case r of None \<Rightarrow> ret None | Some addr \<Rightarrow> fetchstr addr)"

text \<open>Going on with a value, or returning -1.\<close>

definition orfail :: "('s, 'b option) kop \<Rightarrow> ('b \<Rightarrow> ('s, ulong) kop) \<Rightarrow> ('s, ulong) kop" where
  "orfail f k = bind f (\<lambda>r. case r of None \<Rightarrow> ret (- 1) | Some x \<Rightarrow> k x)"

section \<open>Process calls\<close>

definition sys_fork :: "ulong \<Rightarrow> ulong \<Rightarrow> ('a vm_st_scheme, ulong) kop" where
  "sys_fork trapret forkret_addr = bind (fork trapret forkret_addr) (\<lambda>r. ret (of_int r))"

definition sys_exit :: "('a vm_st_scheme, ulong) kop" where
  "sys_exit = andthen exit (ret 0)"

definition sys_wait :: "('a vm_st_scheme, ulong) kop" where
  "sys_wait = bind wait (\<lambda>r. ret (of_int r))"

definition sys_kill :: "('a vm_st_scheme, ulong) kop" where
  "sys_kill = orfail (argint 0) (\<lambda>pid. bind (kill pid) (\<lambda>r. ret (of_int r)))"

definition sys_getpid :: "('a vm_st_scheme, ulong) kop" where
  "sys_getpid = bind (my p_pid) (\<lambda>pid. ret (of_int pid))"

definition sys_sbrk :: "('a vm_st_scheme, ulong) kop" where
  "sys_sbrk =
     orfail (argint 0) (\<lambda>n.
     bind (my p_sz) (\<lambda>addr.
     bind (growproc n) (\<lambda>r. if r < 0 then ret (- 1) else ret addr)))"

text \<open>The comparison with \<^verbatim>\<open>n\<close> is unsigned, so a negative number of ticks is a very long time.\<close>

definition sys_sleep :: "('a vm_st_scheme, ulong) kop" where
  "sys_sleep =
     orfail (argint 0) (\<lambda>n.
     andthen (acquire ''time'')
    (bind (gets ticks) (\<lambda>ticks0.
     bind (gets (\<lambda>s. ticks s - ticks0)) (\<lambda>d.
     if d < of_int n then
       bind (my p_killed) (\<lambda>killed.
       if killed then andthen (release ''time'') (ret (- 1))
       else andthen (sleep Ch_ticks ''time'') (fail Blocked))
     else andthen (release ''time'') (ret 0)))))"

definition sys_uptime :: "('a vm_st_scheme, ulong) kop" where
  "sys_uptime =
     andthen (acquire ''time'')
    (bind (gets ticks) (\<lambda>xticks.
     andthen (release ''time'') (ret (ucast xticks))))"

section \<open>File descriptors\<close>

definition argfd :: "nat \<Rightarrow> ('a vm_st_scheme, (nat \<times> nat) option) kop" where
  "argfd n =
     bind (argint n) (\<lambda>r.
     case r of None \<Rightarrow> ret None
     | Some fd \<Rightarrow>
         if fd < 0 \<or> fd \<ge> int NOFILE then ret None
         else bind (my p_ofile) (\<lambda>fs.
           case fs ! nat fd of None \<Rightarrow> ret None | Some f \<Rightarrow> ret (Some (nat fd, f))))"

definition fdalloc :: "nat \<Rightarrow> ('a proc_st_scheme, nat option) kop" where
  "fdalloc f =
     bind curproc (\<lambda>c.
     bind (gets (\<lambda>s. find (\<lambda>fd. p_ofile (procs s ! c) ! fd = None) [0..<NOFILE])) (\<lambda>r.
     case r of None \<Rightarrow> ret None
     | Some fd \<Rightarrow> andthen (modify (upd_proc c (\<lambda>x. x\<lparr>p_ofile := (p_ofile x)[fd := Some f]\<rparr>))) (ret (Some fd))))"

definition sys_dup :: "('a vm_st_scheme, ulong) kop" where
  "sys_dup =
     orfail (argfd 0) (\<lambda>(_, f).
     orfail (fdalloc f) (\<lambda>fd.
     bind (filedup f) (\<lambda>_. ret (of_nat fd))))"

definition sys_read :: "('a vm_st_scheme, ulong) kop" where
  "sys_read =
     orfail (argfd 0) (\<lambda>(_, f).
     orfail (argint 2) (\<lambda>n.
     orfail (argptr 1 n) (\<lambda>p.
     bind (fileread f n) (\<lambda>(r, d).
     andthen (st_users p d) (ret (of_int r))))))"

definition sys_write :: "('a vm_st_scheme, ulong) kop" where
  "sys_write =
     orfail (argfd 0) (\<lambda>(_, f).
     orfail (argint 2) (\<lambda>n.
     orfail (argptr 1 n) (\<lambda>p.
     bind (ld_users p (nat n)) (\<lambda>d.
     bind (filewrite f d) (\<lambda>r. ret (of_int r))))))"

definition sys_close :: "('a vm_st_scheme, ulong) kop" where
  "sys_close =
     orfail (argfd 0) (\<lambda>(fd, f).
     bind curproc (\<lambda>c.
     andthen (modify (upd_proc c (\<lambda>x. x\<lparr>p_ofile := (p_ofile x)[fd := None]\<rparr>)))
    (andthen (fileclose f) (ret 0))))"

text \<open>\<^verbatim>\<open>struct stat\<close> in user memory: 20 bytes, with the padding left alone.\<close>

definition st_stat :: "ulong \<Rightarrow> stat \<Rightarrow> ('a vm_st_scheme, unit) kop" where
  "st_stat p st =
     andthen (st_users (p + 4) (le_bytes 4 (of_int (st_dev st) :: uint)))
    (andthen (st_users (p + 8) (le_bytes 4 (of_nat (st_ino st) :: uint)))
    (andthen (st_users p (le_bytes 2 (st_type st)))
    (andthen (st_users (p + 12) (le_bytes 2 (st_nlink st)))
       (st_users (p + 16) (le_bytes 4 (st_size st))))))"

definition sys_fstat :: "('a vm_st_scheme, ulong) kop" where
  "sys_fstat =
     orfail (argfd 0) (\<lambda>(_, f).
     orfail (argptr 1 20) (\<lambda>p.
     orfail (filestat f) (\<lambda>st. andthen (st_stat p st) (ret 0))))"

section \<open>Links and directories\<close>

definition sys_link_bad :: "nat \<Rightarrow> ('a fs_st_scheme, ulong) kop" where
  "sys_link_bad ip =
     andthen (ilock (Some ip))
    (andthen (modify (upd_inode ip (\<lambda>x. x\<lparr>i_nlink := i_nlink x - 1\<rparr>)))
    (andthen (iupdate ip)
    (andthen (iunlockput ip)
    (andthen end_op (ret (- 1))))))"

definition sys_link :: "('a vm_st_scheme, ulong) kop" where
  "sys_link =
     orfail (argstr 0) (\<lambda>old.
     orfail (argstr 1) (\<lambda>new.
     andthen begin_op
    (bind (namei old) (\<lambda>r.
     case r of None \<Rightarrow> andthen end_op (ret (- 1))
     | Some ip \<Rightarrow>
         andthen (ilock (Some ip))
        (bind (gets (\<lambda>s. i_type (inodes s ! ip))) (\<lambda>t.
         if t = T_DIR then andthen (iunlockput ip) (andthen end_op (ret (- 1)))
         else
           andthen (modify (upd_inode ip (\<lambda>x. x\<lparr>i_nlink := i_nlink x + 1\<rparr>)))
          (andthen (iupdate ip)
          (andthen (iunlock (Some ip))
          (bind (nameiparent new) (\<lambda>(dpo, name).
           case dpo of None \<Rightarrow> sys_link_bad ip
           | Some dp \<Rightarrow>
               andthen (ilock (Some dp))
              (bind (gets (\<lambda>s. (i_dev (inodes s ! dp), i_dev (inodes s ! ip), i_inum (inodes s ! ip)))) (\<lambda>(ddev, idev, inum).
               bind (if ddev \<noteq> idev then ret (- 1) else dirlink dp name inum) (\<lambda>r.
               if r < 0 then andthen (iunlockput dp) (sys_link_bad ip)
               else
                 andthen (iunlockput dp)
                (andthen (iput ip)
                (andthen end_op (ret 0))))))))))))))))"

fun isdirempty_loop :: "nat \<Rightarrow> nat list \<Rightarrow> ('a fs_st_scheme, bool) kop" where
  "isdirempty_loop dp [] = ret True"
| "isdirempty_loop dp (off # offs) =
     bind (readi dp (of_nat off) (of_nat sizeof_dirent)) (\<lambda>(r, d).
     if r \<noteq> int sizeof_dirent then panic ''isdirempty: readi''
     else if de_inum (get_dirent d) \<noteq> 0 then ret False
     else isdirempty_loop dp offs)"

definition isdirempty :: "nat \<Rightarrow> ('a fs_st_scheme, bool) kop" where
  "isdirempty dp = bind (gets (\<lambda>s. i_size (inodes s ! dp))) (\<lambda>sz. isdirempty_loop dp (drop 2 (dir_offs sz)))"

definition sys_unlink_bad :: "nat \<Rightarrow> ('a fs_st_scheme, ulong) kop" where
  "sys_unlink_bad dp = andthen (iunlockput dp) (andthen end_op (ret (- 1)))"

definition sys_unlink :: "('a vm_st_scheme, ulong) kop" where
  "sys_unlink =
     orfail (argstr 0) (\<lambda>path.
     andthen begin_op
    (bind (nameiparent path) (\<lambda>(dpo, name).
     case dpo of None \<Rightarrow> andthen end_op (ret (- 1))
     | Some dp \<Rightarrow>
         andthen (ilock (Some dp))
        (if namecmp name (lit ''.'') = 0 \<or> namecmp name (lit ''..'') = 0 then sys_unlink_bad dp
         else
           bind (dirlookup dp name) (\<lambda>r.
           case r of None \<Rightarrow> sys_unlink_bad dp
           | Some (ip, off) \<Rightarrow>
               andthen (ilock (Some ip))
              (bind (gets (\<lambda>s. inodes s ! ip)) (\<lambda>x.
               if sint (i_nlink x) < 1 then panic ''unlink: nlink < 1''
               else
                 bind (if i_type x = T_DIR then bind (isdirempty ip) (\<lambda>e. ret (\<not> e)) else ret False) (\<lambda>full.
                 if full then andthen (iunlockput ip) (sys_unlink_bad dp)
                 else
                   bind (writei dp (replicate sizeof_dirent 0) (of_nat off)) (\<lambda>r.
                   if r \<noteq> int sizeof_dirent then panic ''unlink: writei''
                   else
                     andthen (whenK (i_type x = T_DIR)
                       (andthen (modify (upd_inode dp (\<lambda>y. y\<lparr>i_nlink := i_nlink y - 1\<rparr>))) (iupdate dp)))
                    (andthen (iunlockput dp)
                    (andthen (modify (upd_inode ip (\<lambda>y. y\<lparr>i_nlink := i_nlink y - 1\<rparr>)))
                    (andthen (iupdate ip)
                    (andthen (iunlockput ip)
                    (andthen end_op (ret 0)))))))))))))))"

definition create :: "byte list \<Rightarrow> short \<Rightarrow> short \<Rightarrow> short \<Rightarrow> ('a fs_st_scheme, nat option) kop" where
  "create path type major minor =
     bind (nameiparent path) (\<lambda>(dpo, name).
     case dpo of None \<Rightarrow> ret None
     | Some dp \<Rightarrow>
         andthen (ilock (Some dp))
        (bind (dirlookup dp name) (\<lambda>r.
         case r of
           Some (ip, _) \<Rightarrow>
             andthen (iunlockput dp)
            (andthen (ilock (Some ip))
            (bind (gets (\<lambda>s. i_type (inodes s ! ip))) (\<lambda>t.
             if type = T_FILE \<and> t = T_FILE then ret (Some ip)
             else andthen (iunlockput ip) (ret None))))
         | None \<Rightarrow>
             bind (gets (\<lambda>s. i_dev (inodes s ! dp))) (\<lambda>dev.
             bind (ialloc dev type) (\<lambda>ip.
             andthen (ilock (Some ip))
            (andthen (modify (upd_inode ip (\<lambda>x. x\<lparr>i_major := major, i_minor := minor, i_nlink := 1\<rparr>)))
            (andthen (iupdate ip)
            (bind (gets (\<lambda>s. (i_inum (inodes s ! ip), i_inum (inodes s ! dp)))) (\<lambda>(inum, dinum).
             andthen (whenK (type = T_DIR)
               (andthen (modify (upd_inode dp (\<lambda>x. x\<lparr>i_nlink := i_nlink x + 1\<rparr>)))
               (andthen (iupdate dp)
               (bind (dirlink ip (lit ''.'') inum) (\<lambda>r1.
                if r1 < 0 then panic ''create dots''
                else bind (dirlink ip (lit ''..'') dinum) (\<lambda>r2.
                  if r2 < 0 then panic ''create dots'' else skip))))))
            (bind (dirlink dp name inum) (\<lambda>r.
             if r < 0 then panic ''create: dirlink''
             else andthen (iunlockput dp) (ret (Some ip)))))))))))))"

section \<open>Opening\<close>

definition O_RDONLY :: uint where "O_RDONLY = 0x000"
definition O_WRONLY :: uint where "O_WRONLY = 0x001"
definition O_RDWR :: uint where "O_RDWR = 0x002"
definition O_CREATE :: uint where "O_CREATE = 0x200"

text \<open>The inode to open, locked, or \<open>None\<close> where the call ends the transaction and returns -1.\<close>

definition open_inode :: "byte list \<Rightarrow> uint \<Rightarrow> ('a fs_st_scheme, nat option) kop" where
  "open_inode path omode =
     (if omode AND O_CREATE \<noteq> 0 then create path T_FILE 0 0
      else
        bind (namei path) (\<lambda>r.
        case r of None \<Rightarrow> ret None
        | Some ip \<Rightarrow>
            andthen (ilock (Some ip))
           (bind (gets (\<lambda>s. i_type (inodes s ! ip))) (\<lambda>t.
            if t = T_DIR \<and> omode \<noteq> O_RDONLY then andthen (iunlockput ip) (ret None) else ret (Some ip)))))"

definition sys_open :: "('a vm_st_scheme, ulong) kop" where
  "sys_open =
     orfail (argstr 0) (\<lambda>path.
     orfail (argint 1) (\<lambda>m.
     let omode = of_int m :: uint in
     andthen begin_op
    (bind (open_inode path omode) (\<lambda>r.
     case r of None \<Rightarrow> andthen end_op (ret (- 1))
     | Some ip \<Rightarrow>
         bind filealloc (\<lambda>fo.
         bind (case fo of None \<Rightarrow> ret None | Some f \<Rightarrow> fdalloc f) (\<lambda>fdo.
         case fo of
           None \<Rightarrow> andthen (iunlockput ip) (andthen end_op (ret (- 1)))
         | Some f \<Rightarrow>
             (case fdo of
                None \<Rightarrow> andthen (fileclose f) (andthen (iunlockput ip) (andthen end_op (ret (- 1))))
              | Some fd \<Rightarrow>
                  andthen (iunlock (Some ip))
                 (andthen end_op
                 (andthen (modify (upd_file f (\<lambda>x. x\<lparr>f_type := FD_INODE, f_ip := Some ip, f_off := 0,
                     f_readable := omode AND O_WRONLY = 0, f_writable := omode AND O_WRONLY \<noteq> 0 \<or> omode AND O_RDWR \<noteq> 0\<rparr>)))
                    (ret (of_nat fd))))))))))) "

definition sys_mkdir :: "('a vm_st_scheme, ulong) kop" where
  "sys_mkdir =
     andthen begin_op
    (bind (argstr 0) (\<lambda>po.
     bind (case po of None \<Rightarrow> ret None | Some path \<Rightarrow> create path T_DIR 0 0) (\<lambda>r.
     case r of None \<Rightarrow> andthen end_op (ret (- 1))
     | Some ip \<Rightarrow> andthen (iunlockput ip) (andthen end_op (ret 0)))))"

definition sys_mknod :: "('a vm_st_scheme, ulong) kop" where
  "sys_mknod =
     andthen begin_op
    (bind (argstr 0) (\<lambda>po.
     bind (case po of None \<Rightarrow> ret None
       | Some path \<Rightarrow>
           bind (argint 1) (\<lambda>ma. case ma of None \<Rightarrow> ret None
           | Some major \<Rightarrow>
               bind (argint 2) (\<lambda>mi. case mi of None \<Rightarrow> ret None
               | Some minor \<Rightarrow> create path T_DEV (of_int major) (of_int minor)))) (\<lambda>r.
     case r of None \<Rightarrow> andthen end_op (ret (- 1))
     | Some ip \<Rightarrow> andthen (iunlockput ip) (andthen end_op (ret 0)))))"

definition sys_chdir :: "('a vm_st_scheme, ulong) kop" where
  "sys_chdir =
     bind curproc (\<lambda>c.
     andthen begin_op
    (bind (argstr 0) (\<lambda>po.
     bind (case po of None \<Rightarrow> ret None | Some path \<Rightarrow> namei path) (\<lambda>r.
     case r of None \<Rightarrow> andthen end_op (ret (- 1))
     | Some ip \<Rightarrow>
         andthen (ilock (Some ip))
        (bind (gets (\<lambda>s. i_type (inodes s ! ip))) (\<lambda>t.
         if t \<noteq> T_DIR then andthen (iunlockput ip) (andthen end_op (ret (- 1)))
         else
           andthen (iunlock (Some ip))
          (bind (gets (\<lambda>s. p_cwd (procs s ! c))) (\<lambda>cwd.
           andthen (case cwd of None \<Rightarrow> fail Fault | Some d \<Rightarrow> iput d)
          (andthen end_op
          (andthen (modify (upd_proc c (\<lambda>x. x\<lparr>p_cwd := Some ip\<rparr>))) (ret 0)))))))))))"

section \<open>Programs and pipes\<close>

text \<open>The arguments at \<^verbatim>\<open>uargv\<close>; \<open>k\<close> is how many more \<^verbatim>\<open>argv\<close> has room for.\<close>

fun sys_exec_args :: "nat \<Rightarrow> ulong \<Rightarrow> ('a vm_st_scheme, byte list list option) kop" where
  "sys_exec_args 0 uargv = ret None"
| "sys_exec_args (Suc k) uargv =
     bind (fetchlong uargv) (\<lambda>r.
     case r of None \<Rightarrow> ret None
     | Some uarg \<Rightarrow>
         if uarg = 0 then ret (Some [])
         else bind (fetchstr uarg) (\<lambda>so.
           case so of None \<Rightarrow> ret None
           | Some str \<Rightarrow> bind (sys_exec_args k (uargv + 8)) (\<lambda>rest. ret (map_option (\<lambda>l. str # l) rest))))"

definition sys_exec :: "('a vm_st_scheme, ulong) kop" where
  "sys_exec =
     orfail (argstr 0) (\<lambda>path.
     orfail (arglong 1) (\<lambda>uargv.
     orfail (sys_exec_args MAXARG uargv) (\<lambda>argv.
     bind (exec path argv) (\<lambda>r. ret (of_int r)))))"

definition sys_pipe_bad :: "nat option \<Rightarrow> nat \<Rightarrow> nat \<Rightarrow> ('a vm_st_scheme, ulong) kop" where
  "sys_pipe_bad fd0 rfd wfd =
     andthen (case fd0 of None \<Rightarrow> skip
       | Some fd \<Rightarrow> bind curproc (\<lambda>c. modify (upd_proc c (\<lambda>x. x\<lparr>p_ofile := (p_ofile x)[fd := None]\<rparr>))))
    (andthen (fileclose rfd)
    (andthen (fileclose wfd) (ret (- 1))))"

definition sys_pipe :: "('a vm_st_scheme, ulong) kop" where
  "sys_pipe =
     orfail (argptr 0 8) (\<lambda>fd.
     orfail pipealloc (\<lambda>(rfd, wfd).
     bind (fdalloc rfd) (\<lambda>r0.
     case r0 of None \<Rightarrow> sys_pipe_bad None rfd wfd
     | Some fd0 \<Rightarrow>
         bind (fdalloc wfd) (\<lambda>r1.
         case r1 of None \<Rightarrow> sys_pipe_bad (Some fd0) rfd wfd
         | Some fd1 \<Rightarrow>
             andthen (st_users fd (le_bytes 4 (of_nat fd0 :: uint)))
            (andthen (st_users (fd + 4) (le_bytes 4 (of_nat fd1 :: uint))) (ret 0))))))"

section \<open>The dispatcher\<close>

text \<open>The table \<^verbatim>\<open>syscalls\<close>.\<close>

definition syscalls :: "ulong \<Rightarrow> ulong \<Rightarrow> nat \<Rightarrow> ('a vm_st_scheme, ulong) kop option" where
  "syscalls trapret forkret_addr num =
     (if num = 1 then Some (sys_fork trapret forkret_addr) else if num = 2 then Some sys_exit
      else if num = 3 then Some sys_wait else if num = 4 then Some sys_pipe
      else if num = 5 then Some sys_read else if num = 6 then Some sys_kill
      else if num = 7 then Some sys_exec else if num = 8 then Some sys_fstat
      else if num = 9 then Some sys_chdir else if num = 10 then Some sys_dup
      else if num = 11 then Some sys_getpid else if num = 12 then Some sys_sbrk
      else if num = 13 then Some sys_sleep else if num = 14 then Some sys_uptime
      else if num = 15 then Some sys_open else if num = 16 then Some sys_write
      else if num = 17 then Some sys_mknod else if num = 18 then Some sys_unlink
      else if num = 19 then Some sys_link else if num = 20 then Some sys_mkdir
      else if num = 21 then Some sys_close else None)"

definition set_rax :: "nat \<Rightarrow> ulong \<Rightarrow> ('a proc_st_scheme, unit) kop" where
  "set_rax c v = modify (upd_proc c (\<lambda>x. x\<lparr>p_tf := (p_tf x)\<lparr>tf_rax := v\<rparr>\<rparr>))"

definition syscall :: "ulong \<Rightarrow> ulong \<Rightarrow> ('a vm_st_scheme, unit) kop" where
  "syscall trapret forkret_addr =
     bind curproc (\<lambda>c.
     bind (gets (\<lambda>s. procs s ! c)) (\<lambda>p.
     let num = sint (ucast (tf_rax (p_tf p)) :: uint) in
     case (if num > 0 then syscalls trapret forkret_addr (nat num) else None) of
       Some f \<Rightarrow> bind f (set_rax c)
     | None \<Rightarrow>
         andthen (cprintf (lit ''%d %s: unknown sys call %d'' @ [10])
           [Va_int (of_int (p_pid p)), Va_str (name_str (p_name p)), Va_int (of_int num)])
          (set_rax c (- 1))))"

section \<open>Arguments stay within the process\<close>

lemma my_eq: "cur s = Some c \<Longrightarrow> my f s = Inr (f (procs s ! c), s)"
  by (simp add: my_def curproc_def myproc_def bind_def gets_def ret_def)

lemma ld_user_eq: "ld_user a s = (case user_byte s a of None \<Rightarrow> Inl Fault | Some b \<Rightarrow> Inr (b, s))"
  by (simp add: ld_user_def bind_def gets_def ret_def fail_def split: option.split)

text \<open>A pointer argument is accepted exactly when the block it points to lies within the process, with no
  wrap-around in the sum: the process has at most \<open>2 ^ 64 - 2 ^ 31\<close> bytes, as any below \<^verbatim>\<open>KERNBASE\<close> has.\<close>

lemma argptr_bounds:
  assumes "cur s = Some c" "p = procs s ! c" "unat (p_sz p) + 2 ^ 31 \<le> 2 ^ 64" "arglong n s = Inr (Some i, s)" "sz < 2 ^ 31"
  shows "argptr n sz s = Inr (if 0 \<le> sz \<and> unat i < unat (p_sz p) \<and> unat i + nat sz \<le> unat (p_sz p) then Some i else None, s)"
proof -
  have "i + of_int sz \<le> p_sz p \<longleftrightarrow> unat i + nat sz \<le> unat (p_sz p)" if "0 \<le> sz" "i < p_sz p"
  proof -
    obtain k where k: "sz = int k" "k < 2 ^ 31" using \<open>0 \<le> sz\<close> assms(5) by (metis nonneg_int_cases of_nat_less_iff of_nat_numeral of_nat_power)
    have lt: "unat i + k < 2 ^ 64" using assms(3) that(2) k(2) by (simp add: word_less_nat_alt)
    have "unat (of_nat k :: ulong) = k" using k(2) by (simp add: unat_of_nat)
    then have "unat (i + of_nat k) = unat i + k" using lt by (simp add: unat_add_no_wrap)
    then show ?thesis by (simp add: word_le_nat_alt k)
  qed
  then show ?thesis using assms(4) my_eq [OF assms(1), of p_sz] assms(2)
    by (auto simp: argptr_def bind_def ret_def word_less_nat_alt word_le_nat_alt not_less not_le)
qed

lemma fetchstr_loop_eq:
  assumes "fetchstr_loop a n s = Inr (r, t)"
  shows "t = s \<and> (case r of None \<Rightarrow> \<forall>k < n. user_byte s (a + of_nat k) \<notin> {None, Some 0}
     | Some bs \<Rightarrow> length bs < n \<and> 0 \<notin> set bs \<and> (\<forall>k \<le> length bs. user_byte s (a + of_nat k) = Some ((bs @ [0]) ! k)))"
  using assms
proof (induction n arbitrary: a r t)
  case 0
  then show ?case by (auto simp: ret_def)
next
  case (Suc n)
  obtain b where b: "user_byte s a = Some b" using Suc.prems by (auto simp: bind_def ld_user_eq split: option.splits)
  have step: "a + 1 + of_nat k = a + of_nat (Suc k)" for k by simp
  show ?case
  proof (cases "b = 0")
    case True
    then show ?thesis using Suc.prems b by (auto simp: bind_def ld_user_eq ret_def)
  next
    case False
    then obtain r' where r': "fetchstr_loop (a + 1) n s = Inr (r', t)" "r = map_option (\<lambda>bs. b # bs) r'"
      using Suc.prems b by (auto simp: bind_def ld_user_eq ret_def split: sum.splits prod.splits)
    note IH = Suc.IH [OF r'(1), unfolded step]
    show ?thesis
    proof (cases r')
      case None
      then have "user_byte s (a + of_nat k) \<notin> {None, Some 0}" if "k < Suc n" for k
        using IH b False that by (cases k) auto
      then show ?thesis using None IH r'(2) by simp
    next
      case (Some bs)
      then have "user_byte s (a + of_nat k) = Some (((b # bs) @ [0]) ! k)" if "k \<le> Suc (length bs)" for k
        using IH b that by (cases k) auto
      then show ?thesis using Some IH r'(2) False by simp
    qed
  qed
qed

lemma fetchstr_loop_returns:
  "(\<And>k. k < n \<Longrightarrow> user_byte s (a + of_nat k) \<noteq> None) \<Longrightarrow> \<exists>r. fetchstr_loop a n s = Inr (r, s)"
proof (induction n arbitrary: a)
  case (Suc n)
  obtain b where b: "user_byte s a = Some b" using Suc.prems [of 0] by auto
  obtain r where "fetchstr_loop (a + 1) n s = Inr (r, s)"
    using Suc.IH [of "a + 1"] Suc.prems [of "Suc _"] by (auto simp: add.assoc)
  then show ?case using b by (simp add: bind_def ld_user_eq ret_def)
qed (simp add: ret_def)

text \<open>C39: String arguments are read within the process. For a process whose memory is mapped \<^verbatim>\<open>fetchstr\<close> returns and changes
  nothing. A string that is accepted is the one the process sees at the address: its bytes and its NUL lie below the
  size of the process. One that is refused starts outside the process or has no NUL before its end.\<close>

theorem fetchstr_bounds:
  assumes "cur s = Some c" "p = procs s ! c" "\<forall>k. unat a + k < unat (p_sz p) \<longrightarrow> user_byte s (a + of_nat k) \<noteq> None"
  shows "\<exists>r. fetchstr a s = Inr (r, s) \<and> (case r of
     None \<Rightarrow> \<forall>k. unat a + k < unat (p_sz p) \<longrightarrow> user_byte s (a + of_nat k) \<noteq> Some 0
   | Some bs \<Rightarrow> unat a + length bs < unat (p_sz p) \<and> 0 \<notin> set bs \<and>
       (\<forall>k \<le> length bs. user_byte s (a + of_nat k) = Some ((bs @ [0]) ! k)))"
proof (cases "a < p_sz p")
  case False
  then show ?thesis using my_eq [OF assms(1), of p_sz] assms(2)
    by (auto simp: fetchstr_def bind_def ret_def word_less_nat_alt not_less word_le_nat_alt)
next
  case True
  have "user_byte s (a + of_nat k) \<noteq> None" if "k < unat (p_sz p) - unat a" for k
    using assms(3) that by (simp add: less_diff_conv add.commute)
  then obtain r where r: "fetchstr_loop a (unat (p_sz p) - unat a) s = Inr (r, s)" using fetchstr_loop_returns by blast
  moreover have "fetchstr a s = fetchstr_loop a (unat (p_sz p) - unat a) s"
    using True my_eq [OF assms(1), of p_sz] assms(2) by (simp add: fetchstr_def bind_def flip: not_less)
  ultimately show ?thesis using fetchstr_loop_eq [OF r]
    by (intro exI [of _ r]) (cases r; auto simp: less_diff_conv add.commute)
qed

text \<open>A process with one page, mapped at 0 through four tables, that starts with the string \<open>a\<close>.\<close>

definition user_demo_mem :: mem where
  "user_demo_mem = (store64 (store64 (store64 (store64 (\<lambda>_. 0) (KERNBASE + 0x1000) 0x2007) (KERNBASE + 0x2000) 0x3007)
     (KERNBASE + 0x3000) 0x4007) (KERNBASE + 0x4000) 0x5007) (KERNBASE + 0x5000 := 97)"

definition user_demo :: vm_st where
  "user_demo = (file_st.extend file_boot (vm_st.fields (KERNBASE + 0x1000) 0x1000 [] \<lparr>rsp0 = 0, iopb = 0\<rparr> 0 0))
     \<lparr>km_mem := user_demo_mem, procs := [proc_demo\<lparr>p_sz := 4096\<rparr>]\<rparr>"

lemma user_demo_simps:
  "cur user_demo = Some 0" "procs user_demo ! 0 = proc_demo\<lparr>p_sz := 4096\<rparr>" "km_mem user_demo = user_demo_mem" "cpu_cr3 user_demo = 0x1000"
  by (simp_all add: user_demo_def file_boot_def fs_boot_def vm_st.defs file_st.defs fs_st.defs con_st.defs)

lemma user_demo_tables:
  "load64 user_demo_mem 0xFFFF800000001000 = 0x2007" "load64 user_demo_mem 0xFFFF800000002000 = 0x3007"
  "load64 user_demo_mem 0xFFFF800000003000 = 0x4007" "load64 user_demo_mem 0xFFFF800000004000 = 0x5007"
proof -
  have other: "load64 (store64 m t v) p = load64 m p" if "PGALIGNED p" "PGALIGNED t" "p \<noteq> t" for m t v p
    using load64_page_entry [OF that, of 0] by simp
  have byte: "load64 (m(0xFFFF800000005000 := v)) p = load64 m p" if "PGALIGNED p" "p \<noteq> 0xFFFF800000005000" for m v p
  proof (rule load64_cong)
    fix x assume "in_region p 8 x"
    then have "x \<noteq> 0xFFFF800000005000"
      using pages_disjoint [OF that(1), of "0xFFFF800000005000" x] page_prefix that(2) by (auto simp: PGALIGNED_def PGSIZE_def in_region_def)
    then show "(m(0xFFFF800000005000 := v)) x = m x" by simp
  qed
  show "load64 user_demo_mem 0xFFFF800000001000 = 0x2007" "load64 user_demo_mem 0xFFFF800000002000 = 0x3007"
    "load64 user_demo_mem 0xFFFF800000003000 = 0x4007" "load64 user_demo_mem 0xFFFF800000004000 = 0x5007"
    by (simp_all add: user_demo_mem_def KERNBASE_def byte other PGALIGNED_def PGSIZE_def)
qed

lemma user_demo_byte: "k < 4096 \<Longrightarrow> user_byte user_demo (of_nat k) = Some (user_demo_mem (0xFFFF800000005000 + of_nat k))"
proof -
  assume k: "k < 4096"
  then have lt: "unat (of_nat k :: ulong) = k" by (simp add: unat_of_nat)
  have hi: "drop_bit n (of_nat k :: ulong) = 0" if "12 \<le> n" for n
  proof -
    have "(4096 :: nat) \<le> 2 ^ n" using power_increasing [OF that, of "2 :: nat"] by simp
    then have "unat (drop_bit n (of_nat k :: ulong)) = 0" 
      using k take_bit_nat_eq_self [of k 64] unfolding unsigned_drop_bit_eq unfolding lt by (simp add: drop_bit_eq_div)
    then show ?thesis by (simp add: unat_eq_0)
  qed
  have m: "mmu user_demo_mem (P2V 0x1000) (of_nat k) = Some 0x5007"
    by (simp add: mmu_def va_path_def PML1X_def PML2X_def PML3X_def PML4X_def P2V_def KERNBASE_def PTE_P_def PTE_ADDR_def user_demo_tables hi)
  have "unat (take_bit 12 (of_nat k :: ulong)) = k" using k unfolding unsigned_take_bit_eq lt by (simp add: take_bit_nat_eq_self)
  then have "take_bit 12 (of_nat k :: ulong) = of_nat k" by (simp only: word_unat_eq_iff lt)
  moreover have "(0xFFF :: ulong) = mask 12" by (simp add: mask_eq_exp_minus_1)
  ultimately have "(of_nat k :: ulong) AND 0xFFF = of_nat k" by (simp only: take_bit_eq_mask)
  then show ?thesis
    by (simp add: user_byte_def user_demo_simps mmu_addr_def m) (simp add: P2V_def PTE_ADDR_def KERNBASE_def)
qed

lemma user_demo_bytes: "user_byte user_demo 0 = Some 97" "user_byte user_demo 1 = Some 0"
proof -
  have "user_demo_mem 0xFFFF800000005000 = 97" "user_demo_mem 0xFFFF800000005001 = 0"
    by (simp_all add: user_demo_mem_def store64_def in_region_def KERNBASE_def)
  then show "user_byte user_demo 0 = Some 97" "user_byte user_demo 1 = Some 0"
    using user_demo_byte [of 0] user_demo_byte [of 1] by simp_all
qed

theorem fetchstr_bounds_witness:
  "\<exists>bs. fetchstr 0 user_demo = Inr (Some bs, user_demo) \<and> length bs < 4096 \<and> user_byte user_demo (of_nat (length bs)) = Some 0"
proof -
  have "\<forall>k. unat (0 :: ulong) + k < unat (p_sz (procs user_demo ! 0)) \<longrightarrow> user_byte user_demo (0 + of_nat k) \<noteq> None"
    using user_demo_byte by (simp add: user_demo_simps(2))
  from fetchstr_bounds [OF user_demo_simps(1) refl this] obtain r where r: "fetchstr 0 user_demo = Inr (r, user_demo)"
    "case r of None \<Rightarrow> \<forall>k. k < 4096 \<longrightarrow> user_byte user_demo (of_nat k) \<noteq> Some 0
     | Some bs \<Rightarrow> length bs < 4096 \<and> 0 \<notin> set bs \<and> (\<forall>k \<le> length bs. user_byte user_demo (of_nat k) = Some ((bs @ [0]) ! k))"
    by (auto simp: user_demo_simps(2) split: option.splits)
  have "user_byte user_demo (of_nat (Suc 0)) = Some 0" "Suc 0 < 4096" using user_demo_bytes(2) by simp_all
  moreover have "r = None \<Longrightarrow> \<forall>k < 4096. user_byte user_demo (of_nat k) \<noteq> Some 0" using r(2) by simp
  ultimately have "r \<noteq> None" by blast
  then show ?thesis using r by (auto simp: nth_append)
qed

end
