(* ===== verification/Kbd.thy ===== *)
theory Kbd
  imports Console
begin

text \<open>
  \<^verbatim>\<open>kernel/kbd.c\<close>: the translation of keyboard scan codes to characters, with the state of the modifier keys, and the
  interrupt handlers of the keyboard and of the serial port (\<^verbatim>\<open>kernel/uart.c\<close>), which feed the console. What the
  ports deliver is the argument of the handlers.
\<close>

section \<open>Key maps\<close>

definition SHIFT :: uint where "SHIFT = 1"
definition CTL :: uint where "CTL = 2"
definition ALT :: uint where "ALT = 4"
definition CAPSLOCK :: uint where "CAPSLOCK = 8"
definition NUMLOCK :: uint where "NUMLOCK = 16"
definition SCROLLLOCK :: uint where "SCROLLLOCK = 32"
definition E0ESC :: uint where "E0ESC = 64"

definition shiftcode :: "nat \<Rightarrow> uint" where
  "shiftcode d = (if d = 0x1D then CTL else if d = 0x2A then SHIFT else if d = 0x36 then SHIFT
     else if d = 0x38 then ALT else if d = 0x9D then CTL else if d = 0xB8 then ALT else 0)"

definition togglecode :: "nat \<Rightarrow> uint" where
  "togglecode d = (if d = 0x3A then CAPSLOCK else if d = 0x45 then NUMLOCK else if d = 0x46 then SCROLLLOCK else 0)"

text \<open>The named entries that the three maps share from \<open>0x97\<close> on.\<close>

definition keypad :: "nat \<Rightarrow> uint" where
  "keypad d = (if d = 0xC8 then 0xE2 else if d = 0xD0 then 0xE3 else if d = 0xC9 then 0xE6 else if d = 0xD1 then 0xE7
     else if d = 0xCB then 0xE4 else if d = 0xCD then 0xE5 else if d = 0x97 then 0xE0 else if d = 0xCF then 0xE1
     else if d = 0xD2 then 0xE8 else if d = 0xD3 then 0xE9 else 0)"

definition table :: "byte list \<Rightarrow> nat \<Rightarrow> uint" where
  "table xs d = (if d < length xs then ucast (xs ! d) else 0)"

definition normalmap :: "nat \<Rightarrow> uint" where
  "normalmap d =
     (if d = 0x9C then 10 else if d = 0xB5 then 47 else if 0x97 \<le> d then keypad d
      else table ([0, 0x1B] @ lit ''1234567890-='' @ [8, 9] @ lit ''qwertyuiop[]'' @ [10, 0] @ lit ''asdfghjkl;'' @ [39, 96, 0, 92]
        @ lit ''zxcvbnm,./'' @ [0, 42, 0, 32] @ replicate 13 0 @ lit ''789-456+1230.'') d)"

definition shiftmap :: "nat \<Rightarrow> uint" where
  "shiftmap d =
     (if d = 0x9C then 10 else if d = 0xB5 then 47 else if 0x97 \<le> d then keypad d
      else table ([0, 27] @ lit ''!@#$%^&*()_+'' @ [8, 9] @ lit ''QWERTYUIOP{}'' @ [10, 0] @ lit ''ASDFGHJKL:'' @ [34, 126, 0, 124]
        @ lit ''ZXCVBNM<>?'' @ [0, 42, 0, 32] @ replicate 13 0 @ lit ''789-456+1230.'') d)"

definition ctls :: "string \<Rightarrow> byte list" where
  "ctls s = map (\<lambda>c. of_int (C_key c)) s"

definition ctlmap :: "nat \<Rightarrow> uint" where
  "ctlmap d =
     (if d = 0x9C then 13 else if d = 0xB5 then ucast (of_int (C_key CHR ''/'') :: byte) else if 0x97 \<le> d then keypad d
      else table (replicate 16 0 @ ctls ''QWERTYUIOP'' @ [0, 0, 13, 0] @ ctls ''ASDFGHJKL'' @ [0, 0, 0, 0, of_int (C_key (CHR 0x5C))]
        @ ctls ''ZXCVBNM'' @ [0, 0, of_int (C_key CHR ''/'')]) d)"

section \<open>Operations\<close>

definition charcode :: "uint \<Rightarrow> nat \<Rightarrow> uint" where
  "charcode m = (if m = 0 then normalmap else if m = 1 then shiftmap else ctlmap)"

definition caps :: "uint \<Rightarrow> uint" where
  "caps c = (if 97 \<le> c \<and> c \<le> 122 then c - 32 else if 65 \<le> c \<and> c \<le> 90 then c + 32 else c)"

text \<open>\<^verbatim>\<open>kbdgetc\<close> on a byte from the data port: the character and the new value of \<^verbatim>\<open>shift\<close>.\<close>

definition kbdgetc :: "uint \<Rightarrow> byte \<Rightarrow> uint \<times> uint" where
  "kbdgetc shift inp =
     (let data = ucast inp :: uint in
      if data = 0xE0 then (0, shift OR E0ESC)
      else if data AND 0x80 \<noteq> 0 then
        let d = (if shift AND E0ESC \<noteq> 0 then data else data AND 0x7F)
        in (0, shift AND NOT (shiftcode (unat d) OR E0ESC))
      else
        let esc = (shift AND E0ESC \<noteq> 0);
            d = (if esc then data OR 0x80 else data);
            sh = (if esc then shift AND NOT E0ESC else shift);
            sh1 = sh OR shiftcode (unat d);
            sh2 = sh1 XOR togglecode (unat d);
            c = charcode (sh2 AND (CTL OR SHIFT)) (unat d)
        in (if sh2 AND CAPSLOCK \<noteq> 0 then caps c else c, sh2))"

text \<open>The bytes waiting in the controller, until its status says there are none.\<close>

fun kbd_chars :: "uint \<Rightarrow> byte list \<Rightarrow> int list \<times> uint" where
  "kbd_chars shift [] = ([], shift)"
| "kbd_chars shift (b # bs) =
     (let (c, sh) = kbdgetc shift b; (cs, sh') = kbd_chars sh bs in (Word.uint c # cs, sh'))"

definition kbdintr :: "ulong \<Rightarrow> uint \<Rightarrow> byte list \<Rightarrow> ('a con_st_scheme, uint) kop" where
  "kbdintr rbp shift bs =
     andthen (consoleintr rbp (fst (kbd_chars shift bs))) (ret (snd (kbd_chars shift bs)))"

text \<open>The serial port delivers its bytes as they are; without a port there are none.\<close>

definition uartintr :: "ulong \<Rightarrow> bool \<Rightarrow> byte list \<Rightarrow> ('a con_st_scheme, unit) kop" where
  "uartintr rbp uart bs = consoleintr rbp (if uart then map Word.uint bs else [])"

end
