(* ===== verification/Trap.thy ===== *)
theory Trap
  imports Syscall Kbd
begin

text \<open>
  \<^verbatim>\<open>kernel/trap.c\<close>: the common handler of interrupts, exceptions and system calls. What the hardware supplies is an
  argument: the number of the CPU, the faulting address in \<^verbatim>\<open>cr2\<close> and the bytes the keyboard or the serial port have
  ready. The end-of-interrupt write to the local APIC has no effect on the state of the model. The kernel is linked
  with \<^verbatim>\<open>memide.c\<close>, whose \<^verbatim>\<open>ideintr\<close> does nothing.
\<close>

section \<open>State\<close>

record trap_st = krn_st +
  idt :: "gatedesc list"
  kbd_shift :: uint
  uart :: bool

definition tvinit :: "ulong list \<Rightarrow> ('a trap_st_scheme, unit) kop" where
  "tvinit vectors = andthen (modify (\<lambda>s. s\<lparr>idt := tvinit_idt vectors (idt s)\<rparr>)) (initlock ''time'')"

definition mem_ideintr :: "('a trap_st_scheme, unit) kop" where
  "mem_ideintr = skip"

section \<open>The handler\<close>

text \<open>\<^verbatim>\<open>if (myproc() && myproc()->killed ...) exit()\<close>\<close>

definition exit_if_killed :: "bool \<Rightarrow> ('a trap_st_scheme, unit) kop" where
  "exit_if_killed user =
     bind myproc (\<lambda>pp.
     case pp of None \<Rightarrow> skip
     | Some p \<Rightarrow> bind (gets (\<lambda>s. p_killed (procs s ! p))) (\<lambda>k. whenK (k \<and> user) exit))"

definition trap_syscall :: "ulong \<Rightarrow> ulong \<Rightarrow> trapframe \<Rightarrow> ('a trap_st_scheme, unit) kop" where
  "trap_syscall trapret forkret_addr tf =
     bind curproc (\<lambda>p.
     bind (gets (\<lambda>s. p_killed (procs s ! p))) (\<lambda>k.
     andthen (whenK k exit)
    (andthen (modify (upd_proc p (\<lambda>x. x\<lparr>p_tf := tf\<rparr>)))
    (andthen (syscall trapret forkret_addr)
    (bind (gets (\<lambda>s. p_killed (procs s ! p))) (\<lambda>k'. whenK k' exit))))))"

definition trap_timer :: "nat \<Rightarrow> ('a trap_st_scheme, unit) kop" where
  "trap_timer cpu =
     whenK (cpu = 0)
       (andthen (acquire ''time'')
       (andthen (modify (\<lambda>s. s\<lparr>ticks := ticks s + 1\<rparr>))
       (andthen (wakeup Ch_ticks) (release ''time''))))"

definition trap_kbd :: "byte list \<Rightarrow> trapframe \<Rightarrow> ('a trap_st_scheme, unit) kop" where
  "trap_kbd bs tf =
     bind (gets kbd_shift) (\<lambda>sh.
     bind (kbdintr (tf_rbp tf) sh bs) (\<lambda>sh'. modify (\<lambda>s. s\<lparr>kbd_shift := sh'\<rparr>)))"

text \<open>An exception: the kernel's own is fatal, a process is killed for its.\<close>

definition trap_default :: "nat \<Rightarrow> ulong \<Rightarrow> trapframe \<Rightarrow> ('a trap_st_scheme, unit) kop" where
  "trap_default cpu cr2 tf =
     bind myproc (\<lambda>pp.
     case pp of
       Some p \<Rightarrow>
         if tf_cs tf AND 3 = 0 then
           andthen (cprintf (lit ''unexpected trap %d from cpu %d rip %x (cr2=0x%x)'' @ [10])
               [Va_int (tf_trapno tf), Va_int (of_nat cpu), Va_long (tf_rbp tf), Va_long cr2])
             (panic ''trap'')
         else
           bind (gets (\<lambda>s. procs s ! p)) (\<lambda>q.
           andthen (cprintf (lit ''pid %d %s: trap %d err %d on cpu %d rip 0x%x addr 0x%x--kill proc'' @ [10])
               [Va_int (of_int (p_pid q)), Va_str (p_name q), Va_int (tf_trapno tf), Va_long (tf_err tf), Va_int (of_nat cpu),
                Va_long (tf_rip tf), Va_long cr2])
             (modify (upd_proc p (\<lambda>x. x\<lparr>p_killed := True\<rparr>))))
     | None \<Rightarrow>
         andthen (cprintf (lit ''unexpected trap %d from cpu %d rip %x (cr2=0x%x)'' @ [10])
             [Va_int (tf_trapno tf), Va_int (of_nat cpu), Va_long (tf_rbp tf), Va_long cr2])
           (panic ''trap''))"

definition trap_irq :: "nat \<Rightarrow> ulong \<Rightarrow> byte list \<Rightarrow> trapframe \<Rightarrow> ('a trap_st_scheme, unit) kop" where
  "trap_irq cpu cr2 bs tf =
     (let no = unat (tf_trapno tf) in
      if no = T_IRQ0 + IRQ_TIMER then trap_timer cpu
      else if no = T_IRQ0 + IRQ_IDE then mem_ideintr
      else if no = T_IRQ0 + IRQ_IDE + 1 then skip
      else if no = T_IRQ0 + IRQ_KBD then trap_kbd bs tf
      else if no = T_IRQ0 + IRQ_COM1 then bind (gets uart) (\<lambda>u. uartintr (tf_rbp tf) u bs)
      else if no = T_IRQ0 + 7 \<or> no = T_IRQ0 + IRQ_SPURIOUS then
        cprintf (lit ''cpu%d: spurious interrupt at %x:%x'' @ [10]) [Va_int (of_nat cpu), Va_int (ucast (tf_cs tf)), Va_long (tf_rip tf)]
      else trap_default cpu cr2 tf)"

definition trap_yield :: "trapframe \<Rightarrow> ('a trap_st_scheme, unit) kop" where
  "trap_yield tf =
     bind myproc (\<lambda>pp.
     case pp of None \<Rightarrow> skip
     | Some p \<Rightarrow>
         bind (gets (\<lambda>s. p_state (procs s ! p))) (\<lambda>st.
         whenK (st = RUNNING \<and> unat (tf_trapno tf) = T_IRQ0 + IRQ_TIMER) yield))"

definition trap :: "ulong \<Rightarrow> ulong \<Rightarrow> nat \<Rightarrow> ulong \<Rightarrow> byte list \<Rightarrow> trapframe \<Rightarrow> ('a trap_st_scheme, unit) kop" where
  "trap trapret forkret_addr cpu cr2 bs tf =
     (if unat (tf_trapno tf) = T_SYSCALL then trap_syscall trapret forkret_addr tf
      else
        andthen (trap_irq cpu cr2 bs tf)
       (andthen (exit_if_killed (tf_cs tf AND 3 = of_nat DPL_USER))
       (andthen (trap_yield tf)
          (exit_if_killed (tf_cs tf AND 3 = of_nat DPL_USER)))))"

end
