(* ===== verification/Ulib.thy ===== *)
theory Ulib
  imports Sprintf
begin

text \<open>
  The user library: \<^verbatim>\<open>user/ulib/ulib.c\<close> and \<^verbatim>\<open>user/ulib/printf.c\<close>. A C string is the list of its characters before the
  NUL; a pointer into a string is the rest of the string from there. What the library reads and writes through file
  descriptors is a list of bytes.
\<close>

section \<open>Strings\<close>

text \<open>What \<^verbatim>\<open>strcpy\<close> stores at its destination.\<close>

fun u_strcpy :: "byte list \<Rightarrow> byte list" where
  "u_strcpy [] = [0]"
| "u_strcpy (c # t) = c # u_strcpy t"

fun u_strcmp :: "byte list \<Rightarrow> byte list \<Rightarrow> int" where
  "u_strcmp (x # p) (y # q) = (if x = y then u_strcmp p q else Word.uint x - Word.uint y)"
| "u_strcmp (x # p) [] = Word.uint x"
| "u_strcmp [] (y # q) = - Word.uint y"
| "u_strcmp [] [] = 0"

fun u_strlen :: "byte list \<Rightarrow> uint" where
  "u_strlen [] = 0"
| "u_strlen (c # s) = u_strlen s + 1"

definition u_memset :: "mem \<Rightarrow> ulong \<Rightarrow> byte \<Rightarrow> uint \<Rightarrow> mem" where
  "u_memset m dst c n = stosb m dst c (unat n)"

text \<open>\<^verbatim>\<open>strchr\<close> returns a pointer to the first \<^verbatim>\<open>c\<close>; it never finds the NUL itself.\<close>

fun u_strchr :: "byte list \<Rightarrow> byte \<Rightarrow> byte list option" where
  "u_strchr [] c = None"
| "u_strchr (x # s) c = (if x = c then Some (x # s) else u_strchr s c)"

text \<open>\<^verbatim>\<open>gets\<close> reads byte by byte from \<open>inp\<close>, what standard input still holds; \<open>room\<close> is \<^verbatim>\<open>max - 1 - i\<close>. The result is what
  it stores and what is left of the input.\<close>

fun u_gets_loop :: "nat \<Rightarrow> byte list \<Rightarrow> byte list \<times> byte list" where
  "u_gets_loop 0 inp = ([], inp)"
| "u_gets_loop (Suc room) [] = ([], [])"
| "u_gets_loop (Suc room) (c # inp) =
     (if c = 10 \<or> c = 13 then ([c], inp) else let (b, r) = u_gets_loop room inp in (c # b, r))"

definition u_gets :: "int \<Rightarrow> byte list \<Rightarrow> byte list \<times> byte list" where
  "u_gets mx inp = (let (b, r) = u_gets_loop (nat (mx - 1)) inp in (b @ [0], r))"

fun u_atoi_loop :: "uint \<Rightarrow> byte list \<Rightarrow> uint" where
  "u_atoi_loop n [] = n"
| "u_atoi_loop n (c # s) = (if 48 \<le> c \<and> c \<le> 57 then u_atoi_loop (n * 10 + ucast c - 48) s else n)"

definition u_atoi :: "byte list \<Rightarrow> uint" where
  "u_atoi s = u_atoi_loop 0 s"

definition u_memmove :: "mem \<Rightarrow> ulong \<Rightarrow> ulong \<Rightarrow> int \<Rightarrow> mem" where
  "u_memmove m dst src n = copy_fwd m dst src (nat n)"

section \<open>Formatted output\<close>

text \<open>The characters \<^verbatim>\<open>printint\<close> leaves in its buffer, the last digit first.\<close>

definition u_digit :: "uint \<Rightarrow> byte" where
  "u_digit d = lit ''0123456789ABCDEF'' ! unat d"

function u_digits :: "uint \<Rightarrow> uint \<Rightarrow> byte list" where
  "u_digits base x = (if base < 2 then [] else u_digit (x mod base) # (if x div base = 0 then [] else u_digits base (x div base)))"
  by auto
termination
proof (relation "measure (\<lambda>(_, x). unat x)")
  fix base x :: uint
  assume "\<not> base < 2" "x div base \<noteq> 0"
  then have "2 \<le> unat base" "0 < unat (x div base)" by (simp_all add: word_less_nat_alt unat_gt_0)
  then have "unat x div unat base < unat x" by (simp add: unat_div_distrib) (metis One_nat_def Suc_1 div_less_dividend div_0 gr0I Suc_le_lessD)
  then show "((base, x div base), base, x) \<in> measure (\<lambda>(_, x). unat x)" by (simp add: unat_div_distrib)
qed simp

declare u_digits.simps [simp del]

definition u_printint :: "uint \<Rightarrow> uint \<Rightarrow> bool \<Rightarrow> byte list" where
  "u_printint xx base sg =
     (let neg = sg \<and> sint xx < 0; x = (if neg then - xx else xx)
      in rev (u_digits base x @ (if neg then [45] else [])))"

text \<open>\<^verbatim>\<open>printf\<close>; the flag is \<^verbatim>\<open>state == '%'\<close>. A missing or mismatched argument is undefined behaviour, \<open>None\<close>.\<close>

fun u_printf_loop :: "bool \<Rightarrow> byte list \<Rightarrow> vararg list \<Rightarrow> byte list option" where
  "u_printf_loop pct [] ap = Some []"
| "u_printf_loop False (c # fmt) ap =
     (if c = 37 then u_printf_loop True fmt ap else map_option ((#) c) (u_printf_loop False fmt ap))"
| "u_printf_loop True (c # fmt) ap =
     (if c = 100 then (case ap of Va_int v # as \<Rightarrow> map_option ((@) (u_printint v 10 True)) (u_printf_loop False fmt as) | _ \<Rightarrow> None)
      else if c = 120 \<or> c = 112 then (case ap of Va_int v # as \<Rightarrow> map_option ((@) (u_printint v 16 False)) (u_printf_loop False fmt as) | _ \<Rightarrow> None)
      else if c = 115 then (case ap of Va_str s # as \<Rightarrow> map_option ((@) s) (u_printf_loop False fmt as) | _ \<Rightarrow> None)
      else if c = 99 then (case ap of Va_int v # as \<Rightarrow> map_option ((#) (ucast v)) (u_printf_loop False fmt as) | _ \<Rightarrow> None)
      else if c = 37 then map_option ((#) c) (u_printf_loop False fmt ap)
      else map_option (\<lambda>o'. 37 # c # o') (u_printf_loop False fmt ap))"

definition u_printf :: "byte list \<Rightarrow> vararg list \<Rightarrow> byte list option" where
  "u_printf fmt ap = u_printf_loop False fmt ap"

section \<open>Reading back what was printed\<close>

text \<open>The number the digits of a base denote, the last digit first.\<close>

fun digits_val :: "nat \<Rightarrow> byte list \<Rightarrow> nat" where
  "digits_val b [] = 0"
| "digits_val b (c # ds) = unat c - 48 + b * digits_val b ds"

lemma u_digit_decimal: "d < 10 \<Longrightarrow> unat (u_digit d) = 48 + unat d"
proof -
  assume d: "d < 10"
  define n where "n = unat d"
  have "n < 10" using d by (simp add: n_def word_less_nat_alt)
  then have "n = 0 \<or> n = 1 \<or> n = 2 \<or> n = 3 \<or> n = 4 \<or> n = 5 \<or> n = 6 \<or> n = 7 \<or> n = 8 \<or> n = 9" by arith
  then show ?thesis unfolding u_digit_def n_def [symmetric] by (elim disjE; simp add: lit_def)
qed

lemma u_digits_decimal: "digits_val 10 (u_digits 10 x) = unat x \<and> (\<forall>c \<in> set (u_digits 10 x). 48 \<le> unat c \<and> unat c \<le> 57)"
proof (induction "10 :: uint" x rule: u_digits.induct)
  case (1 x)
  have m: "unat (x mod 10) = unat x mod 10" "unat (x div 10) = unat x div 10" by (simp_all add: unat_mod_distrib unat_div_distrib)
  then have lt: "x mod 10 < 10" by (simp add: word_less_nat_alt)
  then have d: "unat (u_digit (x mod 10)) = 48 + unat x mod 10" using u_digit_decimal m by simp
  have "unat x mod 10 \<le> 9" by simp
  show ?case
  proof (cases "x div 10 = 0")
    case True
    then have "unat x div 10 = 0" using m(2) by simp
    then have "unat x mod 10 = unat x" by simp
    then show ?thesis using d True \<open>unat x mod 10 \<le> 9\<close> by (subst (1 2) u_digits.simps) simp
  next
    case False
    then show ?thesis using 1 d m \<open>unat x mod 10 \<le> 9\<close> by (subst (1 2) u_digits.simps) simp
  qed
qed

lemma u_atoi_snoc:
  "(\<forall>x \<in> set xs. 48 \<le> x \<and> x \<le> 57) \<Longrightarrow> 48 \<le> c \<Longrightarrow> c \<le> 57 \<Longrightarrow>
   u_atoi_loop n (xs @ [c]) = u_atoi_loop n xs * 10 + ucast c - 48"
  by (induction xs arbitrary: n) simp_all

lemma u_atoi_rev:
  "(\<forall>c \<in> set ds. 48 \<le> unat c \<and> unat c \<le> 57) \<Longrightarrow> u_atoi_loop 0 (rev ds) = of_nat (digits_val 10 ds)"
proof (induction ds)
  case (Cons c ds)
  then have c: "48 \<le> c" "c \<le> 57" "\<forall>x \<in> set (rev ds). 48 \<le> x \<and> x \<le> 57" by (simp_all add: word_le_nat_alt)
  have "of_nat (unat c - 48) = (ucast c :: uint) - 48"
    using Cons.prems by (simp add: of_nat_diff unsigned_ucast_eq)
  then show ?case using Cons c by (simp add: u_atoi_snoc algebra_simps)
qed simp

text \<open>C27: \<^verbatim>\<open>atoi\<close> reads back what \<^verbatim>\<open>printf\<close> prints for a non-negative number under \<^verbatim>\<open>%d\<close>.\<close>

theorem atoi_printf:
  assumes "0 \<le> sint v"
  shows "map_option u_atoi (u_printf (lit ''%d'') [Va_int v]) = Some v"
proof -
  have "u_printint v 10 True = rev (u_digits 10 v)" using assms by (simp add: u_printint_def)
  moreover have "u_atoi_loop 0 (rev (u_digits 10 v)) = v" using u_digits_decimal [of v] u_atoi_rev by simp
  ultimately show ?thesis by (simp add: u_printf_def lit_def u_atoi_def)
qed

theorem atoi_printf_witness: "map_option u_atoi (u_printf (lit ''%d'') [Va_int 1048576]) = Some 1048576"
  using atoi_printf [of 1048576] by simp

end
