(* ===== verification/Grep.thy ===== *)
theory Grep
  imports Ulib
begin

text \<open>
  \<^verbatim>\<open>user/grep.c\<close>: the matcher, against the language a pattern denotes, and the loop over what \<^verbatim>\<open>read\<close> delivers, piece by
  piece. Also the counting loop of \<^verbatim>\<open>user/wc.c\<close>.
\<close>

section \<open>The matcher\<close>

function (sequential) matchhere :: "byte list \<Rightarrow> byte list \<Rightarrow> bool"
  and matchstar :: "byte \<Rightarrow> byte list \<Rightarrow> byte list \<Rightarrow> bool" where
  "matchhere [] tx = True"
| "matchhere (c # re) tx =
     (if re \<noteq> [] \<and> hd re = 42 then matchstar c (tl re) tx
      else if c = 36 \<and> re = [] then tx = []
      else case tx of [] \<Rightarrow> False | t # ts \<Rightarrow> (c = 46 \<or> c = t) \<and> matchhere re ts)"
| "matchstar c re tx =
     (matchhere re tx \<or> (case tx of [] \<Rightarrow> False | t # ts \<Rightarrow> (t = c \<or> c = 46) \<and> matchstar c re ts))"
  by pat_completeness auto
termination
  by (relation "measures [\<lambda>x. case x of Inl (re, _) \<Rightarrow> 2 * length re | Inr (_, re, _) \<Rightarrow> 2 * length re + 1,
      \<lambda>x. case x of Inl (_, tx) \<Rightarrow> length tx | Inr (_, _, tx) \<Rightarrow> length tx]")
    (auto simp: neq_Nil_conv)

declare matchhere.simps [simp del] matchstar.simps [simp del]

fun match_from :: "byte list \<Rightarrow> byte list \<Rightarrow> bool" where
  "match_from re [] = matchhere re []"
| "match_from re (t # ts) = (matchhere re (t # ts) \<or> match_from re ts)"

definition match :: "byte list \<Rightarrow> byte list \<Rightarrow> bool" where
  "match re tx = (if re \<noteq> [] \<and> hd re = 94 then matchhere (tl re) tx else match_from re tx)"

section \<open>Reading and printing lines\<close>

text \<open>The inner loop over the complete lines in the buffer from \<^verbatim>\<open>p\<close> on: what it writes, and where \<^verbatim>\<open>p\<close> ends.\<close>

function grep_lines :: "byte list \<Rightarrow> byte list \<Rightarrow> byte list \<times> byte list" where
  "grep_lines re p =
     (case u_strchr (takeWhile (\<lambda>c. c \<noteq> 0) p) 10 of None \<Rightarrow> ([], p)
      | Some q \<Rightarrow>
          let k = length (takeWhile (\<lambda>c. c \<noteq> 0) p) - length q; (out, r) = grep_lines re (drop (k + 1) p)
          in ((if match re (take k p) then take (k + 1) p else []) @ out, r))"
  by auto
termination
proof (relation "measure (\<lambda>(_, p). length p)")
  have ne: "u_strchr s c = Some q \<Longrightarrow> s \<noteq> []" for s c q by (cases s) auto
  fix re p q k
  assume "u_strchr (takeWhile (\<lambda>c. c \<noteq> 0) p) 10 = Some q"
  then have "p \<noteq> []" using ne by (cases p) auto
  then show "((re, drop (k + 1) p), re, p) \<in> measure (\<lambda>(_, p). length p)" by simp
qed simp

declare grep_lines.simps [simp del]

text \<open>The outer loop; \<open>keep\<close> holds the \<^verbatim>\<open>m\<close> bytes left in the buffer, the list what successive calls of \<^verbatim>\<open>read\<close> deliver,
  each no more than the \<^verbatim>\<open>sizeof(buf) - m - 1\<close> bytes asked for. A read that delivers nothing, at the end of the file, after an
  error or because the buffer is full, ends the loop.\<close>

fun grep :: "byte list \<Rightarrow> byte list \<Rightarrow> byte list list \<Rightarrow> byte list" where
  "grep re keep [] = []"
| "grep re keep (piece # pieces) =
     (if piece = [] then []
      else
        let (out, p) = grep_lines re (keep @ piece)
        in out @ grep re (if length p = length (keep @ piece) then [] else p) pieces)"

section \<open>What a pattern means\<close>

text \<open>A pattern is a sequence of items, possibly anchored at the end: a character, \<open>.\<close>, or one of them with a star.\<close>

datatype item = Star byte | One byte

fun items :: "byte list \<Rightarrow> item list \<times> bool" where
  "items [] = ([], False)"
| "items [c] = (if c = 36 then ([], True) else ([One c], False))"
| "items (c # d # re) =
     (if d = 42 then (let (xs, e) = items re in (Star c # xs, e)) else (let (xs, e) = items (d # re) in (One c # xs, e)))"

definition sat :: "byte \<Rightarrow> byte \<Rightarrow> bool" where
  "sat c x \<longleftrightarrow> c = 46 \<or> x = c"

fun item_lang :: "item \<Rightarrow> byte list set" where
  "item_lang (Star c) = {w. \<forall>x \<in> set w. sat c x}"
| "item_lang (One c) = {[x] | x. sat c x}"

fun lang :: "item list \<Rightarrow> byte list set" where
  "lang [] = {[]}"
| "lang (i # is) = {u @ v | u v. u \<in> item_lang i \<and> v \<in> lang is}"

text \<open>The items match a prefix of the text; when anchored, all of it.\<close>

definition prefix_matches :: "item list \<times> bool \<Rightarrow> byte list \<Rightarrow> bool" where
  "prefix_matches p tx \<longleftrightarrow> (\<exists>m rest. tx = m @ rest \<and> m \<in> lang (fst p) \<and> (snd p \<longrightarrow> rest = []))"

lemma prefix_matches_Nil [simp]: "prefix_matches ([], e) tx \<longleftrightarrow> (e \<longrightarrow> tx = [])"
  by (simp add: prefix_matches_def)

lemma lang_One: "m \<in> lang (One c # is) \<longleftrightarrow> (\<exists>x v. m = x # v \<and> sat c x \<and> v \<in> lang is)"
proof
  assume "\<exists>x v. m = x # v \<and> sat c x \<and> v \<in> lang is"
  then obtain x v where "m = [x] @ v" "[x] \<in> item_lang (One c)" "v \<in> lang is" by auto
  then show "m \<in> lang (One c # is)" unfolding lang.simps by blast
qed auto

lemma lang_Star_Nil: "m \<in> lang is \<Longrightarrow> m \<in> lang (Star c # is)"
  by (force intro: exI [of _ "[]"])

lemma lang_Star_Cons: "sat c x \<Longrightarrow> w \<in> lang (Star c # is) \<Longrightarrow> x # w \<in> lang (Star c # is)"
proof -
  assume x: "sat c x" and "w \<in> lang (Star c # is)"
  then obtain u v where "w = u @ v" "\<forall>x \<in> set u. sat c x" "v \<in> lang is" by auto
  then have "x # w = (x # u) @ v" "x # u \<in> item_lang (Star c)" "v \<in> lang is" using x by simp_all
  then show ?thesis unfolding lang.simps by blast
qed

lemma lang_StarE:
  assumes "m \<in> lang (Star c # is)"
  obtains "m \<in> lang is" | x w where "m = x # w" "sat c x" "w \<in> lang (Star c # is)"
proof -
  obtain u v where m: "m = u @ v" "\<forall>x \<in> set u. sat c x" "v \<in> lang is" using assms by auto
  show thesis
  proof (cases u)
    case Nil
    then show thesis using m that(1) by simp
  next
    case (Cons x u')
    have "u' @ v \<in> lang (Star c # is)" using m Cons by auto
    then show thesis using m Cons that(2) [of x "u' @ v"] by simp
  qed
qed

lemma prefix_matches_One:
  "prefix_matches (One c # is, e) tx \<longleftrightarrow> (case tx of [] \<Rightarrow> False | t # ts \<Rightarrow> sat c t \<and> prefix_matches (is, e) ts)"
proof (cases tx)
  case Nil
  then show ?thesis by (simp add: prefix_matches_def lang_One del: lang.simps)
next
  case (Cons t ts)
  have "prefix_matches (One c # is, e) (t # ts) \<longleftrightarrow>
      (\<exists>v rest. t # ts = (t # v) @ rest \<and> sat c t \<and> v \<in> lang is \<and> (e \<longrightarrow> rest = []))"
    unfolding prefix_matches_def fst_conv snd_conv lang_One by (metis append_Cons list.inject)
  then show ?thesis using Cons by (auto simp: prefix_matches_def)
qed

lemma prefix_matches_Star:
  "prefix_matches (Star c # is, e) tx \<longleftrightarrow>
     prefix_matches (is, e) tx \<or> (case tx of [] \<Rightarrow> False | t # ts \<Rightarrow> sat c t \<and> prefix_matches (Star c # is, e) ts)"
  (is "?L \<longleftrightarrow> ?R")
proof
  assume ?L
  then obtain m rest where m: "tx = m @ rest" "m \<in> lang (Star c # is)" "e \<longrightarrow> rest = []"
    by (auto simp: prefix_matches_def simp del: lang.simps)
  from m(2) show ?R
  proof (cases rule: lang_StarE)
    case 1
    then show ?thesis using m unfolding prefix_matches_def by auto
  next
    case (2 x w)
    then have "prefix_matches (Star c # is, e) (w @ rest)"
      using m unfolding prefix_matches_def fst_conv snd_conv by blast
    then show ?thesis using m 2 by simp
  qed
next
  assume ?R
  then show ?L
  proof
    assume "prefix_matches (is, e) tx"
    then show ?L using lang_Star_Nil unfolding prefix_matches_def fst_conv snd_conv by blast
  next
    assume "case tx of [] \<Rightarrow> False | t # ts \<Rightarrow> sat c t \<and> prefix_matches (Star c # is, e) ts"
    then obtain t m rest where "tx = (t # m) @ rest" "sat c t" "m \<in> lang (Star c # is)" "e \<longrightarrow> rest = []"
      by (auto simp: prefix_matches_def simp del: lang.simps split: list.splits)
    then show ?L using lang_Star_Cons unfolding prefix_matches_def fst_conv snd_conv by blast
  qed
qed

lemma matchhere_lang:
  "matchhere re tx \<longleftrightarrow> prefix_matches (items re) tx"
  "matchstar c re tx \<longleftrightarrow> prefix_matches (Star c # fst (items re), snd (items re)) tx"
proof (induction re tx and c re tx rule: matchhere_matchstar.induct)
  case (1 tx)
  then show ?case by (simp add: matchhere.simps)
next
  case (2 c re tx)
  show ?case
  proof (cases re)
    case Nil
    then show ?thesis using 2 by (auto simp: matchhere.simps prefix_matches_One sat_def split: list.splits)
  next
    case (Cons d re')
    then show ?thesis using 2
      by (auto simp: matchhere.simps(2) [of c "d # re'"] prefix_matches_One sat_def split: list.splits prod.splits)
  qed
next
  case (3 c re tx)
  then show ?case
    by (subst matchstar.simps, subst prefix_matches_Star) (auto simp: sat_def split: list.splits)
qed

lemma match_from_suffix: "match_from re tx \<longleftrightarrow> (\<exists>a b. tx = a @ b \<and> matchhere re b)"
proof (induction tx)
  case (Cons t ts)
  then show ?case by (auto simp: Cons_eq_append_conv)
qed simp

text \<open>C28: \<^verbatim>\<open>match\<close> decides whether the text contains a word of the language of the pattern: at the beginning when the pattern
  starts with \<open>^\<close>, at the end when it finishes with \<open>$\<close>, anywhere otherwise, where a character stands for itself, \<open>.\<close>
  for any character, and \<open>*\<close> for any number of repetitions of the one before.\<close>

theorem match_correct:
  "match re tx \<longleftrightarrow> (if re \<noteq> [] \<and> hd re = 94 then prefix_matches (items (tl re)) tx
     else (\<exists>a b. tx = a @ b \<and> prefix_matches (items re) b))"
  by (simp add: match_def match_from_suffix matchhere_lang)

section \<open>What grep prints\<close>

lemma u_strchr_None: "c \<notin> set s \<Longrightarrow> u_strchr s c = None"
  by (induction s) auto

lemma u_strchr_append: "c \<notin> set l \<Longrightarrow> u_strchr (l @ c # q) c = Some (c # q)"
  by (induction l) auto

lemma grep_lines_none:
  assumes "10 \<notin> set p"
  shows "grep_lines re p = ([], p)"
proof -
  have "10 \<notin> set (takeWhile (\<lambda>c. c \<noteq> 0) p)" using assms by (auto dest: set_takeWhileD)
  then show ?thesis by (simp add: grep_lines.simps u_strchr_None)
qed

lemma grep_lines_line:
  assumes "10 \<notin> set l" "0 \<notin> set l"
  shows "grep_lines re (l @ 10 # q) =
    ((if match re l then l @ [10] else []) @ fst (grep_lines re q), snd (grep_lines re q))"
proof -
  have "takeWhile (\<lambda>c. c \<noteq> 0) (l @ 10 # q) = l @ 10 # takeWhile (\<lambda>c. c \<noteq> 0) q"
    using assms(2) by (subst takeWhile_append2) auto
  then show ?thesis using assms(1)
    by (simp add: grep_lines.simps [of re "l @ 10 # q"] u_strchr_append split: prod.splits)
qed

text \<open>Text as its complete lines and an unfinished one.\<close>

definition unlines :: "byte list list \<Rightarrow> byte list" where
  "unlines ls = concat (map (\<lambda>l. l @ [10]) ls)"

lemma unlines_simps [simp]: "unlines [] = []" "unlines (l # ls) = l @ 10 # unlines ls" "unlines (ls @ ls') = unlines ls @ unlines ls'"
  by (simp_all add: unlines_def)

lemma grep_lines_unlines:
  assumes "\<And>l. l \<in> set ls \<Longrightarrow> 10 \<notin> set l \<and> 0 \<notin> set l" "10 \<notin> set r"
  shows "grep_lines re (unlines ls @ r) = (unlines (filter (match re) ls), r)"
  using assms
proof (induction ls)
  case Nil
  then show ?case by (simp add: grep_lines_none)
next
  case (Cons l ls)
  then have "grep_lines re (l @ 10 # (unlines ls @ r)) =
      ((if match re l then l @ [10] else []) @ unlines (filter (match re) ls), r)"
    by (subst grep_lines_line) simp_all
  then show ?case by simp
qed

definition lines_ok :: "byte list list \<Rightarrow> byte list \<Rightarrow> bool" where
  "lines_ok ls r \<longleftrightarrow> (\<forall>l \<in> set ls. 10 \<notin> set l) \<and> 10 \<notin> set r"

lemma split_text: "\<exists>ls r. tx = unlines ls @ r \<and> lines_ok ls r"
proof (induction tx rule: rev_induct)
  case Nil
  show ?case by (intro exI [of _ "[]"]) (simp add: lines_ok_def)
next
  case (snoc c tx)
  then obtain ls r where t: "tx = unlines ls @ r" "lines_ok ls r" by blast
  show ?case
  proof (cases "c = 10")
    case True
    then have "tx @ [c] = unlines (ls @ [r]) @ []" "lines_ok (ls @ [r]) []" using t by (auto simp: lines_ok_def)
    then show ?thesis by blast
  next
    case False
    then have "tx @ [c] = unlines ls @ (r @ [c])" "lines_ok ls (r @ [c])" using t by (auto simp: lines_ok_def)
    then show ?thesis by blast
  qed
qed

lemma set_unlines: "l \<in> set ls \<Longrightarrow> set l \<subseteq> set (unlines ls)"
  by (auto simp: unlines_def)

lemma grep_lines_split:
  assumes "lines_ok ls r" "0 \<notin> set (unlines ls @ r)"
  shows "grep_lines re (unlines ls @ r) = (unlines (filter (match re) ls), r)"
  using assms set_unlines [of _ ls] by (intro grep_lines_unlines) (auto simp: lines_ok_def)

lemma grep_pieces:
  assumes "\<forall>b \<in> set bs. 10 \<in> set b" "10 \<notin> set keep" "0 \<notin> set (keep @ concat bs)"
    and "keep @ concat bs = unlines ls @ r" "lines_ok ls r"
  shows "grep re keep bs = unlines (filter (match re) ls)"
  using assms
proof (induction bs arbitrary: keep ls r)
  case Nil
  then have "grep_lines re keep = (unlines (filter (match re) ls), r)" using grep_lines_split [of ls r re] by simp
  then show ?case using Nil.prems(2) by (simp add: grep_lines_none)
next
  case (Cons b bs)
  obtain l1 r1 where l1: "keep @ b = unlines l1 @ r1" "lines_ok l1 r1" using split_text by blast
  obtain l2 r2 where l2: "r1 @ concat bs = unlines l2 @ r2" "lines_ok l2 r2" using split_text by blast
  have "l1 \<noteq> []"
  proof
    assume "l1 = []"
    then have "10 \<notin> set (keep @ b)" using l1 by (simp add: lines_ok_def)
    then show False using Cons.prems(1) by simp
  qed
  then have len: "length r1 \<noteq> length (keep @ b)" using l1(1) by (cases l1) auto
  have z1: "0 \<notin> set (unlines l1 @ r1)" using Cons.prems(3) unfolding l1(1) [symmetric] by simp
  then have z2: "0 \<notin> set (r1 @ concat bs)" using Cons.prems(3) by auto
  then have "0 \<notin> set (unlines l2 @ r2)" unfolding l2(1) .
  then have z3: "0 \<notin> set (unlines (l1 @ l2) @ r2)" using z1 by simp
  have g1: "grep_lines re (keep @ b) = (unlines (filter (match re) l1), r1)" using grep_lines_split [OF l1(2) z1] l1(1) by simp
  have g2: "grep re r1 bs = unlines (filter (match re) l2)"
    using Cons.IH [OF _ _ z2 l2] Cons.prems(1) l1(2) by (simp add: lines_ok_def)
  have "unlines ls @ r = unlines (l1 @ l2) @ r2" using Cons.prems(4) l1(1) l2(1) by (metis append.assoc concat.simps(2) unlines_simps(3))
  moreover have "lines_ok (l1 @ l2) r2" using l1(2) l2(2) by (auto simp: lines_ok_def)
  ultimately have "unlines (filter (match re) ls) = unlines (filter (match re) (l1 @ l2))"
    using grep_lines_split [of ls r re] grep_lines_split [of "l1 @ l2" r2 re] Cons.prems(3,4,5) z3 by simp
  moreover have "b \<noteq> []" using Cons.prems(1) by auto
  ultimately show ?case using g1 g2 len by simp
qed

text \<open>C29: \<^verbatim>\<open>grep\<close> prints exactly the lines that match, in order, when every read delivers the end of a line: the input is
  \<open>ls\<close>, each followed by a newline, and an unfinished line \<open>r\<close>, and it has no NUL.\<close>

theorem grep_correct:
  assumes "concat bs = unlines ls @ r" "lines_ok ls r" "0 \<notin> set (concat bs)" "\<forall>b \<in> set bs. 10 \<in> set b"
  shows "grep re [] bs = unlines (filter (match re) ls)"
  using grep_pieces [of bs "[]" ls r re] assms by simp

text \<open>The lines \<open>ab\<close> and \<open>c\<close>, and the pattern \<open>^a\<close>.\<close>

theorem grep_correct_witness: "grep (lit ''^a'') [] [[97, 98, 10, 99], [10]] = [97, 98, 10]"
proof -
  have "match (lit ''^a'') [97, 98]" "\<not> match (lit ''^a'') [99]" by (simp_all add: match_def matchhere.simps lit_def)
  then show ?thesis
    using grep_correct [of "[[97, 98, 10, 99], [10]]" "[[97, 98], [99]]" "[]" "lit ''^a''"] by (simp add: lines_ok_def)
qed

text \<open>A line that arrives in two reads is lost: the first read has no newline in it, and its bytes are dropped.\<close>

lemma grep_drops_split_line: "match (lit ''a'') [97, 98]" "grep (lit ''a'') [] [[97], [98, 10]] = []"
proof -
  show "match (lit ''a'') [97, 98]" by (simp add: match_def matchhere.simps lit_def)
  have "\<not> match (lit ''a'') [98]" by (simp add: match_def matchhere.simps lit_def)
  then show "grep (lit ''a'') [] [[97], [98, 10]] = []"
    using grep_lines_line [of "[98]" "lit ''a''" "[]"] by (simp add: grep_lines_none)
qed

section \<open>Counting\<close>

text \<open>\<^verbatim>\<open>user/wc.c\<close>: lines, words and characters in 32-bit counters, and whether the last character was in a word. The loop
  over one buffer, over what the calls of \<^verbatim>\<open>read\<close> deliver, and what is printed; \<open>failed\<close> says that the last \<^verbatim>\<open>read\<close> returned
  an error.\<close>

fun wc_buf :: "byte list \<Rightarrow> uint \<times> uint \<times> uint \<times> bool \<Rightarrow> uint \<times> uint \<times> uint \<times> bool" where
  "wc_buf [] st = st"
| "wc_buf (b # bs) (l, w, c, inword) =
     wc_buf bs
       (let l' = (if b = 10 then l + 1 else l)
        in if u_strchr [32, 13, 9, 10, 11] b \<noteq> None then (l', w, c + 1, False)
           else if \<not> inword then (l', w + 1, c + 1, True) else (l', w, c + 1, inword))"

fun wc_loop :: "byte list list \<Rightarrow> uint \<times> uint \<times> uint \<times> bool \<Rightarrow> uint \<times> uint \<times> uint \<times> bool" where
  "wc_loop [] st = st"
| "wc_loop (piece # pieces) st = (if piece = [] then st else wc_loop pieces (wc_buf piece st))"

definition wc :: "byte list list \<Rightarrow> bool \<Rightarrow> byte list \<Rightarrow> byte list option" where
  "wc pieces failed name =
     (let (l, w, c, _) = wc_loop pieces (0, 0, 0, False)
      in if failed then u_printf (lit ''wc: read error'' @ [10]) []
         else u_printf (lit ''%d %d %d %s'' @ [10]) [Va_int l, Va_int w, Va_int c, Va_str name])"

definition is_space :: "byte \<Rightarrow> bool" where
  "is_space b \<longleftrightarrow> b \<in> {32, 13, 9, 10, 11}"

text \<open>A word starts at a character that is no space, after a space or at the start.\<close>

definition word_starts :: "byte list \<Rightarrow> nat set" where
  "word_starts inp = {i. i < length inp \<and> \<not> is_space (inp ! i) \<and> (i = 0 \<or> is_space (inp ! (i - 1)))}"

text \<open>The same after a character that was in a word or not.\<close>

definition starts_after :: "bool \<Rightarrow> byte list \<Rightarrow> nat set" where
  "starts_after inword inp =
     {i. i < length inp \<and> \<not> is_space (inp ! i) \<and> (if i = 0 then \<not> inword else is_space (inp ! (i - 1)))}"

lemma starts_after_Cons:
  "starts_after inword (b # bs) = (if \<not> is_space b \<and> \<not> inword then {0} else {}) \<union> Suc ` starts_after (\<not> is_space b) bs"
proof (intro set_eqI)
  fix i
  show "i \<in> starts_after inword (b # bs) \<longleftrightarrow>
      i \<in> (if \<not> is_space b \<and> \<not> inword then {0} else {}) \<union> Suc ` starts_after (\<not> is_space b) bs"
  proof (cases i)
    case (Suc j)
    then show ?thesis by (cases j) (auto simp: starts_after_def)
  qed (auto simp: starts_after_def)
qed

lemma starts_after_Nil: "starts_after inword [] = {}"
  by (simp add: starts_after_def)

lemma word_starts_eq: "word_starts inp = starts_after False inp"
  by (auto simp: starts_after_def word_starts_def)

lemma finite_starts [simp]: "finite (starts_after inword inp)"
  by (simp add: starts_after_def)

lemma space_strchr: "u_strchr [32, 13, 9, 10, 11] b \<noteq> None \<longleftrightarrow> is_space b"
  by (simp add: is_space_def)

lemma wc_buf_counts:
  "\<exists>iw. wc_buf bs (l, w, c, inword) =
     (l + of_nat (length (filter (\<lambda>b. b = 10) bs)), w + of_nat (card (starts_after inword bs)), c + of_nat (length bs), iw)"
proof (induction bs arbitrary: l w c inword)
  case Nil
  then show ?case by (simp add: starts_after_def)
next
  case (Cons b bs)
  have "card (starts_after inword (b # bs)) =
      (if \<not> is_space b \<and> \<not> inword then 1 else 0) + card (starts_after (\<not> is_space b) bs)"
    by (simp add: starts_after_Cons card_Un_disjoint card_image)
  then show ?case using Cons.IH [of "if b = 10 then l + 1 else l" w "c + 1" False]
      Cons.IH [of "if b = 10 then l + 1 else l" "w + 1" "c + 1" True] Cons.IH [of "if b = 10 then l + 1 else l" w "c + 1" True]
    unfolding wc_buf.simps space_strchr by (cases "b = 10"; cases "is_space b"; cases inword) (simp_all add: Let_def add.assoc)
qed

lemma wc_buf_append: "wc_buf (xs @ ys) st = wc_buf ys (wc_buf xs st)"
  by (induction xs st rule: wc_buf.induct) simp_all

text \<open>Where a buffer ends makes no difference.\<close>

lemma wc_loop_concat: "[] \<notin> set pieces \<Longrightarrow> wc_loop pieces st = wc_buf (concat pieces) st"
  by (induction pieces arbitrary: st) (auto simp: wc_buf_append)

text \<open>C30: \<^verbatim>\<open>wc\<close> prints the numbers of newlines, of words (maximal runs of characters that are no white space) and of
  characters of its input, modulo \<open>2 ^ 32\<close>, however the reads cut it into pieces.\<close>

theorem wc_correct:
  assumes "[] \<notin> set pieces" "concat pieces = inp"
  shows "wc pieces False name =
     u_printf (lit ''%d %d %d %s'' @ [10])
       [Va_int (of_nat (length (filter (\<lambda>b. b = 10) inp))), Va_int (of_nat (card (word_starts inp))), Va_int (of_nat (length inp)), Va_str name]"
  using wc_buf_counts [of inp 0 0 0 False] wc_loop_concat [OF assms(1)] assms(2) by (auto simp: wc_def word_starts_eq)

text \<open>Two lines in two reads, the second in the middle of a word.\<close>

theorem wc_correct_witness: "wc [[97, 98], [99, 10, 100, 10]] False [120] = Some (lit ''2 2 6 x'' @ [10])"
proof -
  have "card (word_starts [97, 98, 99, 10, 100, 10]) = 2"
    by (simp add: word_starts_eq starts_after_Cons starts_after_Nil is_space_def)
  then show ?thesis
    using wc_correct [of "[[97, 98], [99, 10, 100, 10]]" "[97, 98, 99, 10, 100, 10]" "[120]"]
    by (simp add: u_printf_def lit_def u_printint_def u_digits.simps u_digit_def)
qed

end
