(* ===== verification/Sh.thy ===== *)
theory Sh
  imports Ulib
begin

text \<open>
  \<^verbatim>\<open>user/sh.c\<close>: the parser of command lines and the execution of parsed commands. A pointer into the line is the rest
  of the line from there, and \<^verbatim>\<open>es\<close>, the end of the line, is the empty list. The recursive descent carries fuel; enough
  of it is shown to be four times the length of the line and four.
\<close>

section \<open>Commands\<close>

type_synonym ptr = "byte list"

text \<open>\<^verbatim>\<open>struct cmd\<close> and its variants; an argument is its start \<^verbatim>\<open>argv[i]\<close> and its end \<^verbatim>\<open>eargv[i]\<close>.\<close>

datatype cmd =
    EXEC "(ptr \<times> ptr) list"
  | REDIR cmd ptr ptr uint nat
  | PIPE cmd cmd
  | LIST cmd cmd
  | BACK cmd

datatype perr = Psyntax string | Pfuel

definition MAXARGS :: nat where "MAXARGS = 10"
definition whitespace :: "byte list" where "whitespace = [32, 9, 13, 10, 11]"
definition symbols :: "byte list" where "symbols = lit ''<|>&;()''"

definition sh_O_RDONLY :: uint where "sh_O_RDONLY = 0"
definition sh_O_WRCREATE :: uint where "sh_O_WRCREATE = 0x001 OR 0x200"

section \<open>Tokens\<close>

definition is_white :: "byte \<Rightarrow> bool" where "is_white c \<longleftrightarrow> u_strchr whitespace c \<noteq> None"
definition is_symbol :: "byte \<Rightarrow> bool" where "is_symbol c \<longleftrightarrow> u_strchr symbols c \<noteq> None"

fun skip_white :: "ptr \<Rightarrow> ptr" where
  "skip_white [] = []"
| "skip_white (c # s) = (if is_white c then skip_white s else c # s)"

fun skip_word :: "ptr \<Rightarrow> ptr" where
  "skip_word [] = []"
| "skip_word (c # s) = (if \<not> is_white c \<and> \<not> is_symbol c then skip_word s else c # s)"

text \<open>\<^verbatim>\<open>*s\<close>, which is NUL at the end of the line.\<close>

fun deref :: "ptr \<Rightarrow> byte" where
  "deref [] = 0"
| "deref (c # s) = c"

text \<open>\<^verbatim>\<open>gettoken\<close>: the kind of token, where it starts and ends, and where the next one starts. The \<^verbatim>\<open>switch\<close> on the
  first character gives the kind and the end.\<close>

definition token :: "ptr \<Rightarrow> byte \<times> ptr" where
  "token q =
     (let c = deref q in
      if c = 0 then (c, q)
      else if c = 124 \<or> c = 40 \<or> c = 41 \<or> c = 59 \<or> c = 38 \<or> c = 60 then (c, tl q)
      else if c = 62 then (if deref (tl q) = 62 then (43, tl (tl q)) else (c, tl q))
      else (97, skip_word q))"

definition gettoken :: "ptr \<Rightarrow> byte \<times> ptr \<times> ptr \<times> ptr" where
  "gettoken ps = (let q = skip_white ps; (r, eq) = token q in (r, q, eq, skip_white eq))"

definition peek :: "ptr \<Rightarrow> byte list \<Rightarrow> bool \<times> ptr" where
  "peek ps toks = (let s = skip_white ps in (deref s \<noteq> 0 \<and> u_strchr toks (deref s) \<noteq> None, s))"

lemma skip_white_length: "length (skip_white s) \<le> length s"
  by (induction s) auto

lemma skip_word_length: "length (skip_word s) \<le> length s"
  by (induction s) auto

lemma peek_length: "peek s toks = (b, s') \<Longrightarrow> length s' \<le> length s"
  using skip_white_length by (auto simp: peek_def Let_def)

lemma symbols_simp: "symbols = [60, 124, 62, 38, 59, 40, 41]"
  by (simp add: symbols_def lit_def)

lemma is_symbol_cases: "is_symbol c \<longleftrightarrow> c = 60 \<or> c = 124 \<or> c = 62 \<or> c = 38 \<or> c = 59 \<or> c = 40 \<or> c = 41"
  by (simp add: is_symbol_def symbols_simp)

lemma skip_white_hd: "skip_white s = c # r \<Longrightarrow> \<not> is_white c"
  by (induction s) (auto split: if_splits)

text \<open>A token that is not the end of the line is consumed.\<close>

lemma token_length:
  assumes "token q = (t, e)" "t \<noteq> 0" "\<And>c r. q = c # r \<Longrightarrow> \<not> is_white c"
  shows "length e < length q"
proof (cases q)
  case Nil
  then show ?thesis using assms by (simp add: token_def)
next
  case (Cons c r)
  have "length (skip_word (c # r)) \<le> length r" if "\<not> is_symbol c" "\<not> is_white c"
    using that skip_word_length [of r] by simp
  then show ?thesis using assms Cons by (auto simp: token_def is_symbol_cases Let_def split: if_splits)
qed

lemma gettoken_length:
  assumes "gettoken s = (t, q, e, s')"
  shows "length s' \<le> length s" "t \<noteq> 0 \<Longrightarrow> length s' < length s"
proof -
  obtain t' e' where tok: "token (skip_white s) = (t', e')" by fastforce
  then have eqs: "t = t'" "q = skip_white s" "e = e'" "s' = skip_white e'" using assms by (auto simp: gettoken_def)
  have "length e' < length (skip_white s)" if "t \<noteq> 0"
    using token_length [OF tok] that eqs(1) skip_white_hd by blast
  moreover have "t = 0 \<Longrightarrow> e' = skip_white s" using tok eqs(1) by (auto simp: token_def Let_def split: if_splits)
  ultimately have "length e' \<le> length (skip_white s)" by (cases "t = 0") auto
  then show "length s' \<le> length s" using eqs(4) skip_white_length [of e'] skip_white_length [of s] by simp
  show "t \<noteq> 0 \<Longrightarrow> length s' < length s"
    using \<open>t \<noteq> 0 \<Longrightarrow> length e' < length (skip_white s)\<close> eqs(4) skip_white_length [of e'] skip_white_length [of s] by simp
qed

lemma skip_white_idem [simp]: "skip_white (skip_white s) = skip_white s"
  by (induction s) auto

text \<open>After a successful \<^verbatim>\<open>peek\<close> there is a token.\<close>

lemma peek_gettoken:
  assumes "peek s toks = (True, s1)" "gettoken s1 = (t, q, e, s2)"
  shows "length s2 < length s"
proof -
  have "deref (skip_white s1) \<noteq> 0" "length s1 \<le> length s" using assms(1) skip_white_length by (auto simp: peek_def Let_def)
  then have "t \<noteq> 0" using assms(2) by (auto simp: gettoken_def token_def Let_def split: if_splits)
  then show ?thesis using gettoken_length(2) [OF assms(2)] \<open>length s1 \<le> length s\<close> by simp
qed

section \<open>Parsing\<close>

text \<open>
  \<^verbatim>\<open>parseredirs\<close> wraps the command once for every redirection it reads; here it returns the redirections, and
  \<open>add_redirs\<close> wraps. \<^verbatim>\<open>parseexec\<close> fills the arguments of an \<^verbatim>\<open>execcmd\<close> it may already have wrapped: it collects the
  arguments and the redirections and puts them together at the end.
\<close>

type_synonym redir = "ptr \<times> ptr \<times> uint \<times> nat"

fun add_redirs :: "cmd \<Rightarrow> redir list \<Rightarrow> cmd" where
  "add_redirs c [] = c"
| "add_redirs c ((q, e, m, fd) # rs) = add_redirs (REDIR c q e m fd) rs"

function parseredirs :: "ptr \<Rightarrow> perr + redir list \<times> ptr" where
  "parseredirs ps =
     (let (b, s1) = peek ps [60, 62] in
      if \<not> b then Inr ([], s1)
      else
        let (tok, _, _, s2) = gettoken s1; (t, q, e, s3) = gettoken s2 in
        if t \<noteq> 97 then Inl (Psyntax ''missing file for redirection'')
        else
          let r = (q, e, if tok = 60 then sh_O_RDONLY else sh_O_WRCREATE, if tok = 60 then 0 else 1) in
          case parseredirs s3 of Inl err \<Rightarrow> Inl err | Inr (rs, s4) \<Rightarrow> Inr (r # rs, s4))"
  by auto
termination
proof (relation "measure length")
  fix ps x b s1 y tok y1 q1 y2 e1 s2 w t w1 q w2 e s3
  assume "x = peek ps [60, 62]" "(b, s1) = x" "y = gettoken s1" "(tok, y1) = y" "(q1, y2) = y1" "(e1, s2) = y2"
    "w = gettoken s2" "(t, w1) = w" "(q, w2) = w1" "(e, s3) = w2" "\<not> t \<noteq> 97"
  then have "length s1 \<le> length ps" "length s2 \<le> length s1" "length s3 < length s2"
    using peek_length [of ps "[60, 62]" b s1] gettoken_length(1) [of s1 tok q1 e1 s2] gettoken_length(2) [of s2 t q e s3] by auto
  then show "(s3, ps) \<in> measure length" by simp
qed simp

declare parseredirs.simps [simp del]

lemma parseredirs_length: "parseredirs s = Inr (rs, s') \<Longrightarrow> length s' \<le> length s"
proof (induction s arbitrary: rs s' rule: parseredirs.induct)
  case (1 s)
  obtain b s1 where p: "peek s [60, 62] = (b, s1)" by fastforce
  obtain tok q1 e1 s2 where g1: "gettoken s1 = (tok, q1, e1, s2)" by (cases "gettoken s1") auto
  obtain t q e s3 where g2: "gettoken s2 = (t, q, e, s3)" by (cases "gettoken s2") auto
  have l: "length s1 \<le> length s" "length s2 \<le> length s1" "length s3 \<le> length s2"
    using peek_length [OF p] gettoken_length(1) [OF g1] gettoken_length(1) [OF g2] .
  show ?case
  proof (cases b)
    case False
    then show ?thesis using 1(2) l p by (simp add: parseredirs.simps [of s])
  next
    case True
    then obtain rs' where "t = 97" "parseredirs s3 = Inr (rs', s')" using 1(2) p g1 g2
      by (subst (asm) parseredirs.simps) (auto simp: Let_def split: if_splits sum.splits)
    then show ?thesis using 1(1) [OF p [symmetric] refl _ g1 [symmetric] refl refl refl g2 [symmetric]] True l by fastforce
  qed
qed

text \<open>The loop of \<^verbatim>\<open>parseexec\<close> over the arguments; \<open>argc\<close> of them have been read.\<close>

function parseargs :: "nat \<Rightarrow> ptr \<Rightarrow> perr + (ptr \<times> ptr) list \<times> redir list \<times> ptr" where
  "parseargs argc ps =
     (let (b, s1) = peek ps [124, 41, 38, 59] in
      if b then Inr ([], [], s1)
      else
        let (tok, q, e, s2) = gettoken s1 in
        if tok = 0 then Inr ([], [], s2)
        else if tok \<noteq> 97 then Inl (Psyntax ''syntax'')
        else if argc + 1 \<ge> MAXARGS then Inl (Psyntax ''too many args'')
        else
          case parseredirs s2 of Inl err \<Rightarrow> Inl err
          | Inr (rs, s3) \<Rightarrow>
              case parseargs (argc + 1) s3 of Inl err \<Rightarrow> Inl err
              | Inr (as, rs', s4) \<Rightarrow> Inr ((q, e) # as, rs @ rs', s4))"
  by auto
termination by (relation "measure (\<lambda>(argc, _). MAXARGS - argc)") auto

declare parseargs.simps [simp del]

text \<open>\<^verbatim>\<open>while (peek(ps, es, "&"))\<close> of \<^verbatim>\<open>parseline\<close>.\<close>

function parsebacks :: "cmd \<Rightarrow> ptr \<Rightarrow> cmd \<times> ptr" where
  "parsebacks c ps =
     (let (b, s1) = peek ps [38] in
      if b then (let (_, _, _, s2) = gettoken s1 in parsebacks (BACK c) s2) else (c, s1))"
  by auto
termination
proof (relation "measure (\<lambda>(_, s). length s)")
  fix c ps x b s1 y tok y1 q y2 e s2
  assume a: "x = peek ps [38]" "(b, s1) = x" "b" "y = gettoken s1" "(tok, y1) = y" "(q, y2) = y1" "(e, s2) = y2"
  then have p: "peek ps [38] = (True, s1)" and g: "gettoken s1 = (tok, q, e, s2)" by auto
  then have "length s2 < length ps" using peek_gettoken by blast
  then show "((BACK c, s2), c, ps) \<in> measure (\<lambda>(_, s). length s)" by simp
qed simp

declare parsebacks.simps [simp del]


fun parseline :: "nat \<Rightarrow> ptr \<Rightarrow> perr + cmd \<times> ptr"
  and parsepipe :: "nat \<Rightarrow> ptr \<Rightarrow> perr + cmd \<times> ptr"
  and parseexec :: "nat \<Rightarrow> ptr \<Rightarrow> perr + cmd \<times> ptr"
  and parseblock :: "nat \<Rightarrow> ptr \<Rightarrow> perr + cmd \<times> ptr" where
  "parseline 0 ps = Inl Pfuel"
| "parseline (Suc n) ps =
     (case parsepipe n ps of Inl err \<Rightarrow> Inl err
      | Inr (c, s1) \<Rightarrow>
          let (c', s2) = parsebacks c s1; (b, s3) = peek s2 [59] in
          if b then
            let (_, _, _, s4) = gettoken s3 in
            (case parseline n s4 of Inl err \<Rightarrow> Inl err | Inr (r, s5) \<Rightarrow> Inr (LIST c' r, s5))
          else Inr (c', s3))"
| "parsepipe 0 ps = Inl Pfuel"
| "parsepipe (Suc n) ps =
     (case parseexec n ps of Inl err \<Rightarrow> Inl err
      | Inr (c, s1) \<Rightarrow>
          let (b, s2) = peek s1 [124] in
          if b then
            let (_, _, _, s3) = gettoken s2 in
            (case parsepipe n s3 of Inl err \<Rightarrow> Inl err | Inr (r, s4) \<Rightarrow> Inr (PIPE c r, s4))
          else Inr (c, s2))"
| "parseexec 0 ps = Inl Pfuel"
| "parseexec (Suc n) ps =
     (let (b, s1) = peek ps [40] in
      if b then parseblock n s1
      else
        (case parseredirs s1 of Inl err \<Rightarrow> Inl err
         | Inr (rs, s2) \<Rightarrow>
             (case parseargs 0 s2 of Inl err \<Rightarrow> Inl err
              | Inr (as, rs', s3) \<Rightarrow> Inr (add_redirs (EXEC as) (rs @ rs'), s3))))"
| "parseblock 0 ps = Inl Pfuel"
| "parseblock (Suc n) ps =
     (let (b, s1) = peek ps [40] in
      if \<not> b then Inl (Psyntax ''parseblock'')
      else
        let (_, _, _, s2) = gettoken s1 in
        case parseline n s2 of Inl err \<Rightarrow> Inl err
        | Inr (c, s3) \<Rightarrow>
            let (b', s4) = peek s3 [41] in
            if \<not> b' then Inl (Psyntax ''syntax - missing )'')
            else
              let (_, _, _, s5) = gettoken s4 in
              (case parseredirs s5 of Inl err \<Rightarrow> Inl err | Inr (rs, s6) \<Rightarrow> Inr (add_redirs c rs, s6)))"

declare parseline.simps [simp del] parsepipe.simps [simp del] parseexec.simps [simp del] parseblock.simps [simp del]

text \<open>\<^verbatim>\<open>nulterminate\<close> writes a NUL at the end of every argument and file name: the places it writes to.\<close>

fun nulterminate :: "cmd \<Rightarrow> ptr list" where
  "nulterminate (EXEC as) = map snd as"
| "nulterminate (REDIR c q e m fd) = nulterminate c @ [e]"
| "nulterminate (PIPE l r) = nulterminate l @ nulterminate r"
| "nulterminate (LIST l r) = nulterminate l @ nulterminate r"
| "nulterminate (BACK c) = nulterminate c"

definition parsecmd :: "byte list \<Rightarrow> perr + cmd" where
  "parsecmd line =
     (case parseline (4 * length line + 4) line of Inl err \<Rightarrow> Inl err
      | Inr (c, s) \<Rightarrow> if snd (peek s []) \<noteq> [] then Inl (Psyntax ''syntax'') else Inr c)"

text \<open>The string that a pointer denotes once NULs have been written at the places \<open>z\<close> of the line: pointers into the
  same line are equal when what follows them is.\<close>

fun cstr_at :: "ptr list \<Rightarrow> ptr \<Rightarrow> byte list" where
  "cstr_at z [] = []"
| "cstr_at z (c # s) = (if c # s \<in> set z then [] else c # cstr_at z s)"

section \<open>Parsing ends\<close>

lemma parseargs_length: "parseargs argc s = Inr (as, rs, s') \<Longrightarrow> length s' \<le> length s"
proof (induction argc s arbitrary: as rs s' rule: parseargs.induct)
  case (1 argc s)
  obtain b s1 where p: "peek s [124, 41, 38, 59] = (b, s1)" by fastforce
  obtain t q e s2 where g: "gettoken s1 = (t, q, e, s2)" by (cases "gettoken s1") auto
  have l: "length s1 \<le> length s" "length s2 \<le> length s1" using peek_length [OF p] gettoken_length(1) [OF g] .
  show ?case
  proof (cases "b \<or> t = 0")
    case True
    then show ?thesis using 1(2) l p g by (auto simp: parseargs.simps [of argc s] split: if_splits)
  next
    case False
    then obtain rs1 s3 as' rs' where r: "t = 97" "\<not> argc + 1 \<ge> MAXARGS" "parseredirs s2 = Inr (rs1, s3)"
        "parseargs (argc + 1) s3 = Inr (as', rs', s')" using 1(2) p g
      by (subst (asm) parseargs.simps) (auto simp: Let_def split: if_splits sum.splits)
    then have "length s' \<le> length s3"
      using 1(1) [OF p [symmetric] refl _ g [symmetric] refl refl refl] False by fastforce
    then show ?thesis using parseredirs_length [OF r(3)] l by simp
  qed
qed

lemma parsebacks_length: "length (snd (parsebacks c s)) \<le> length s"
proof (induction c s rule: parsebacks.induct)
  case (1 c s)
  obtain b s1 where p: "peek s [38] = (b, s1)" by fastforce
  obtain t q e s2 where g: "gettoken s1 = (t, q, e, s2)" by (cases "gettoken s1") auto
  show ?case
  proof (cases b)
    case True
    then have "length (snd (parsebacks (BACK c) s2)) \<le> length s2"
      using 1 [OF p [symmetric] refl _ g [symmetric] refl refl refl] by simp
    then show ?thesis using True p g peek_length [OF p] gettoken_length(1) [OF g] by (simp add: parsebacks.simps [of c s])
  next
    case False
    then show ?thesis using p peek_length [OF p] by (simp add: parsebacks.simps [of c s])
  qed
qed


text \<open>A parser does not run out of fuel, and does not give back more than it was given.\<close>

definition fed :: "nat \<Rightarrow> nat \<Rightarrow> (nat \<Rightarrow> ptr \<Rightarrow> perr + cmd \<times> ptr) \<Rightarrow> ptr \<Rightarrow> bool" where
  "fed k n f s \<longleftrightarrow> (4 * length s + k \<le> n \<longrightarrow> f n s \<noteq> Inl Pfuel) \<and> (\<forall>c s'. f n s = Inr (c, s') \<longrightarrow> length s' \<le> length s)"

lemma parseredirs_no_fuel: "parseredirs s \<noteq> Inl Pfuel"
proof (induction s rule: parseredirs.induct)
  case (1 s)
  obtain b s1 where p: "peek s [60, 62] = (b, s1)" by fastforce
  obtain tok q1 e1 s2 where g1: "gettoken s1 = (tok, q1, e1, s2)" by (cases "gettoken s1") auto
  obtain t q e s3 where g2: "gettoken s2 = (t, q, e, s3)" by (cases "gettoken s2") auto
  have "parseredirs s3 \<noteq> Inl Pfuel" if "b" "t = 97"
    using 1 [OF p [symmetric] refl _ g1 [symmetric] refl refl refl g2 [symmetric]] that by simp
  then show ?case using p g1 g2 by (auto simp: parseredirs.simps [of s] Let_def split: sum.splits)
qed

lemma parseargs_no_fuel: "parseargs argc s \<noteq> Inl Pfuel"
proof (induction argc s rule: parseargs.induct)
  case (1 argc s)
  obtain b s1 where p: "peek s [124, 41, 38, 59] = (b, s1)" by fastforce
  obtain t q e s2 where g: "gettoken s1 = (t, q, e, s2)" by (cases "gettoken s1") auto
  have "parseargs (argc + 1) s3 \<noteq> Inl Pfuel" if "\<not> b" "t = 97" "\<not> argc + 1 \<ge> MAXARGS" "parseredirs s2 = Inr (rs, s3)" for rs s3
    using 1 [OF p [symmetric] refl _ g [symmetric] refl refl refl] that by fastforce
  then show ?case using p g parseredirs_no_fuel by (auto simp: parseargs.simps [of argc s] Let_def split: sum.splits)
qed

lemma parse_fed:
  "fed 4 n parseline s \<and> fed 3 n parsepipe s \<and> fed 2 n parseexec s \<and> fed 1 n parseblock s"
proof (induction n arbitrary: s)
  case 0
  show ?case by (simp add: fed_def parseline.simps parsepipe.simps parseexec.simps parseblock.simps)
next
  case (Suc n)
  have IH: "fed 4 n parseline s" "fed 3 n parsepipe s" "fed 2 n parseexec s" "fed 1 n parseblock s" for s
    using Suc.IH by simp_all
  have "fed 4 (Suc n) parseline s"
  proof (cases "parsepipe n s")
    case (Inl err)
    then show ?thesis using IH(2) [of s] by (auto simp: fed_def parseline.simps)
  next
    case (Inr r)
    obtain c s1 where r: "r = (c, s1)" by fastforce
    obtain c' s2 where b: "parsebacks c s1 = (c', s2)" by fastforce
    obtain b s3 where p: "peek s2 [59] = (b, s3)" by fastforce
    obtain t q e s4 where g: "gettoken s3 = (t, q, e, s4)" by (cases "gettoken s3") auto
    have l: "length s2 \<le> length s" "length s3 \<le> length s2" "b \<Longrightarrow> length s4 < length s2"
      using IH(2) [of s] Inr r parsebacks_length [of c s1] b peek_length [OF p] peek_gettoken [of s2 "[59]" s3] p g by (auto simp: fed_def)
    then show ?thesis using IH(4) [of s4] IH(1) [of s4] Inr r b p g
      by (cases b) (auto simp: fed_def parseline.simps split: sum.splits)
  qed
  moreover have "fed 3 (Suc n) parsepipe s"
  proof (cases "parseexec n s")
    case (Inl err)
    then show ?thesis using IH(3) [of s] by (auto simp: fed_def parsepipe.simps)
  next
    case (Inr r)
    obtain c s1 where r: "r = (c, s1)" by fastforce
    obtain b s2 where p: "peek s1 [124] = (b, s2)" by fastforce
    obtain t q e s3 where g: "gettoken s2 = (t, q, e, s3)" by (cases "gettoken s2") auto
    have l: "length s1 \<le> length s" "length s2 \<le> length s1" "b \<Longrightarrow> length s3 < length s1"
      using IH(3) [of s] Inr r peek_length [OF p] peek_gettoken [of s1 "[124]" s2] p g by (auto simp: fed_def)
    then show ?thesis using IH(2) [of s3] Inr r p g
      by (cases b) (auto simp: fed_def parsepipe.simps split: sum.splits)
  qed
  moreover have "fed 2 (Suc n) parseexec s"
  proof -
    obtain b s1 where p: "peek s [40] = (b, s1)" by fastforce
    have l: "length s1 \<le> length s" using peek_length [OF p] .
    show ?thesis
    proof (cases b)
      case True
      then show ?thesis using IH(4) [of s1] p l by (fastforce simp: fed_def parseexec.simps)
    next
      case False
      then show ?thesis
        using p l parseredirs_no_fuel parseargs_no_fuel parseredirs_length parseargs_length
        by (fastforce simp: fed_def parseexec.simps split: sum.splits)
    qed
  qed
  moreover have "fed 1 (Suc n) parseblock s"
  proof -
    obtain b s1 where p: "peek s [40] = (b, s1)" by fastforce
    obtain t q e s2 where g: "gettoken s1 = (t, q, e, s2)" by (cases "gettoken s1") auto
    show ?thesis
    proof (cases b)
      case False
      then show ?thesis using p by (simp add: fed_def parseblock.simps)
    next
      case True
      then have l: "length s2 < length s" using peek_gettoken [of s "[40]" s1] p g by simp
      show ?thesis
      proof (cases "parseline n s2")
        case (Inl err)
        then show ?thesis using IH(1) [of s2] p g True l by (auto simp: fed_def parseblock.simps)
      next
        case (Inr r)
        obtain c s3 where r: "r = (c, s3)" by fastforce
        obtain b' s4 where p': "peek s3 [41] = (b', s4)" by fastforce
        obtain t' q' e' s5 where g': "gettoken s4 = (t', q', e', s5)" by (cases "gettoken s4") auto
        have "length s3 \<le> length s2" "length s5 \<le> length s3"
          using IH(1) [of s2] Inr r peek_length [OF p'] gettoken_length(1) [OF g'] by (auto simp: fed_def)
        then show ?thesis using p g True l Inr r p' g' parseredirs_no_fuel [of s5] parseredirs_length [of s5]
          by (fastforce simp: fed_def parseblock.simps split: sum.splits)
      qed
    qed
  qed
  ultimately show ?case by simp
qed


text \<open>C31: Parsing a command line always ends: the recursive descent never runs out of fuel.\<close>

theorem parsecmd_ends: "parsecmd line \<noteq> Inl Pfuel"
  using parse_fed [of "4 * length line + 4" line] by (auto simp: parsecmd_def fed_def split: sum.splits)

section \<open>Parsing is the inverse of printing\<close>

text \<open>A redirection: \<open><\<close> opens the file for reading as descriptor 0, \<open>>\<close> creates it for writing as descriptor 1; anything
  else is kept as it is, and no command of the printer has it.\<close>

datatype rkind = R_in | R_out | R_other uint nat

datatype acmd =
    A_exec "byte list list"
  | A_redir acmd rkind "byte list"
  | A_pipe acmd acmd
  | A_list acmd acmd
  | A_back acmd

text \<open>What a parsed command means: the text of its words.\<close>

definition word_text :: "ptr \<times> ptr \<Rightarrow> byte list" where
  "word_text w = take (length (fst w) - length (snd w)) (fst w)"

fun meaning :: "cmd \<Rightarrow> acmd" where
  "meaning (EXEC as) = A_exec (map word_text as)"
| "meaning (REDIR c q e m fd) = A_redir (meaning c) (if m = sh_O_RDONLY \<and> fd = 0 then R_in
       else if m = sh_O_WRCREATE \<and> fd = 1 then R_out else R_other m fd) (word_text (q, e))"
| "meaning (PIPE l r) = A_pipe (meaning l) (meaning r)"
| "meaning (LIST l r) = A_list (meaning l) (meaning r)"
| "meaning (BACK c) = A_back (meaning c)"

text \<open>A command written out, with parentheses around every part.\<close>

fun print_words :: "byte list list \<Rightarrow> byte list" where
  "print_words [] = []"
| "print_words (w # ws) = w @ 32 # print_words ws"

fun print_cmd :: "acmd \<Rightarrow> byte list" where
  "print_cmd (A_exec ws) = print_words ws"
| "print_cmd (A_redir c k f) = 40 # print_cmd c @ 41 # (case k of R_in \<Rightarrow> 60 | _ \<Rightarrow> 62) # f @ [32]"
| "print_cmd (A_pipe l r) = 40 # print_cmd l @ 41 # 124 # 40 # print_cmd r @ [41]"
| "print_cmd (A_list l r) = 40 # print_cmd l @ 41 # 59 # 40 # print_cmd r @ [41]"
| "print_cmd (A_back c) = 40 # print_cmd c @ [41, 38]"

definition word_char :: "byte \<Rightarrow> bool" where
  "word_char c \<longleftrightarrow> c \<noteq> 0 \<and> \<not> is_white c \<and> \<not> is_symbol c"

definition is_word :: "byte list \<Rightarrow> bool" where
  "is_word w \<longleftrightarrow> w \<noteq> [] \<and> (\<forall>c \<in> set w. word_char c)"

fun valid_cmd :: "acmd \<Rightarrow> bool" where
  "valid_cmd (A_exec ws) \<longleftrightarrow> (\<forall>w \<in> set ws. is_word w) \<and> length ws < MAXARGS"
| "valid_cmd (A_redir c k f) \<longleftrightarrow> valid_cmd c \<and> is_word f \<and> (k = R_in \<or> k = R_out)"
| "valid_cmd (A_pipe l r) \<longleftrightarrow> valid_cmd l \<and> valid_cmd r"
| "valid_cmd (A_list l r) \<longleftrightarrow> valid_cmd l \<and> valid_cmd r"
| "valid_cmd (A_back c) \<longleftrightarrow> valid_cmd c"

text \<open>What may follow a command inside its parentheses, and what may follow the parentheses.\<close>

definition stop :: "ptr \<Rightarrow> bool" where
  "stop s \<longleftrightarrow> s = [] \<or> (\<exists>r. s = 41 # r)"

definition after_block :: "ptr \<Rightarrow> bool" where
  "after_block s \<longleftrightarrow> s = [] \<or> (\<exists>c r. s = c # r \<and> c \<in> {41, 124, 59, 38})"

lemma is_white_cases: "is_white c \<longleftrightarrow> c = 32 \<or> c = 9 \<or> c = 13 \<or> c = 10 \<or> c = 11"
  by (simp add: is_white_def whitespace_def)

lemma not_white_symbols [simp]:
  "\<not> is_white 40" "\<not> is_white 41" "\<not> is_white 60" "\<not> is_white 62" "\<not> is_white 124" "\<not> is_white 59" "\<not> is_white 38"
  by (simp_all add: is_white_cases)

lemma stop_after_block: "stop s \<Longrightarrow> after_block s"
  by (auto simp: stop_def after_block_def)

lemma after_block_white [simp]: "after_block s \<Longrightarrow> skip_white s = s"
  by (auto simp: after_block_def is_white_cases)

lemma symbol_white [simp]: "c \<in> {40, 41, 60, 62, 124, 59, 38} \<Longrightarrow> skip_white (c # s) = c # s"
  by (auto simp: is_white_cases)

lemma word_start:
  assumes "is_word w"
  obtains c w' where "w = c # w'" "c \<noteq> 0" "\<not> is_white c" "\<not> is_symbol c"
  using assms by (cases w) (auto simp: is_word_def word_char_def)

lemma skip_white_word [simp]: "is_word w \<Longrightarrow> skip_white (w @ s) = w @ s"
  by (erule word_start) simp

lemma skip_word_word: "\<forall>c \<in> set w. word_char c \<Longrightarrow> skip_word (w @ 32 # s) = 32 # s"
  by (induction w) (auto simp: word_char_def is_white_cases)

lemma gettoken_word: "is_word w \<Longrightarrow> gettoken (w @ 32 # s) = (97, w @ 32 # s, 32 # s, skip_white s)"
proof -
  assume w: "is_word w"
  then obtain c w' where "w = c # w'" "c \<noteq> 0" "\<not> is_white c" "\<not> is_symbol c" by (rule word_start)
  moreover have "skip_word (w @ 32 # s) = 32 # s" using w by (intro skip_word_word) (simp add: is_word_def)
  ultimately show ?thesis by (simp add: gettoken_def token_def is_symbol_cases is_white_cases)
qed

lemma gettoken_symbol:
  "c \<in> {40, 41, 60, 124, 59, 38} \<Longrightarrow> gettoken (c # s) = (c, c # s, s, skip_white s)"
  by (auto simp: gettoken_def token_def is_white_cases)

lemma gettoken_gt: "deref s \<noteq> 62 \<Longrightarrow> gettoken (62 # s) = (62, 62 # s, s, skip_white s)"
  by (auto simp: gettoken_def token_def is_white_cases)

lemma word_text_app [simp]: "word_text (w @ s, s) = w"
  by (simp add: word_text_def)

lemma peek_word:
  assumes "is_word w" "set toks \<subseteq> set symbols"
  shows "peek (w @ s) toks = (False, w @ s)"
proof -
  have "u_strchr toks c = None" if "\<not> is_symbol c" for c
    using that assms(2) by (induction toks) (auto simp: is_symbol_cases symbols_simp)
  then show ?thesis using assms(1) by (auto simp: peek_def elim!: word_start)
qed

lemma peek_after_block: "after_block s \<Longrightarrow> peek s toks = (s \<noteq> [] \<and> u_strchr toks (deref s) \<noteq> None, s)"
  by (auto simp: peek_def after_block_def)

lemma parseredirs_none: "after_block s \<Longrightarrow> parseredirs s = Inr ([], s)"
  by (auto simp: parseredirs.simps [of s] peek_after_block after_block_def)

lemma parseredirs_word: "is_word w \<Longrightarrow> parseredirs (w @ s) = Inr ([], w @ s)"
  by (simp add: parseredirs.simps [of "w @ s"] peek_word symbols_simp)


text \<open>Arguments.\<close>

lemma print_words_start: "stop post \<Longrightarrow> (\<forall>w \<in> set ws. is_word w) \<Longrightarrow>
  skip_white (print_words ws @ post) = print_words ws @ post \<and> parseredirs (print_words ws @ post) = Inr ([], print_words ws @ post)"
  by (cases ws) (auto simp: stop_after_block parseredirs_none parseredirs_word)

lemma parseargs_words:
  assumes "stop post" "\<forall>w \<in> set ws. is_word w" "argc + length ws < MAXARGS"
  shows "\<exists>as. parseargs argc (print_words ws @ post) = Inr (as, [], post) \<and> map word_text as = ws"
  using assms(2,3)
proof (induction ws arbitrary: argc)
  case Nil
  show ?case
  proof (cases "post = []")
    case True
    then show ?thesis by (simp add: parseargs.simps [of argc "[]"] peek_def gettoken_def token_def)
  next
    case False
    then show ?thesis using assms(1) by (auto simp: stop_def parseargs.simps [of argc "41 # _"] peek_def)
  qed
next
  case (Cons w ws)
  have w: "is_word w" "set [124, 41, 38, 59] \<subseteq> set symbols" using Cons.prems by (simp_all add: symbols_simp)
  have st: "skip_white (print_words ws @ post) = print_words ws @ post" "parseredirs (print_words ws @ post) = Inr ([], print_words ws @ post)"
    using print_words_start assms(1) Cons.prems(1) by simp_all
  obtain as where as: "parseargs (argc + 1) (print_words ws @ post) = Inr (as, [], post)" "map word_text as = ws"
    using Cons.IH [of "argc + 1"] Cons.prems by auto
  have "parseargs argc (w @ 32 # print_words ws @ post) = Inr ((w @ 32 # print_words ws @ post, 32 # print_words ws @ post) # as, [], post)"
    using Cons.prems(2) as(1) by (subst parseargs.simps) (simp add: peek_word [OF w] gettoken_word [OF w(1)] st)
  then show ?case using as(2) by simp
qed

text \<open>The end of a command, after its first part has been read.\<close>

lemma parsebacks_stop: "after_block s \<Longrightarrow> deref s \<noteq> 38 \<Longrightarrow> parsebacks c s = (c, s)"
  by (auto simp: parsebacks.simps [of c s] peek_after_block)

lemma deref_stop: "stop s \<Longrightarrow> deref s = 0 \<or> deref s = 41"
  by (auto simp: stop_def)

lemma parsepipe_last:
  assumes "parseexec n s = Inr (c, s1)" "after_block s1" "deref s1 \<noteq> 124"
  shows "parsepipe (Suc n) s = Inr (c, s1)"
  using assms by (auto simp: parsepipe.simps peek_after_block)

lemma parseline_last:
  assumes "parsepipe n s = Inr (c, s1)" "stop s1"
  shows "parseline (Suc n) s = Inr (c, s1)"
  using assms deref_stop [OF assms(2)] stop_after_block [OF assms(2)]
  by (auto simp: parseline.simps parsebacks_stop peek_after_block)

text \<open>\<open>c\<close> can be read back wherever it is written with enough fuel.\<close>

definition reads :: "acmd \<Rightarrow> bool" where
  "reads c \<longleftrightarrow> (\<forall>n post. stop post \<longrightarrow> 4 * length (print_cmd c @ post) + 4 \<le> n \<longrightarrow>
     (\<exists>c'. parseline n (print_cmd c @ post) = Inr (c', post) \<and> meaning c' = c))"

lemma print_cmd_white: "valid_cmd c \<Longrightarrow> skip_white (print_cmd c @ 41 # s) = print_cmd c @ 41 # s"
proof (cases c)
  case (A_exec ws)
  moreover assume "valid_cmd c"
  ultimately show ?thesis by (cases ws) (auto simp: is_white_cases)
qed (auto simp: is_white_cases)

text \<open>A command in parentheses, followed by redirections \<open>rs\<close>.\<close>

lemma parseexec_block:
  assumes "reads c" "valid_cmd c" "4 * length (print_cmd c @ 41 # s) + 6 \<le> n" "parseredirs (skip_white s) = Inr (rs, s')"
  shows "\<exists>c'. parseexec n (40 # print_cmd c @ 41 # s) = Inr (add_redirs c' rs, s') \<and> meaning c' = c"
proof -
  define m where "m = n - 2"
  have n: "n = Suc (Suc m)" using assms(3) by (simp add: m_def)
  have "stop (41 # s)" by (simp add: stop_def)
  moreover have "4 * length (print_cmd c @ 41 # s) + 4 \<le> m" using assms(3) n by simp
  ultimately obtain c' where c': "parseline m (print_cmd c @ 41 # s) = Inr (c', 41 # s)" "meaning c' = c"
    using assms(1) unfolding reads_def by blast
  have "parseblock (Suc m) (40 # print_cmd c @ 41 # s) = Inr (add_redirs c' rs, s')"
    using c'(1) assms(4) by (simp add: parseblock.simps peek_def gettoken_symbol print_cmd_white [OF assms(2)])
  then show ?thesis using c'(2) by (auto simp: n parseexec.simps peek_def)
qed


lemma parseexec_words:
  assumes "stop post" "valid_cmd (A_exec ws)" "0 < n"
  shows "\<exists>c'. parseexec n (print_words ws @ post) = Inr (c', post) \<and> meaning c' = A_exec ws"
proof -
  obtain m where n: "n = Suc m" using assms(3) gr0_conv_Suc by auto
  have pk: "peek (print_words ws @ post) [40] = (False, print_words ws @ post)"
    using assms(1,2) stop_after_block [OF assms(1)]
    by (cases ws) (auto simp: peek_after_block peek_word symbols_simp stop_def)
  obtain as where "parseargs 0 (print_words ws @ post) = Inr (as, [], post)" "map word_text as = ws"
    using parseargs_words [OF assms(1), of ws 0] assms(2) by auto
  then show ?thesis using pk print_words_start [OF assms(1), of ws] assms(2) by (auto simp: n parseexec.simps)
qed

lemma redir_token:
  assumes "is_word f" "stop post"
  shows "parseredirs ((case k of R_in \<Rightarrow> 60 | _ \<Rightarrow> 62) # f @ 32 # post) =
    Inr ([(f @ 32 # post, 32 # post, case k of R_in \<Rightarrow> sh_O_RDONLY | _ \<Rightarrow> sh_O_WRCREATE, case k of R_in \<Rightarrow> 0 | _ \<Rightarrow> 1)], post)"
proof -
  have d: "deref (f @ 32 # post) \<noteq> 62" using assms(1) by (auto simp: is_symbol_cases elim!: word_start)
  have p: "skip_white post = post" "parseredirs post = Inr ([], post)"
    using stop_after_block [OF assms(2)] by (simp_all add: parseredirs_none)
  show ?thesis
    by (cases k) (simp_all add: parseredirs.simps [of "_ # _"] peek_def gettoken_symbol gettoken_gt [OF d] gettoken_word assms(1) p)
qed

lemma sh_modes_differ [simp]: "sh_O_WRCREATE \<noteq> sh_O_RDONLY"
  by (simp add: sh_O_WRCREATE_def sh_O_RDONLY_def)

lemma fuel_Suc:
  assumes "4 * l + 4 \<le> (n :: nat)"
  obtains m where "n = Suc (Suc m)" "4 * l + 2 \<le> m"
  using assms that [of "n - 2"] by simp

lemma block_read:
  assumes "reads c" "valid_cmd c" "4 * length (print_cmd c @ 41 # s) + 6 \<le> n" "after_block s"
  obtains c' where "parseexec n (40 # print_cmd c @ 41 # s) = Inr (c', s)" "meaning c' = c"
  using parseexec_block [OF assms(1-3), of "[]" s] assms(4) by (auto simp: parseredirs_none)

lemma all_read: "valid_cmd c \<Longrightarrow> reads c"
proof (induction c)
  case (A_exec ws)
  show ?case unfolding reads_def
  proof (intro allI impI)
    fix n post
    assume post: "stop post" and "4 * length (print_cmd (A_exec ws) @ post) + 4 \<le> n"
    then obtain m where n: "n = Suc (Suc m)" "0 < m" by (elim fuel_Suc) auto
    obtain c' where "parseexec m (print_words ws @ post) = Inr (c', post)" "meaning c' = A_exec ws"
      using parseexec_words [OF post A_exec n(2)] by blast
    then show "\<exists>c'. parseline n (print_cmd (A_exec ws) @ post) = Inr (c', post) \<and> meaning c' = A_exec ws"
      using post deref_stop [OF post] stop_after_block [OF post] by (auto simp: n intro!: parseline_last parsepipe_last)
  qed
next
  case (A_redir c k f)
  show ?case unfolding reads_def
  proof (intro allI impI)
    fix n post
    assume post: "stop post" and f: "4 * length (print_cmd (A_redir c k f) @ post) + 4 \<le> n"
    then obtain m where n: "n = Suc (Suc m)" "4 * length (print_cmd (A_redir c k f) @ post) + 2 \<le> m" by (elim fuel_Suc)
    let ?s = "(case k of R_in \<Rightarrow> 60 | _ \<Rightarrow> 62) # f @ 32 # post"
    have "parseredirs (skip_white ?s) = Inr ([(f @ 32 # post, 32 # post, case k of R_in \<Rightarrow> sh_O_RDONLY | _ \<Rightarrow> sh_O_WRCREATE,
        case k of R_in \<Rightarrow> 0 | _ \<Rightarrow> 1)], post)"
      using redir_token [of f post k] A_redir.prems post by (cases k) simp_all
    then obtain c' where c': "parseexec m (40 # print_cmd c @ 41 # ?s) = Inr (REDIR c' (f @ 32 # post) (32 # post)
        (case k of R_in \<Rightarrow> sh_O_RDONLY | _ \<Rightarrow> sh_O_WRCREATE) (case k of R_in \<Rightarrow> 0 | _ \<Rightarrow> 1), post)" "meaning c' = c"
      using parseexec_block [of c ?s m] A_redir n(2) by fastforce
    then show "\<exists>c'. parseline n (print_cmd (A_redir c k f) @ post) = Inr (c', post) \<and> meaning c' = A_redir c k f"
      using post deref_stop [OF post] stop_after_block [OF post] A_redir.prems
      by (cases k) (auto simp: n intro!: exI conjI parseline_last parsepipe_last)
  qed
next
  case (A_pipe l r)
  show ?case unfolding reads_def
  proof (intro allI impI)
    fix n post
    assume post: "stop post" and f: "4 * length (print_cmd (A_pipe l r) @ post) + 4 \<le> n"
    then obtain m where n: "n = Suc (Suc m)" "4 * length (print_cmd (A_pipe l r) @ post) + 2 \<le> m" by (elim fuel_Suc)
    then obtain k where m: "m = Suc k" by (cases m) auto
    let ?s2 = "40 # print_cmd r @ 41 # post"
    have "after_block (124 # ?s2)" by (simp add: after_block_def)
    then obtain l' where l': "parseexec m (40 # print_cmd l @ 41 # 124 # ?s2) = Inr (l', 124 # ?s2)" "meaning l' = l"
      using block_read [of l "124 # ?s2" m] A_pipe n(2) by auto
    obtain r' where r': "parseexec k ?s2 = Inr (r', post)" "meaning r' = r"
      using block_read [of r post k] A_pipe n(2) m stop_after_block [OF post] by auto
    have "parsepipe m ?s2 = Inr (r', post)"
      unfolding m using r'(1) deref_stop [OF post] stop_after_block [OF post] by (intro parsepipe_last) auto
    then have "parsepipe (Suc m) (40 # print_cmd l @ 41 # 124 # ?s2) = Inr (PIPE l' r', post)"
      using l'(1) by (simp add: parsepipe.simps peek_def gettoken_symbol)
    then show "\<exists>c'. parseline n (print_cmd (A_pipe l r) @ post) = Inr (c', post) \<and> meaning c' = A_pipe l r"
      using parseline_last [OF _ post] l'(2) r'(2) by (force simp: n)
  qed
next
  case (A_list l r)
  show ?case unfolding reads_def
  proof (intro allI impI)
    fix n post
    assume post: "stop post" and f: "4 * length (print_cmd (A_list l r) @ post) + 4 \<le> n"
    then obtain m where n: "n = Suc (Suc m)" "4 * length (print_cmd (A_list l r) @ post) + 2 \<le> m" by (elim fuel_Suc)
    then obtain k where m: "m = Suc k" by (cases m) auto
    let ?s2 = "40 # print_cmd r @ 41 # post"
    have ab: "after_block (59 # ?s2)" by (simp add: after_block_def)
    then obtain l' where l': "parseexec m (40 # print_cmd l @ 41 # 59 # ?s2) = Inr (l', 59 # ?s2)" "meaning l' = l"
      using block_read [of l "59 # ?s2" m] A_list n(2) by auto
    obtain r' where r': "parseexec k ?s2 = Inr (r', post)" "meaning r' = r"
      using block_read [of r post k] A_list n(2) m stop_after_block [OF post] by auto
    have "parsepipe m ?s2 = Inr (r', post)"
      unfolding m using r'(1) deref_stop [OF post] stop_after_block [OF post] by (intro parsepipe_last) auto
    then have "parseline (Suc m) ?s2 = Inr (r', post)" using post by (rule parseline_last)
    moreover have "parsepipe (Suc m) (40 # print_cmd l @ 41 # 59 # ?s2) = Inr (l', 59 # ?s2)"
      using l'(1) ab by (intro parsepipe_last) auto
    ultimately have "parseline n (40 # print_cmd l @ 41 # 59 # ?s2) = Inr (LIST l' r', post)"
      using ab by (simp add: n parseline.simps parsebacks_stop peek_def gettoken_symbol)
    then show "\<exists>c'. parseline n (print_cmd (A_list l r) @ post) = Inr (c', post) \<and> meaning c' = A_list l r"
      using l'(2) r'(2) by force
  qed
next
  case (A_back c)
  show ?case unfolding reads_def
  proof (intro allI impI)
    fix n post
    assume post: "stop post" and f: "4 * length (print_cmd (A_back c) @ post) + 4 \<le> n"
    then obtain m where n: "n = Suc (Suc m)" "4 * length (print_cmd (A_back c) @ post) + 2 \<le> m" by (elim fuel_Suc)
    have ab: "after_block (38 # post)" by (simp add: after_block_def)
    then obtain c' where c': "parseexec m (40 # print_cmd c @ 41 # 38 # post) = Inr (c', 38 # post)" "meaning c' = c"
      using block_read [of c "38 # post" m] A_back n(2) by auto
    have "parsepipe (Suc m) (40 # print_cmd c @ 41 # 38 # post) = Inr (c', 38 # post)"
      using c'(1) ab by (intro parsepipe_last) auto
    moreover have "parsebacks c' (38 # post) = (BACK c', post)"
      using deref_stop [OF post] stop_after_block [OF post]
      by (auto simp: parsebacks.simps [of c'] peek_def gettoken_symbol parsebacks_stop)
    ultimately have "parseline n (40 # print_cmd c @ 41 # 38 # post) = Inr (BACK c', post)"
      using deref_stop [OF post] stop_after_block [OF post] by (auto simp: n parseline.simps peek_after_block)
    then show "\<exists>c'. parseline n (print_cmd (A_back c) @ post) = Inr (c', post) \<and> meaning c' = A_back c"
      using c'(2) by force
  qed
qed

text \<open>C32: The shell's grammar expresses every command: a command written out with parentheses is parsed back to the
  command it came from.\<close>

theorem parsecmd_print_cmd:
  assumes "valid_cmd c"
  shows "\<exists>c'. parsecmd (print_cmd c) = Inr c' \<and> meaning c' = c"
proof -
  have "stop []" by (simp add: stop_def)
  then obtain c' where "parseline (4 * length (print_cmd c) + 4) (print_cmd c) = Inr (c', [])" "meaning c' = c"
    using all_read [OF assms] unfolding reads_def by force
  then show ?thesis by (simp add: parsecmd_def peek_def)
qed


theorem parsecmd_print_cmd_witness:
  "valid_cmd (A_pipe (A_redir (A_exec [lit ''cat'']) R_in (lit ''f'')) (A_back (A_exec [lit ''wc'']))) \<and>
   (\<exists>c'. parsecmd (lit ''((cat )<f )|((wc )&)'') = Inr c' \<and>
     meaning c' = A_pipe (A_redir (A_exec [lit ''cat'']) R_in (lit ''f'')) (A_back (A_exec [lit ''wc''])))"
proof -
  let ?c = "A_pipe (A_redir (A_exec [lit ''cat'']) R_in (lit ''f'')) (A_back (A_exec [lit ''wc'']))"
  have v: "valid_cmd ?c" by (simp add: lit_def is_word_def word_char_def is_white_cases is_symbol_cases MAXARGS_def)
  have "print_cmd ?c = lit ''((cat )<f )|((wc )&)''" by (simp add: lit_def)
  then show ?thesis using parsecmd_print_cmd [OF v] v by metis
qed

section \<open>Words become C strings\<close>

fun words :: "cmd \<Rightarrow> (ptr \<times> ptr) set" where
  "words (EXEC as) = set as"
| "words (REDIR c q e m fd) = insert (q, e) (words c)"
| "words (PIPE l r) = words l \<union> words r"
| "words (LIST l r) = words l \<union> words r"
| "words (BACK c) = words c"

text \<open>A word of the line reaches from a character that is neither white space nor a symbol to the first that is.\<close>

definition in_word :: "byte \<Rightarrow> bool" where "in_word c \<longleftrightarrow> \<not> is_white c \<and> \<not> is_symbol c"

definition word_ok :: "ptr \<times> ptr \<Rightarrow> bool" where
  "word_ok w \<longleftrightarrow> fst w \<noteq> [] \<and> in_word (hd (fst w)) \<and> snd w = dropWhile in_word (fst w)"

lemma skip_word_dropWhile: "skip_word s = dropWhile in_word s"
  by (induction s) (auto simp: in_word_def)

lemma gettoken_word_ok:
  assumes "gettoken s = (97, q, e, s')"
  shows "word_ok (q, e)"
proof -
  have q: "q = skip_white s" "token q = (97, e)" using assms by (auto simp: gettoken_def Let_def split: prod.splits)
  from q(2) have "q \<noteq> []" by (auto simp: token_def)
  then obtain c r where cr: "q = c # r" by (meson neq_Nil_conv)
  then have "\<not> is_white c" using q(1) skip_white_hd by metis
  moreover from q(2) cr have "\<not> is_symbol c" "e = skip_word q"
    by (auto simp: token_def is_symbol_cases Let_def split: if_splits)
  ultimately show ?thesis using cr by (simp add: word_ok_def skip_word_dropWhile in_word_def)
qed

lemma words_add_redirs: "words (add_redirs c rs) = words c \<union> (\<lambda>(q, e, _). (q, e)) ` set rs"
  by (induction c rs rule: add_redirs.induct) auto

lemma parseredirs_words: "parseredirs s = Inr (rs, s') \<Longrightarrow> (q, e, m, fd) \<in> set rs \<Longrightarrow> word_ok (q, e)"
proof (induction s arbitrary: rs s' rule: parseredirs.induct)
  case (1 s)
  obtain b s1 where p: "peek s [60, 62] = (b, s1)" by fastforce
  obtain tok q1 e1 s2 where g1: "gettoken s1 = (tok, q1, e1, s2)" by (cases "gettoken s1") auto
  obtain t q' e' s3 where g2: "gettoken s2 = (t, q', e', s3)" by (cases "gettoken s2") auto
  show ?case
  proof (cases b)
    case False
    then show ?thesis using 1(2,3) p by (simp add: parseredirs.simps [of s])
  next
    case True
    then obtain rs' m' fd' where r: "t = 97" "parseredirs s3 = Inr (rs', s')" "rs = (q', e', m', fd') # rs'"
      using 1(2) p g1 g2 by (subst (asm) parseredirs.simps) (auto simp: Let_def split: if_splits sum.splits)
    show ?thesis
    proof (cases "(q, e, m, fd) \<in> set rs'")
      case True
      then show ?thesis using 1(1) [OF p [symmetric] refl _ g1 [symmetric] refl refl refl g2 [symmetric]] \<open>b\<close> r by fastforce
    next
      case False
      then show ?thesis using 1(3) r g2 gettoken_word_ok by auto
    qed
  qed
qed

lemma parseargs_words_ok:
  "parseargs argc s = Inr (as, rs, s') \<Longrightarrow> (\<forall>w \<in> set as. word_ok w) \<and> (\<forall>(q, e, m, fd) \<in> set rs. word_ok (q, e))"
proof (induction argc s arbitrary: as rs s' rule: parseargs.induct)
  case (1 argc s)
  obtain b s1 where p: "peek s [124, 41, 38, 59] = (b, s1)" by fastforce
  obtain t q e s2 where g: "gettoken s1 = (t, q, e, s2)" by (cases "gettoken s1") auto
  show ?case
  proof (cases "b \<or> t = 0")
    case True
    then show ?thesis using 1(2) p g by (auto simp: parseargs.simps [of argc s] split: if_splits)
  next
    case False
    then obtain rs1 s3 as' rs' where r: "t = 97" "\<not> argc + 1 \<ge> MAXARGS" "parseredirs s2 = Inr (rs1, s3)"
        "parseargs (argc + 1) s3 = Inr (as', rs', s')" "as = (q, e) # as'" "rs = rs1 @ rs'" using 1(2) p g
      by (subst (asm) parseargs.simps) (auto simp: Let_def split: if_splits sum.splits)
    then have "(\<forall>w \<in> set as'. word_ok w) \<and> (\<forall>(q, e, m, fd) \<in> set rs'. word_ok (q, e))"
      using 1(1) [OF p [symmetric] refl _ g [symmetric] refl refl refl] False by fastforce
    moreover have "word_ok (q, e)" using gettoken_word_ok g r(1) by blast
    ultimately show ?thesis using parseredirs_words [OF r(3)] r(5,6) by auto
  qed
qed

definition words_ok :: "perr + cmd \<times> ptr \<Rightarrow> bool" where
  "words_ok r \<longleftrightarrow> (\<forall>c s. r = Inr (c, s) \<longrightarrow> (\<forall>w \<in> words c. word_ok w))"

lemma parsebacks_words: "words (fst (parsebacks c s)) = words c"
proof (induction c s rule: parsebacks.induct)
  case (1 c s)
  obtain b s1 where p: "peek s [38] = (b, s1)" by fastforce
  obtain t q e s2 where g: "gettoken s1 = (t, q, e, s2)" by (cases "gettoken s1") auto
  show ?case using 1 [OF p [symmetric] refl _ g [symmetric] refl refl refl] p g
    by (cases b) (simp_all add: parsebacks.simps [of c s])
qed

lemma parse_words_ok:
  "words_ok (parseline n s) \<and> words_ok (parsepipe n s) \<and> words_ok (parseexec n s) \<and> words_ok (parseblock n s)"
proof (induction n arbitrary: s)
  case 0
  show ?case by (simp add: words_ok_def parseline.simps parsepipe.simps parseexec.simps parseblock.simps)
next
  case (Suc n)
  have IH: "parseline n s = Inr (c, s') \<Longrightarrow> w \<in> words c \<Longrightarrow> word_ok w"
    "parsepipe n s = Inr (c, s') \<Longrightarrow> w \<in> words c \<Longrightarrow> word_ok w"
    "parseexec n s = Inr (c, s') \<Longrightarrow> w \<in> words c \<Longrightarrow> word_ok w"
    "parseblock n s = Inr (c, s') \<Longrightarrow> w \<in> words c \<Longrightarrow> word_ok w" for s c s' w
    using Suc.IH [of s] by (auto simp: words_ok_def)
  have bk: "w \<in> words c' \<Longrightarrow> w \<in> words c" if "parsebacks c s = (c', s')" for c s c' s' w
    using parsebacks_words [of c s] that by simp
  have "words_ok (parseline (Suc n) s)"
    unfolding words_ok_def parseline.simps using IH(1,2) bk
    by (fastforce simp: Let_def split: sum.splits prod.splits if_splits)
  moreover have "words_ok (parsepipe (Suc n) s)"
    unfolding words_ok_def parsepipe.simps using IH(2,3)
    by (fastforce simp: Let_def split: sum.splits prod.splits if_splits)
  moreover have "words_ok (parseexec (Suc n) s)"
    unfolding words_ok_def parseexec.simps using IH(4) parseargs_words_ok parseredirs_words
    by (fastforce simp: Let_def words_add_redirs split: sum.splits prod.splits if_splits)
  moreover have "words_ok (parseblock (Suc n) s)"
    unfolding words_ok_def parseblock.simps using IH(1) parseredirs_words
    by (fastforce simp: Let_def words_add_redirs split: sum.splits prod.splits if_splits)
  ultimately show ?case by simp
qed

lemma nulterminate_words: "set (nulterminate c) = snd ` words c"
  by (induction c) auto

lemma word_text_takeWhile: "word_ok (q, e) \<Longrightarrow> word_text (q, e) = takeWhile in_word q"
  using word_text_app [of "takeWhile in_word q" "dropWhile in_word q"] by (simp add: word_ok_def)

lemma cstr_at_word:
  assumes "\<And>e. e \<in> set z \<Longrightarrow> e = [] \<or> \<not> in_word (hd e)" "dropWhile in_word q \<in> set z"
  shows "cstr_at z q = takeWhile in_word q"
  using assms(2)
proof (induction q)
  case (Cons c q)
  show ?case
  proof (cases "in_word c")
    case True
    then have "c # q \<notin> set z" using assms(1) [of "c # q"] by auto
    then show ?thesis using Cons True by simp
  qed (use Cons in simp)
qed simp

text \<open>C33: Once the line has been parsed and \<^verbatim>\<open>nulterminate\<close> has overwritten the character after every word, each argument
  and file name of the command, read as a C string, is exactly the word that stands in the line, also where words and
  operators touch.\<close>

theorem nulterminate_strings:
  assumes "parsecmd line = Inr c" "(q, e) \<in> words c"
  shows "cstr_at (nulterminate c) q = word_text (q, e) \<and> word_text (q, e) \<noteq> []"
proof -
  obtain s where "parseline (4 * length line + 4) line = Inr (c, s)"
    using assms(1) by (auto simp: parsecmd_def split: sum.splits if_splits)
  then have ok: "word_ok w" if "w \<in> words c" for w
    using parse_words_ok [of "4 * length line + 4" line] that by (auto simp: words_ok_def)
  have ends: "e' = [] \<or> \<not> in_word (hd e')" if "e' \<in> set (nulterminate c)" for e'
    using that ok hd_dropWhile [of in_word] by (fastforce simp: nulterminate_words word_ok_def)
  have "e = dropWhile in_word q" using ok [OF assms(2)] by (simp add: word_ok_def)
  then have "dropWhile in_word q \<in> set (nulterminate c)" using assms(2) by (force simp: nulterminate_words)
  then have "cstr_at (nulterminate c) q = word_text (q, e)"
    using cstr_at_word ends word_text_takeWhile [OF ok [OF assms(2)]] by metis
  moreover have "word_text (q, e) \<noteq> []"
    using ok [OF assms(2)] by (cases q) (auto simp: word_text_takeWhile word_ok_def)
  ultimately show ?thesis ..
qed

theorem nulterminate_strings_witness:
  "\<exists>c. parsecmd (lit ''cat<f|wc'') = Inr c \<and> (lit ''wc'', []) \<in> words c \<and> (lit ''f|wc'', lit ''|wc'') \<in> words c \<and>
     cstr_at (nulterminate c) (lit ''f|wc'') = lit ''f''"
proof -
  define c where "c = PIPE (REDIR (EXEC [(lit ''cat<f|wc'', lit ''<f|wc'')]) (lit ''f|wc'') (lit ''|wc'') 0 0) (EXEC [(lit ''wc'', [])])"
  have p: "parsecmd (lit ''cat<f|wc'') = Inr c" unfolding c_def by code_simp
  have w: "(lit ''f|wc'', lit ''|wc'') \<in> words c" by (simp add: c_def)
  then have "cstr_at (nulterminate c) (lit ''f|wc'') = word_text (lit ''f|wc'', lit ''|wc'')"
    using nulterminate_strings [OF p w] by simp
  then show ?thesis using p w by (intro exI [of _ c]) (simp add: c_def word_text_def lit_def)
qed

end
