(* ===== verification/Spec2Isabelle.thy ===== *)
theory Spec2Isabelle
  imports Crash Fs_Data Ide Trap Grep Sh
begin

text \<open>
  A verification library for the 64-bit xv6 under \<^verbatim>\<open>src/\<close>: the kernel in \<^verbatim>\<open>src/kernel\<close> and \<^verbatim>\<open>src/include/xv6\<close>, and the user library,
  \<^verbatim>\<open>grep\<close>, \<^verbatim>\<open>wc\<close> and the shell's parser in \<^verbatim>\<open>src/user\<close>.

  \<^bold>\<open>The program.\<close> A process enters the kernel through \<^verbatim>\<open>trap\<close>, which calls \<^verbatim>\<open>syscall\<close> or an interrupt handler. System calls check
  their arguments against the memory of the process, work on open files, pipes, inodes and page tables, and
  may sleep. The file system keeps blocks in a cache of buffers, writes them through a redo log, and moves them
  to the disk with one of two drivers. Everything takes its memory from a page allocator, and
  spin locks order the CPUs.

  \<^bold>\<open>How code becomes definitions.\<close> A kernel function is an operation \<open>('s, 'a) kop\<close>, from a state to either a result with a new
  state or an error (\<open>Xv6_Prelude\<close>): \<open>Panic\<close> with the message, \<open>Fault\<close> for an access the processor refuses, \<open>Blocked\<close> where the
  process goes to sleep and the scheduler takes over, \<open>Diverge\<close> for a loop that spins for ever. \<open>wp f Q s\<close>
  says that \<open>f\<close> returns from \<open>s\<close> and that \<open>Q\<close> holds then; it is total correctness, so it excludes all four. The state is a record that
  each theory extends: locks, memory and free list, processes, buffers and disk, log, console, inodes, files and pipes,
  page tables, traps. C integers are words of their width where arithmetic can wrap; block numbers, reference
  counts and process ids, which stay far below it, are \<open>nat\<close> and \<open>int\<close>. Memory is a function from 64-bit addresses to bytes.
  Panic strings are those of the code. A C string is the list of its bytes; tables of pointers are lists.

  \<^bold>\<open>Theories, from the bottom up.\<close>
  \<^item> \<open>Xv6_Prelude\<close>: integer types, memory, the operations above with their rules, generic lemmas.
  \<^item> \<open>Cstring\<close>: \<^verbatim>\<open>kernel/string.c\<close>, against what the routines do to memory (C11 to C14).
  \<^item> \<open>Spinlock\<close>: \<^verbatim>\<open>kernel/spinlock.c\<close>. The machine with its CPUs, interrupt flags and lock words, where calls are cut at
    their accesses to shared memory and interleave as an inductive step relation (C1, C2); the locale \<open>spin_lock\<close>, which the machine
    and the abstraction used everywhere above it, the set \<open>held\<close> of the locks held, both interpret (C3).
  \<^item> \<open>Kalloc\<close>: \<^verbatim>\<open>kernel/kalloc.c\<close>, the free list threaded through the free pages, under the locale \<open>page_allocator\<close> (C8 to C10).
  \<^item> \<open>Sched\<close>, \<open>Sleeplock\<close>: \<^verbatim>\<open>sleep\<close>, \<^verbatim>\<open>wakeup\<close>, \<^verbatim>\<open>sched\<close>, \<^verbatim>\<open>kill\<close> and the scheduler of \<^verbatim>\<open>kernel/proc.c\<close>; \<^verbatim>\<open>kernel/sleeplock.c\<close> on a lock that is a field
    of the state, through the locale \<open>sleeplock_field\<close>.
  \<^item> \<open>Bio\<close>, \<open>Block_Io\<close>: \<^verbatim>\<open>kernel/bio.c\<close> on \<^verbatim>\<open>kernel/ide/memide.c\<close>: the ring of buffers in use order, its invariant, and the contents \<open>blk\<close> of a
    block as the kernel sees it (C6, C7). The locale \<open>block_store\<close> is what the layers above rely on.
  \<^item> \<open>Log\<close>, \<open>Crash\<close>: \<^verbatim>\<open>kernel/log.c\<close> down to the single disk writes. A crash keeps any prefix of them; recovery after any number
    of crashes gives the blocks before or after the transaction (C4), and the last \<^verbatim>\<open>end_op\<close> leaves all of them on disk (C5). C15 is the
    header round trip, C16 a run in which the admission rule lets \<^verbatim>\<open>log_write\<close> panic.
  \<^item> \<open>Sprintf\<close>, \<open>Ring\<close>, \<open>Console\<close>: \<^verbatim>\<open>kernel/sprintf.c\<close> (C18 to C20); free-running ring counters as the locale \<open>ring\<close>, interpreted for the
    console and for pipes; the line discipline of \<^verbatim>\<open>kernel/console.c\<close> refines committed bytes and an edited line (C17).
  \<^item> \<open>Inode\<close>, \<open>Fs\<close>, \<open>Fs_Data\<close>: \<^verbatim>\<open>kernel/fs.c\<close>: bitmap, inodes, contents, directories, paths. \<open>fbyte\<close> is the byte of a file that the block
    map denotes; \<^verbatim>\<open>readi\<close>, \<^verbatim>\<open>writei\<close> and \<^verbatim>\<open>balloc\<close> are proved against it and against the set of free blocks (C34 to C36).
  \<^item> \<open>File\<close>: \<^verbatim>\<open>kernel/file.c\<close>, \<^verbatim>\<open>kernel/pipe.c\<close>; pipes keep the order of bytes and report a missing reader (C21, C22).
  \<^item> \<open>Seg\<close>: descriptors and gates of \<^verbatim>\<open>seg.h\<close>, \<^verbatim>\<open>trap.h\<close>, \<^verbatim>\<open>seginit\<close> and \<^verbatim>\<open>tvinit\<close>, decoded as the processor does (C23, C24).
  \<^item> \<open>Vm\<close>, \<open>Paging\<close>: \<^verbatim>\<open>kernel/vm.c\<close> on tables in memory; \<open>mmu\<close> is the page walk of the processor, and \<^verbatim>\<open>mappages\<close> and \<^verbatim>\<open>uva2ka\<close> are
    proved against it (C37, C38).
  \<^item> \<open>Proc\<close>, \<open>Exec\<close>, \<open>Syscall\<close>, \<open>Kbd\<close>, \<open>Trap\<close>: the rest of \<^verbatim>\<open>kernel/proc.c\<close>, \<^verbatim>\<open>kernel/exec.c\<close>, \<^verbatim>\<open>syscall.c\<close>, \<^verbatim>\<open>sysproc.c\<close>, \<^verbatim>\<open>sysfile.c\<close>,
    \<^verbatim>\<open>kbd.c\<close>, \<^verbatim>\<open>trap.c\<close>, as complete definitions; the fetching of string arguments is proved to stay within the process (C39).
  \<^item> \<open>Ide\<close>: \<^verbatim>\<open>kernel/ide/ide.c\<close>, the driver of a real disk. Its histories complete requests in order (C26). Together with a drive that follows the
    ATA protocol it executes every queued request on the right sector (C25); a read error is lost (C40).
  \<^item> \<open>Ulib\<close>, \<open>Grep\<close>, \<open>Sh\<close>: \<^verbatim>\<open>user/ulib\<close> (C27), \<^verbatim>\<open>user/grep.c\<close> and \<^verbatim>\<open>user/wc.c\<close> (C28 to C30), the parser of \<^verbatim>\<open>user/sh.c\<close> (C31 to C33).

  \<^bold>\<open>Loops and bounds.\<close> Most loops are structural. \<open>freerange_loop\<close> has one step more than there are pages in the address space. The walks along the
  buffer ring and the disk queue have \<open>NBUF + 1\<close> and \<open>NBUF\<close> steps, and both link at most \<open>NBUF\<close> distinct buffers. The shell's parser has fuel four times the length
  of the line and four more, and C31 says that it never runs out. A wait on a device ends when
  the device does; the statuses still to come are a list in the state, and a wait past its end is \<open>Diverge\<close>.

  \<^bold>\<open>What hardware is here.\<close> The ports' other side (\<open>ata_out\<close>), the page walk (\<open>mmu\<close>) and the decoders of descriptors are the specifications the
  code is written against, not code of the repository. \<open>ide_wait\<close> in \<open>Ide\<close> is \<^verbatim>\<open>iderw\<close> up to the point where the process is
  asleep; a sleeping process continues in another step of a history, so there is no single operation for it.

  \<^bold>\<open>Left out.\<close> Within modelled functions: the name and caller addresses that a spin lock keeps for debugging; \<^verbatim>\<open>pushcli\<close> and \<^verbatim>\<open>popcli\<close> in \<^verbatim>\<open>switchuvm\<close>,
  which only keep it on its CPU; end-of-interrupt writes. All sleep locks are guarded by one name in \<open>held\<close>, since a CPU holds
  at most one of their spin locks at a time. Signed overflow, which C leaves undefined, wraps in \<open>u_atoi\<close>. Not modelled at all: the drivers of
  \<^verbatim>\<open>uart.c\<close>, \<^verbatim>\<open>ioapic.c\<close>, \<^verbatim>\<open>lapic.c\<close>, \<^verbatim>\<open>picirq.c\<close> and \<^verbatim>\<open>fb.c\<close>, which write device registers or pixels and keep no state; the boot code of \<^verbatim>\<open>main.c\<close>, \<^verbatim>\<open>mp.c\<close> and
  \<^verbatim>\<open>mb2.c\<close>, which reads firmware tables; assembly; \<^verbatim>\<open>umalloc.c\<close>; user programs that only make system calls, \<^verbatim>\<open>runcmd\<close> of the shell
  among them; the tests and \<^verbatim>\<open>mkfs.c\<close>.
\<close>

end
